(* ===== verification/Prelude.thy ===== *)
theory Prelude
  imports Main "HOL-Library.Sublist" "HOL-Library.Word"
begin

section \<open>Prelude: faults and shared lemmas\<close>

text \<open>
  What every component of the development shares.

  \<^item> \<open>fault\<close> and \<open>'a res\<close>: an operation of the C program that may touch memory it does not
    own returns a value of \<open>fault + 'a\<close>; \<open>Inl\<close> is the undefined behaviour, \<open>Inr\<close> the result.
  \<^item> Lemmas on lists, rotations and counting threads, collected in the named collections below.
\<close>

named_theorems ring_simps \<open>rotations of the ring buffer's array\<close>
named_theorems cstr_simps \<open>evaluation of the C string functions\<close>

subsection \<open>Faults\<close>

datatype fault = OutOfBounds | NullDeref | UninitRead | DeadLock | BadFree | UseAfterFree

type_synonym 'a res = "fault + 'a"

definition bind_res :: "'a res \<Rightarrow> ('a \<Rightarrow> 'b res) \<Rightarrow> 'b res" where
  "bind_res m k = (case m of Inl f \<Rightarrow> Inl f | Inr x \<Rightarrow> k x)"

lemma bind_res_simps [simp]: "bind_res (Inl f) k = Inl f" "bind_res (Inr x) k = k x"
  by (simp_all add: bind_res_def)

lemma bind_res_Inr: "bind_res m k = Inr y \<longleftrightarrow> (\<exists>x. m = Inr x \<and> k x = Inr y)"
  by (cases m) auto

lemma bind_res_Inl: "bind_res m k = Inl f \<longleftrightarrow> m = Inl f \<or> (\<exists>x. m = Inr x \<and> k x = Inl f)"
  by (cases m) auto

text \<open>A condition the code relies on, or the fault of breaking it.\<close>

definition require :: "fault \<Rightarrow> bool \<Rightarrow> unit res" where
  "require f b = (if b then Inr () else Inl f)"

lemma require_simps [simp]: "require f True = Inr ()" "require f False = Inl f"
  by (simp_all add: require_def)

subsection \<open>Lists under rotation\<close>

lemma mod_add_inj:
  fixes h i j n :: nat
  assumes "i < n" "j < n" "(h + i) mod n = (h + j) mod n"
  shows "i = j"
proof -
  have "(h + i) mod n = (h + j) mod n \<longleftrightarrow> i mod n = j mod n"
    by (simp add: nat_mod_eq_iff)
  with assms show ?thesis by simp
qed

lemma rotate_list_update [ring_simps]:
  assumes "n < length xs"
  shows "rotate h (xs[(h + n) mod length xs := v]) = (rotate h xs)[n := v]"
proof (rule nth_equalityI)
  show "length (rotate h (xs[(h + n) mod length xs := v])) = length ((rotate h xs)[n := v])"
    by simp
next
  fix i assume "i < length (rotate h (xs[(h + n) mod length xs := v]))"
  then have i: "i < length xs" by simp
  have "(h + i) mod length xs < length xs" using i by (cases xs) auto
  moreover have "(h + i) mod length xs = (h + n) mod length xs \<longleftrightarrow> i = n"
    using mod_add_inj [OF i assms] by auto
  ultimately show "rotate h (xs[(h + n) mod length xs := v]) ! i = (rotate h xs)[n := v] ! i"
    using i assms by (auto simp: nth_rotate nth_list_update)
qed

lemma rotate_mod_length: "rotate (n mod length xs) xs = rotate n xs"
  by (simp add: rotate_conv_mod [symmetric])

subsection \<open>Searching an array\<close>

text \<open>The index of the first element with \<open>P\<close>, or the length.\<close>

definition first_index :: "('a \<Rightarrow> bool) \<Rightarrow> 'a list \<Rightarrow> nat" where
  "first_index P xs = length (takeWhile (\<lambda>x. \<not> P x) xs)"

lemma first_index_le: "first_index P xs \<le> length xs"
  by (simp add: first_index_def length_takeWhile_le)

lemma first_index_P: "first_index P xs < length xs \<Longrightarrow> P (xs ! first_index P xs)"
  unfolding first_index_def using nth_length_takeWhile by fastforce

subsection \<open>Counting threads by program counter\<close>

definition cnt :: "('p \<Rightarrow> bool) \<Rightarrow> (nat \<Rightarrow> 'p) \<Rightarrow> nat" where
  "cnt P f = card {t. P (f t)}"

lemma finite_cnt:
  assumes "finite {t. f t \<noteq> d}" "\<not> P d"
  shows "finite {t. P (f t)}"
  using assms(2) by (rule_tac finite_subset [OF _ assms(1)]) auto

lemma cnt_upd:
  fixes f :: "nat \<Rightarrow> 'p"
  assumes "finite {t. f t \<noteq> d}" "\<not> P d"
  shows "cnt P (f(t := v)) + of_bool (P (f t)) = cnt P f + of_bool (P v)"
proof -
  let ?R = "{u. u \<noteq> t \<and> P (f u)}"
  have fin: "finite ?R" by (rule finite_subset [OF _ finite_cnt [of f d P, OF assms]]) auto
  have 1: "{u. P ((f(t := v)) u)} = (if P v then insert t ?R else ?R)" by auto
  have 2: "{u. P (f u)} = (if P (f t) then insert t ?R else ?R)" by auto
  show ?thesis unfolding cnt_def 1 2 using fin by simp
qed

lemma cnt_pos:
  assumes "finite {t. f t \<noteq> d}" "\<not> P d" "P (f t)"
  shows "0 < cnt P f"
proof -
  have "t \<in> {t. P (f t)}" using assms(3) by simp
  with finite_cnt [of f d P, OF assms(1,2)] show ?thesis
    unfolding cnt_def using card_gt_0_iff by blast
qed

lemma cnt_zero: "\<forall>t. \<not> P (f t) \<Longrightarrow> cnt P f = 0"
  by (simp add: cnt_def)

lemma cnt_cong: "(\<And>t. P (f t) = P (g t)) \<Longrightarrow> cnt P f = cnt P g"
  by (simp add: cnt_def)

lemma finite_upd: "finite {t. f t \<noteq> d} \<Longrightarrow> finite {u. (f(t := v)) u \<noteq> d}"
  by (rule finite_subset [of _ "insert t {t. f t \<noteq> d}"]) auto

text \<open>All but finitely many threads are at the place \<open>d\<close>.\<close>

definition fin_pcs :: "'p \<Rightarrow> (nat \<Rightarrow> 'p) \<Rightarrow> bool" where
  "fin_pcs d f \<longleftrightarrow> finite {t. f t \<noteq> d}"

lemma fin_pcs_upd [simp]: "fin_pcs d f \<Longrightarrow> fin_pcs d (f(t := v))"
  unfolding fin_pcs_def by (rule finite_upd)

lemma fin_pcs_const [simp]: "fin_pcs d (\<lambda>_. d)"
  by (simp add: fin_pcs_def)

lemma fin_pcs_below [simp]: "fin_pcs d f \<Longrightarrow> fin_pcs d (\<lambda>t. if t < k then v else f t)"
  unfolding fin_pcs_def by (rule finite_subset [of _ "{..<k} \<union> {t. f t \<noteq> d}"]) auto

end
