(* ===== verification/Fifo.thy ===== *)
theory Fifo
  imports Prelude
begin

section \<open>The interface of a bounded first-in first-out queue\<close>

text \<open>
  What the thread pool and the connections rely on when they call \<open>push\<close> and \<open>pop\<close> of
  \<open>libs/queue.c\<close>: the contract \<open>bounded_fifo\<close>, stated over an abstract content list. An
  operation that would block its caller (full queue, empty queue) returns \<open>None\<close>. The clients'
  lemmas (filling a queue by a loop of pushes, running any script of operations) are proved
  once from the laws; \<open>Queue.thy\<close> interprets the contract on the ring buffer of the code.
\<close>

datatype 'a fifo_op = Enq 'a | Deq

fun run_list :: "nat \<Rightarrow> 'a list \<Rightarrow> 'a fifo_op list \<Rightarrow> ('a list \<times> 'a list) option" where
  "run_list cap xs [] = Some ([], xs)"
| "run_list cap xs (Enq x # ops) =
     (if length xs < cap then run_list cap (xs @ [x]) ops else None)"
| "run_list cap xs (Deq # ops) =
     (case xs of [] \<Rightarrow> None
      | y # ys \<Rightarrow> map_option (\<lambda>(out, zs). (y # out, zs)) (run_list cap ys ops))"

fun run_queue :: "('q \<Rightarrow> 'a \<Rightarrow> 'q option) \<Rightarrow> ('q \<Rightarrow> ('a \<times> 'q) option) \<Rightarrow> 'q \<Rightarrow>
    'a fifo_op list \<Rightarrow> ('a list \<times> 'q) option" where
  "run_queue enq deq q [] = Some ([], q)"
| "run_queue enq deq q (Enq x # ops) =
     (case enq q x of None \<Rightarrow> None | Some q' \<Rightarrow> run_queue enq deq q' ops)"
| "run_queue enq deq q (Deq # ops) =
     (case deq q of None \<Rightarrow> None
      | Some (y, q') \<Rightarrow> map_option (\<lambda>(out, q''). (y # out, q'')) (run_queue enq deq q' ops))"

fun enq_all :: "('q \<Rightarrow> 'a \<Rightarrow> 'q option) \<Rightarrow> 'q \<Rightarrow> 'a list \<Rightarrow> 'q option" where
  "enq_all enq q [] = Some q"
| "enq_all enq q (x # xs) = (case enq q x of None \<Rightarrow> None | Some q' \<Rightarrow> enq_all enq q' xs)"

locale bounded_fifo =
  fixes invar :: "'q \<Rightarrow> bool"
    and contents :: "'q \<Rightarrow> 'a list"
    and capacity :: "'q \<Rightarrow> nat"
    and enq :: "'q \<Rightarrow> 'a \<Rightarrow> 'q option"
    and deq :: "'q \<Rightarrow> ('a \<times> 'q) option"
  assumes enq_room: "invar q \<Longrightarrow> length (contents q) < capacity q \<Longrightarrow>
      \<exists>q'. enq q x = Some q' \<and> invar q' \<and> contents q' = contents q @ [x] \<and> capacity q' = capacity q"
    and enq_full: "invar q \<Longrightarrow> length (contents q) = capacity q \<Longrightarrow> enq q x = None"
    and deq_cons: "invar q \<Longrightarrow> contents q = x # xs \<Longrightarrow>
      \<exists>q'. deq q = Some (x, q') \<and> invar q' \<and> contents q' = xs \<and> capacity q' = capacity q"
    and deq_nil: "invar q \<Longrightarrow> contents q = [] \<Longrightarrow> deq q = None"
    and bounded: "invar q \<Longrightarrow> length (contents q) \<le> capacity q"
begin

lemma enq_SomeD:
  assumes "invar q" "enq q x = Some q'"
  shows "invar q' \<and> contents q' = contents q @ [x] \<and> capacity q' = capacity q \<and>
    length (contents q) < capacity q"
proof -
  have "length (contents q) \<noteq> capacity q" using enq_full [OF assms(1)] assms(2) by auto
  then have "length (contents q) < capacity q" using bounded [OF assms(1)] by simp
  with enq_room [OF assms(1) this, of x] assms(2) show ?thesis by auto
qed

lemma deq_SomeD:
  assumes "invar q" "deq q = Some (x, q')"
  shows "invar q' \<and> contents q = x # contents q' \<and> capacity q' = capacity q"
proof (cases "contents q")
  case Nil
  with deq_nil [OF assms(1)] assms(2) show ?thesis by simp
next
  case (Cons y ys)
  with deq_cons [OF assms(1) Cons] assms(2) show ?thesis by auto
qed

lemma enq_all_room:
  assumes "invar q" "length (contents q) + length xs \<le> capacity q"
  shows "\<exists>q'. enq_all enq q xs = Some q' \<and> invar q' \<and> contents q' = contents q @ xs \<and>
    capacity q' = capacity q"
  using assms
proof (induction xs arbitrary: q)
  case Nil
  then show ?case by simp
next
  case (Cons x xs)
  then obtain q1 where q1: "enq q x = Some q1" "invar q1" "contents q1 = contents q @ [x]"
      "capacity q1 = capacity q"
    using enq_room [of q x] by auto
  with Cons.IH [of q1] Cons.prems show ?case by auto
qed

lemma run_refines:
  assumes "invar q"
  shows "map_option (\<lambda>(out, q'). (out, contents q')) (run_queue enq deq q ops) =
    run_list (capacity q) (contents q) ops"
  using assms
proof (induction ops arbitrary: q)
  case Nil
  then show ?case by simp
next
  case (Cons oper ops)
  show ?case
  proof (cases oper)
    case (Enq x)
    show ?thesis
    proof (cases "enq q x")
      case None
      with Cons.prems have "\<not> length (contents q) < capacity q" using enq_room [of q x] by auto
      with None Enq show ?thesis by simp
    next
      case (Some q')
      with enq_SomeD [OF Cons.prems Some] Cons.IH [of q'] Enq show ?thesis by auto
    qed
  next
    case Deq
    show ?thesis
    proof (cases "deq q")
      case None
      with Cons.prems have "contents q = []" using deq_cons by (cases "contents q") fastforce+
      with None Deq show ?thesis by simp
    next
      case (Some r)
      obtain y q' where r: "r = (y, q')" by (cases r)
      have d: "invar q' \<and> contents q = y # contents q' \<and> capacity q' = capacity q"
        using deq_SomeD [OF Cons.prems] Some r by simp
      have "map_option (\<lambda>(out, q'). (out, contents q')) (run_queue enq deq q' ops) =
          run_list (capacity q) (contents q') ops"
        using Cons.IH [of q'] d by simp
      with Some r Deq d show ?thesis
        by (cases "run_queue enq deq q' ops"; cases "run_list (capacity q) (contents q') ops") auto
    qed
  qed
qed

lemma run_invar:
  assumes "invar q" "run_queue enq deq q ops = Some (out, q')"
  shows "invar q' \<and> capacity q' = capacity q"
  using assms
proof (induction ops arbitrary: q out)
  case Nil
  then show ?case by simp
next
  case (Cons oper ops)
  show ?case
  proof (cases oper)
    case (Enq x)
    with Cons.prems obtain q1 where q1: "enq q x = Some q1" "run_queue enq deq q1 ops = Some (out, q')"
      by (auto split: option.splits)
    with Cons.IH [OF _ q1(2)] enq_SomeD [OF Cons.prems(1) q1(1)] show ?thesis by simp
  next
    case Deq
    with Cons.prems obtain y q1 out1 where
      q1: "deq q = Some (y, q1)" "run_queue enq deq q1 ops = Some (out1, q')"
      by (auto split: option.splits)
    with Cons.IH [OF _ q1(2)] deq_SomeD [OF Cons.prems(1) q1(1)] show ?thesis by simp
  qed
qed

end

end
