(* ===== verification/Queue.thy ===== *)
theory Queue
  imports Fifo
begin

section \<open>The ring-buffer queue of libs/queue.c\<close>

text \<open>
  The bodies of \<open>queue_create\<close>, \<open>empty\<close>, \<open>push\<close> and \<open>pop\<close>, as one thread executes them while
  it holds the queue's mutex. A slot of \<open>array\<close> is \<open>None\<close> when it holds the NULL pointer. A
  whole call that finds nothing to wait for is \<open>queue_push\<close> / \<open>queue_pop\<close>; \<open>None\<close> is the call
  that would block in \<open>lock_wait\<close>. Waiting, signals and \<open>queue_destroy\<close> are in
  \<open>QueueThreads.thy\<close>.

  The queue has no element counter: \<open>head = tail\<close> is the empty and the full queue, told apart
  by the NULL-ness of the slot. So the ring invariant \<open>ring_inv\<close> (the slots from \<open>head\<close> on are
  the contents, the rest is NULL) is about queues of non-NULL pointers.
\<close>

record 'a queue_t =
  alive :: bool
  head :: nat
  tail :: nat
  qsize :: nat
  pending :: nat
  array :: "'a option list"

definition queue_create :: "nat \<Rightarrow> 'a queue_t" where
  "queue_create n = \<lparr>alive = True, head = 0, tail = 0, qsize = n, pending = 0,
     array = replicate n None\<rparr>"

definition queue_empty :: "'a queue_t \<Rightarrow> bool" where
  "queue_empty q \<longleftrightarrow> head q = tail q"

definition pop_blocked :: "'a queue_t \<Rightarrow> bool" where
  "pop_blocked q \<longleftrightarrow> head q = tail q \<and> array q ! head q = None"

definition push_blocked :: "'a queue_t \<Rightarrow> bool" where
  "push_blocked q \<longleftrightarrow> tail q = head q \<and> array q ! tail q \<noteq> None"

definition ring_next :: "'a queue_t \<Rightarrow> nat \<Rightarrow> nat" where
  "ring_next q i = (if Suc i \<ge> qsize q then 0 else Suc i)"

definition pop_take :: "'a queue_t \<Rightarrow> 'a option \<times> 'a queue_t" where
  "pop_take q = (array q ! head q,
     q\<lparr>array := (array q)[head q := None], head := ring_next q (head q)\<rparr>)"

definition push_put :: "'a queue_t \<Rightarrow> 'a option \<Rightarrow> 'a queue_t" where
  "push_put q d = q\<lparr>array := (array q)[tail q := d], tail := ring_next q (tail q)\<rparr>"

definition queue_push :: "'a queue_t \<Rightarrow> 'a option \<Rightarrow> 'a queue_t option" where
  "queue_push q d =
     (if \<not> alive q then Some q else if push_blocked q then None else Some (push_put q d))"

definition queue_pop :: "'a queue_t \<Rightarrow> ('a option \<times> 'a queue_t) option" where
  "queue_pop q =
     (if \<not> alive q then Some (None, q) else if pop_blocked q then None else Some (pop_take q))"

subsection \<open>The abstraction to a list\<close>

text \<open>The slots in ring order from \<open>head\<close>, and the contents: the non-NULL slots at its front.\<close>

definition ring_slots :: "'a queue_t \<Rightarrow> 'a option list" where
  "ring_slots q = rotate (head q) (array q)"

definition contents :: "'a queue_t \<Rightarrow> 'a list" where
  "contents q = map the (takeWhile (\<lambda>x. x \<noteq> None) (ring_slots q))"

definition ring_inv :: "'a queue_t \<Rightarrow> bool" where
  "ring_inv q \<longleftrightarrow> 0 < qsize q \<and> length (array q) = qsize q \<and> head q < qsize q \<and>
     ring_slots q = map Some (contents q) @ replicate (qsize q - length (contents q)) None \<and>
     tail q = (head q + length (contents q)) mod qsize q"

lemma contents_le_qsize: "ring_inv q \<Longrightarrow> length (contents q) \<le> qsize q"
proof -
  assume "ring_inv q"
  then have "length (map Some (contents q) @ replicate (qsize q - length (contents q)) None) =
      qsize q"
    unfolding ring_inv_def by (metis length_rotate ring_slots_def)
  then show ?thesis by simp
qed

lemma contents_eqI:
  "ring_slots q = map Some xs @ replicate n None \<Longrightarrow> contents q = xs"
  by (simp add: contents_def takeWhile_append takeWhile_replicate comp_def)

lemma ring_invI:
  assumes "0 < qsize q" "length (array q) = qsize q" "head q < qsize q"
    "ring_slots q = map Some xs @ replicate (qsize q - length xs) None"
    "tail q = (head q + length xs) mod qsize q"
  shows "ring_inv q \<and> contents q = xs"
  using assms contents_eqI [OF assms(4)] by (simp add: ring_inv_def)

lemma ring_slots_tl:
  assumes "ring_inv q" "n < qsize q"
  shows "ring_slots q ! n = array q ! ((head q + n) mod qsize q)"
proof -
  have "length (array q) = qsize q" using assms(1) by (simp add: ring_inv_def)
  with assms(2) show ?thesis by (simp add: ring_slots_def nth_rotate)
qed

lemma ring_next_mod: "0 < qsize q \<Longrightarrow> i < qsize q \<Longrightarrow> ring_next q i = Suc i mod qsize q"
  by (cases "Suc i = qsize q") (auto simp: ring_next_def)

text \<open>The head slot is NULL exactly when there are no contents.\<close>

lemma array_head:
  assumes "ring_inv q"
  shows "array q ! head q = (case contents q of [] \<Rightarrow> None | x # _ \<Rightarrow> Some x)"
proof -
  have "array q ! head q = ring_slots q ! 0"
    using assms ring_slots_tl [OF assms, of 0] by (auto simp: ring_inv_def)
  also have "\<dots> = (map Some (contents q) @ replicate (qsize q - length (contents q)) None) ! 0"
    using assms by (simp add: ring_inv_def)
  finally show ?thesis using assms by (auto simp: ring_inv_def split: list.splits)
qed

lemma head_eq_tail:
  assumes "ring_inv q"
  shows "head q = tail q \<longleftrightarrow> contents q = [] \<or> length (contents q) = qsize q"
proof -
  let ?n = "length (contents q)"
  have le: "?n \<le> qsize q" by (rule contents_le_qsize [OF assms])
  have h: "0 < qsize q" "head q < qsize q" "tail q = (head q + ?n) mod qsize q"
    using assms by (auto simp: ring_inv_def)
  show ?thesis
  proof (cases "?n = qsize q")
    case True
    with h show ?thesis by simp
  next
    case False
    with le have "?n < qsize q" by simp
    then have "head q = tail q \<longleftrightarrow> ?n = 0"
      using mod_add_inj [of ?n "qsize q" 0 "head q"] h by auto
    with False show ?thesis by simp
  qed
qed

lemma pop_blocked_iff: "ring_inv q \<Longrightarrow> pop_blocked q \<longleftrightarrow> contents q = []"
  using head_eq_tail [of q] array_head [of q]
  by (auto simp: pop_blocked_def split: list.splits)

lemma push_blocked_iff: "ring_inv q \<Longrightarrow> push_blocked q \<longleftrightarrow> length (contents q) = qsize q"
proof -
  assume inv: "ring_inv q"
  then have "0 < qsize q" by (simp add: ring_inv_def)
  with head_eq_tail [OF inv] array_head [OF inv] show ?thesis
    by (auto simp: push_blocked_def split: list.splits)
qed

subsection \<open>The operations on the contents\<close>

lemma ring_inv_create:
  "0 < n \<Longrightarrow> ring_inv (queue_create n :: 'a queue_t) \<and> contents (queue_create n :: 'a queue_t) = []"
  by (rule ring_invI) (simp_all add: queue_create_def ring_slots_def)

lemma ring_slots_update:
  assumes "ring_inv q" "n < qsize q"
  shows "rotate (head q) ((array q)[(head q + n) mod qsize q := v]) = (ring_slots q)[n := v]"
proof -
  have l: "length (array q) = qsize q" using assms(1) by (simp add: ring_inv_def)
  with rotate_list_update [of n "array q" "head q" v] assms(2) show ?thesis
    by (simp add: ring_slots_def)
qed

lemma push_put_spec:
  assumes inv: "ring_inv q" and room: "length (contents q) < qsize q"
  shows "ring_inv (push_put q (Some x)) \<and> contents (push_put q (Some x)) = contents q @ [x]"
proof (rule ring_invI)
  let ?n = "length (contents q)"
  have h: "0 < qsize q" "length (array q) = qsize q" "head q < qsize q"
    "tail q = (head q + ?n) mod qsize q"
    using inv by (auto simp: ring_inv_def)
  show "0 < qsize (push_put q (Some x))" "length (array (push_put q (Some x))) =
      qsize (push_put q (Some x))" "head (push_put q (Some x)) < qsize (push_put q (Some x))"
    using h by (simp_all add: push_put_def)
  have "ring_slots (push_put q (Some x)) = (ring_slots q)[?n := Some x]"
    using ring_slots_update [OF inv room] h by (simp add: push_put_def ring_slots_def)
  also have "\<dots> = (map Some (contents q) @ replicate (qsize q - ?n) None)[?n := Some x]"
    using inv by (simp add: ring_inv_def)
  also have "\<dots> = map Some (contents q @ [x]) @ replicate (qsize q - length (contents q @ [x])) None"
    using room by (cases "qsize q - ?n") (auto simp: list_update_append)
  finally show "ring_slots (push_put q (Some x)) = map Some (contents q @ [x]) @
      replicate (qsize (push_put q (Some x)) - length (contents q @ [x])) None"
    by (simp add: push_put_def)
  have "tail q < qsize q" using h by simp
  with ring_next_mod [OF h(1)] have "tail (push_put q (Some x)) = Suc (tail q) mod qsize q"
    by (simp add: push_put_def)
  also have "\<dots> = (head q + Suc ?n) mod qsize q" using h(4) by (simp add: mod_Suc_eq)
  finally show "tail (push_put q (Some x)) =
      (head (push_put q (Some x)) + length (contents q @ [x])) mod qsize (push_put q (Some x))"
    by (simp add: push_put_def)
qed

lemma pop_take_spec:
  assumes inv: "ring_inv q" and c: "contents q = x # xs"
  shows "fst (pop_take q) = Some x"
    and "ring_inv (snd (pop_take q)) \<and> contents (snd (pop_take q)) = xs"
proof -
  let ?q = "snd (pop_take q)"
  show "fst (pop_take q) = Some x" using array_head [OF inv] c by (simp add: pop_take_def)
  have h: "0 < qsize q" "length (array q) = qsize q" "head q < qsize q"
    "tail q = (head q + length (contents q)) mod qsize q" "length xs < qsize q"
    using inv contents_le_qsize [OF inv] c by (auto simp: ring_inv_def)
  show "ring_inv ?q \<and> contents ?q = xs"
  proof (rule ring_invI)
    show "0 < qsize ?q" "length (array ?q) = qsize ?q" "head ?q < qsize ?q"
      using h by (simp_all add: pop_take_def ring_next_def)
    have arr: "array ?q = (array q)[(head q + 0) mod qsize q := None]"
      using h by (simp add: pop_take_def)
    have hd: "head ?q = Suc (head q) mod qsize q"
      using ring_next_mod [OF h(1,3)] by (simp add: pop_take_def)
    then have "ring_slots ?q = rotate (Suc (head q) mod length (array ?q)) (array ?q)"
      using h(2) by (simp add: ring_slots_def pop_take_def)
    also have "\<dots> = rotate1 (rotate (head q) (array ?q))" by (simp add: rotate_mod_length)
    also have "\<dots> = rotate1 ((ring_slots q)[0 := None])"
      unfolding arr using ring_slots_update [OF inv h(1)] by simp
    also have "(ring_slots q)[0 := None] = None # map Some xs @
        replicate (qsize q - Suc (length xs)) None"
      using inv c by (simp add: ring_inv_def)
    also have "rotate1 \<dots> = map Some xs @ replicate (qsize q - length xs) None"
      using h(5) by (simp add: replicate_append_same Suc_diff_Suc
          flip: replicate_Suc)
    finally show "ring_slots ?q = map Some xs @ replicate (qsize ?q - length xs) None"
      by (simp add: pop_take_def)
    from hd have "(head ?q + length xs) mod qsize q = (head q + length (contents q)) mod qsize q"
      using c by (simp add: mod_add_left_eq)
    then show "tail ?q = (head ?q + length xs) mod qsize ?q"
      using h(4) by (simp add: pop_take_def)
  qed
qed

lemma put_take_frame [simp]:
  "alive (push_put q d) = alive q" "qsize (push_put q d) = qsize q"
  "pending (push_put q d) = pending q" "alive (snd (pop_take q)) = alive q"
  "qsize (snd (pop_take q)) = qsize q" "pending (snd (pop_take q)) = pending q"
  by (simp_all add: push_put_def pop_take_def)

lemma ring_inv_pend [simp]:
  "ring_inv (q\<lparr>pending := k\<rparr>) = ring_inv q" "contents (q\<lparr>pending := k\<rparr>) = contents q"
  "ring_inv (q\<lparr>alive := b\<rparr>) = ring_inv q" "contents (q\<lparr>alive := b\<rparr>) = contents q"
  by (simp_all add: ring_inv_def contents_def ring_slots_def)

subsection \<open>The code's queue implements the bounded queue contract\<close>

definition queue_ok :: "'a queue_t \<Rightarrow> bool" where
  "queue_ok q \<longleftrightarrow> alive q \<and> ring_inv q"

lemma queue_create_ok [simp]:
  "0 < n \<Longrightarrow> queue_ok (queue_create n :: 'a queue_t)"
  "0 < n \<Longrightarrow> contents (queue_create n :: 'a queue_t) = []"
  "qsize (queue_create n :: 'a queue_t) = n"
  using ring_inv_create [of n, where 'a = 'a] by (simp_all add: queue_ok_def queue_create_def)

text \<open>A push of a non-NULL pointer, and a pop whose NULL result is not taken for an element.\<close>

definition queue_enq :: "'a queue_t \<Rightarrow> 'a \<Rightarrow> 'a queue_t option" where
  "queue_enq q x = queue_push q (Some x)"

definition queue_deq :: "'a queue_t \<Rightarrow> ('a \<times> 'a queue_t) option" where
  "queue_deq q = (case queue_pop q of Some (Some x, q') \<Rightarrow> Some (x, q') | _ \<Rightarrow> None)"

interpretation ring: bounded_fifo queue_ok contents qsize queue_enq queue_deq
proof unfold_locales
  fix q :: "'a queue_t" and x
  assume "queue_ok q" "length (contents q) < qsize q"
  then show "\<exists>q'. queue_enq q x = Some q' \<and> queue_ok q' \<and> contents q' = contents q @ [x] \<and>
      qsize q' = qsize q"
    using push_put_spec [of q x] push_blocked_iff [of q]
    by (auto simp: queue_enq_def queue_push_def queue_ok_def)
next
  fix q :: "'a queue_t" and x
  assume "queue_ok q" "length (contents q) = qsize q"
  then show "queue_enq q x = None"
    using push_blocked_iff [of q] by (simp add: queue_enq_def queue_push_def queue_ok_def)
next
  fix q :: "'a queue_t" and x xs
  assume "queue_ok q" "contents q = x # xs"
  then show "\<exists>q'. queue_deq q = Some (x, q') \<and> queue_ok q' \<and> contents q' = xs \<and>
      qsize q' = qsize q"
    using pop_take_spec [of q x xs] pop_blocked_iff [of q] put_take_frame(4,5) [of q]
    by (cases "pop_take q") (simp add: queue_deq_def queue_pop_def queue_ok_def)
next
  fix q :: "'a queue_t"
  assume "queue_ok q" "contents q = []"
  then show "queue_deq q = None"
    using pop_blocked_iff [of q] by (simp add: queue_deq_def queue_pop_def queue_ok_def)
next
  fix q :: "'a queue_t"
  assume "queue_ok q"
  then show "length (contents q) \<le> qsize q" by (simp add: queue_ok_def contents_le_qsize)
qed

subsection \<open>Properties\<close>

text \<open>Property C3. Whatever script of pushes and pops runs on a fresh queue of \<open>n\<close> slots, the
  ring buffer gives the results of a first-in first-out list bounded by \<open>n\<close>: the same values in
  the same order, the same contents, and a blocked call (\<open>None\<close>) exactly where the list is full
  or empty.\<close>

theorem queue_refines_list:
  assumes "0 < n"
  shows "map_option (\<lambda>(out, q). (out, contents q)) (run_queue queue_enq queue_deq (queue_create n) ops) =
    run_list n [] ops"
  using assms ring.run_refines [of "queue_create n" ops] by simp

theorem queue_refines_list_witness:
  "map_option (\<lambda>(out, q). (out, contents q))
     (run_queue queue_enq queue_deq (queue_create 2) [Enq 5, Enq 6, Deq, Enq 7, Deq, Deq]) =
   Some ([5, 6, 7 :: nat], [])"
  by (subst queue_refines_list) simp_all

text \<open>Every index the queue uses stays inside its array: after any script of
  operations \<open>head\<close> and \<open>tail\<close> are valid indices of an array of \<open>n\<close> slots.\<close>

theorem queue_indices_in_bounds:
  assumes "0 < n" "run_queue queue_enq queue_deq (queue_create n) ops = Some (out, q)"
  shows "head q < n \<and> tail q < n \<and> length (array q) = n"
  using ring.run_invar [OF queue_create_ok(1) [OF assms(1)] assms(2)]
  by (auto simp: queue_ok_def ring_inv_def)

theorem queue_indices_in_bounds_witness:
  "\<exists>out q. run_queue queue_enq queue_deq (queue_create 2) [Enq (5::nat), Enq 6] = Some (out, q) \<and>
     head q < 2 \<and> tail q < 2"
proof -
  have "map_option (\<lambda>(out, q). (out, contents q))
      (run_queue queue_enq queue_deq (queue_create 2) [Enq (5::nat), Enq 6]) = Some ([], [5, 6])"
    using ring.run_refines [of "queue_create 2" "[Enq (5::nat), Enq 6]"] by simp
  then obtain out q where
    r: "run_queue queue_enq queue_deq (queue_create 2) [Enq (5::nat), Enq 6] = Some (out, q)" by auto
  with queue_indices_in_bounds [OF _ r] show ?thesis by auto
qed

text \<open>\<open>empty\<close> does not mean empty: it holds for a queue with no element and also for
  a full one, so a caller that drains \<open>while(!empty(q))\<close> leaves a full queue untouched.\<close>

theorem queue_empty_or_full:
  assumes "queue_ok q"
  shows "queue_empty q \<longleftrightarrow> contents q = [] \<or> length (contents q) = qsize q"
  using assms head_eq_tail [of q] by (simp add: queue_ok_def queue_empty_def)

theorem queue_empty_or_full_witness:
  "\<exists>q. enq_all queue_enq (queue_create 2) [5, 6 :: nat] = Some q \<and> contents q = [5, 6] \<and> queue_empty q"
proof -
  obtain q where
    q: "enq_all queue_enq (queue_create 2) [5, 6 :: nat] = Some q" "queue_ok q" "contents q = [5, 6]"
      "qsize q = 2"
    using ring.enq_all_room [of "queue_create 2" "[5, 6 :: nat]"] by auto
  with queue_empty_or_full [OF q(2)] show ?thesis by auto
qed

end
