(* ===== verification/QueueThreads.thy ===== *)
theory QueueThreads
  imports Queue
begin

section \<open>Threads on one queue: waiting, signals and destruction (libs/queue.c, libs/lock.h)\<close>

text \<open>
  Every thread is at one place (\<open>pc\<close>) of \<open>push\<close>, \<open>pop\<close> or \<open>queue_destroy\<close>; a step is one thread
  running to its next mutex or condition-variable operation. The mutex is its owner; a thread
  in \<open>lock_wait\<close> has released it and is in the wait set of its signal (\<open>PushWait\<close> waits for
  \<open>pop_signal\<close>, \<open>PopWait\<close> for \<open>push_signal\<close>), which it leaves when signalled or spuriously, as
  POSIX allows. Callers push non-NULL pointers. \<open>sent\<close> and \<open>got\<close> are ghost logs of the
  values written to and taken from the ring, in the order it happened.
\<close>

datatype 'a pc =
    Idle
  | PushEntry 'a
  | PushTest 'a
  | PushWait 'a
  | PushWoken 'a
  | PushUnlock
  | PushSignal
  | PopEntry
  | PopTest
  | PopWait
  | PopWoken
  | PopUnlock 'a
  | PopSignal 'a
  | Abort
  | Destroying
  | DestroySecond

record 'a qsys =
  rq :: "'a queue_t"
  owner :: "nat option"
  pcs :: "nat \<Rightarrow> 'a pc"
  freed :: bool
  sent :: "'a list"
  got :: "'a list"

definition goto :: "'a qsys \<Rightarrow> nat \<Rightarrow> 'a pc \<Rightarrow> 'a qsys" where
  "goto s t p = s\<lparr>pcs := (pcs s)(t := p)\<rparr>"

definition pend_inc :: "'a queue_t \<Rightarrow> 'a queue_t" where
  "pend_inc q = q\<lparr>pending := pending q + 1\<rparr>"

definition pend_dec :: "'a queue_t \<Rightarrow> 'a queue_t" where
  "pend_dec q = q\<lparr>pending := pending q - 1\<rparr>"

fun wake_pushers :: "'a pc \<Rightarrow> 'a pc" where
  "wake_pushers (PushWait x) = PushWoken x"
| "wake_pushers p = p"

fun wake_poppers :: "'a pc \<Rightarrow> 'a pc" where
  "wake_poppers PopWait = PopWoken"
| "wake_poppers p = p"

definition qsys_init :: "nat \<Rightarrow> 'a qsys" where
  "qsys_init n = \<lparr>rq = queue_create n, owner = None, pcs = (\<lambda>_. Idle), freed = False,
     sent = [], got = []\<rparr>"

inductive push_step :: "nat \<Rightarrow> 'a qsys \<Rightarrow> 'a qsys \<Rightarrow> bool" for t where
  push_dead: "pcs s t = Idle \<Longrightarrow> \<not> alive (rq s) \<Longrightarrow> push_step t s s"
| push_call: "pcs s t = Idle \<Longrightarrow> alive (rq s) \<Longrightarrow> push_step t s (goto s t (PushEntry x))"
| push_lock: "pcs s t = PushEntry x \<Longrightarrow> owner s = None \<Longrightarrow>
    push_step t s (goto (s\<lparr>owner := Some t, rq := pend_inc (rq s)\<rparr>) t (PushTest x))"
| push_wait: "pcs s t = PushTest x \<Longrightarrow> push_blocked (rq s) \<Longrightarrow>
    push_step t s (goto (s\<lparr>owner := None\<rparr>) t (PushWait x))"
| push_do: "pcs s t = PushTest x \<Longrightarrow> \<not> push_blocked (rq s) \<Longrightarrow>
    push_step t s (goto (s\<lparr>rq := pend_dec (push_put (rq s) (Some x)), sent := sent s @ [x]\<rparr>)
      t PushUnlock)"
| push_unlock: "pcs s t = PushUnlock \<Longrightarrow>
    push_step t s (goto (s\<lparr>owner := None\<rparr>) t PushSignal)"
| push_signal_none: "pcs s t = PushSignal \<Longrightarrow> \<forall>u. pcs s u \<noteq> PopWait \<Longrightarrow>
    push_step t s (goto s t Idle)"
| push_signal_one: "pcs s t = PushSignal \<Longrightarrow> pcs s u = PopWait \<Longrightarrow>
    push_step t s (goto (goto s u PopWoken) t Idle)"
| push_spurious: "pcs s t = PushWait x \<Longrightarrow> push_step t s (goto s t (PushWoken x))"
| push_relock: "pcs s t = PushWoken x \<Longrightarrow> owner s = None \<Longrightarrow> alive (rq s) \<Longrightarrow>
    push_step t s (goto (s\<lparr>owner := Some t\<rparr>) t (PushTest x))"
| push_abort: "pcs s t = PushWoken x \<Longrightarrow> owner s = None \<Longrightarrow> \<not> alive (rq s) \<Longrightarrow>
    push_step t s (goto (s\<lparr>owner := Some t, rq := pend_dec (rq s)\<rparr>) t Abort)"

inductive pop_step :: "nat \<Rightarrow> 'a qsys \<Rightarrow> 'a qsys \<Rightarrow> bool" for t where
  pop_dead: "pcs s t = Idle \<Longrightarrow> \<not> alive (rq s) \<Longrightarrow> pop_step t s s"
| pop_call: "pcs s t = Idle \<Longrightarrow> alive (rq s) \<Longrightarrow> pop_step t s (goto s t PopEntry)"
| pop_lock: "pcs s t = PopEntry \<Longrightarrow> owner s = None \<Longrightarrow>
    pop_step t s (goto (s\<lparr>owner := Some t, rq := pend_inc (rq s)\<rparr>) t PopTest)"
| pop_wait: "pcs s t = PopTest \<Longrightarrow> pop_blocked (rq s) \<Longrightarrow>
    pop_step t s (goto (s\<lparr>owner := None\<rparr>) t PopWait)"
| pop_do: "pcs s t = PopTest \<Longrightarrow> \<not> pop_blocked (rq s) \<Longrightarrow> fst (pop_take (rq s)) = Some x \<Longrightarrow>
    pop_step t s (goto (s\<lparr>rq := pend_dec (snd (pop_take (rq s))), got := got s @ [x]\<rparr>)
      t (PopUnlock x))"
| pop_unlock: "pcs s t = PopUnlock x \<Longrightarrow>
    pop_step t s (goto (s\<lparr>owner := None\<rparr>) t (PopSignal x))"
| pop_signal_none: "pcs s t = PopSignal x \<Longrightarrow> \<forall>u y. pcs s u \<noteq> PushWait y \<Longrightarrow>
    pop_step t s (goto s t Idle)"
| pop_signal_one: "pcs s t = PopSignal x \<Longrightarrow> pcs s u = PushWait y \<Longrightarrow>
    pop_step t s (goto (goto s u (PushWoken y)) t Idle)"
| pop_spurious: "pcs s t = PopWait \<Longrightarrow> pop_step t s (goto s t PopWoken)"
| pop_relock: "pcs s t = PopWoken \<Longrightarrow> owner s = None \<Longrightarrow> alive (rq s) \<Longrightarrow>
    pop_step t s (goto (s\<lparr>owner := Some t\<rparr>) t PopTest)"
| pop_abort: "pcs s t = PopWoken \<Longrightarrow> owner s = None \<Longrightarrow> \<not> alive (rq s) \<Longrightarrow>
    pop_step t s (goto (s\<lparr>owner := Some t, rq := pend_dec (rq s)\<rparr>) t Abort)"

inductive destroy_step :: "nat \<Rightarrow> 'a qsys \<Rightarrow> 'a qsys \<Rightarrow> bool" for t where
  destroy_call: "pcs s t = Idle \<Longrightarrow> alive (rq s) \<Longrightarrow>
    destroy_step t s (goto (s\<lparr>rq := (rq s)\<lparr>alive := False\<rparr>\<rparr>) t Destroying)"
| destroy_bcast_pop: "pcs s t = Destroying \<Longrightarrow> pending (rq s) > 0 \<Longrightarrow>
    destroy_step t s (goto (s\<lparr>pcs := wake_pushers \<circ> pcs s\<rparr>) t DestroySecond)"
| destroy_bcast_push: "pcs s t = DestroySecond \<Longrightarrow>
    destroy_step t s (goto (s\<lparr>pcs := wake_poppers \<circ> pcs s\<rparr>) t Destroying)"
| destroy_free: "pcs s t = Destroying \<Longrightarrow> pending (rq s) = 0 \<Longrightarrow>
    destroy_step t s (goto (s\<lparr>freed := True\<rparr>) t Idle)"
| abort_unlock: "pcs s t = Abort \<Longrightarrow> destroy_step t s (goto (s\<lparr>owner := None\<rparr>) t Idle)"

text \<open>The runs of the program up to the free: after it, a step of a thread still inside the
  queue would be a use of freed memory, so no step starts from a freed queue.\<close>

inductive reachable :: "nat \<Rightarrow> 'a qsys \<Rightarrow> bool" for n where
  start: "reachable n (qsys_init n)"
| by_push: "reachable n s \<Longrightarrow> \<not> freed s \<Longrightarrow> push_step t s s' \<Longrightarrow> reachable n s'"
| by_pop: "reachable n s \<Longrightarrow> \<not> freed s \<Longrightarrow> pop_step t s s' \<Longrightarrow> reachable n s'"
| by_destroy: "reachable n s \<Longrightarrow> \<not> freed s \<Longrightarrow> destroy_step t s s' \<Longrightarrow> reachable n s'"

subsection \<open>Classes of program counters\<close>

text \<open>
  \<open>holds\<close>: owns the mutex. \<open>counted\<close>: between \<open>pending += 1\<close> and \<open>pending -= 1\<close>.
  \<open>push_sig\<close>: has filled a slot and not yet signalled; \<open>push_act\<close>: will test for a free slot
  without being signalled again; \<open>pop_sig\<close> and \<open>pop_act\<close> are the duals.
\<close>

fun holds :: "'a pc \<Rightarrow> bool" where
  "holds (PushTest x) = True"
| "holds PushUnlock = True"
| "holds PopTest = True"
| "holds (PopUnlock x) = True"
| "holds Abort = True"
| "holds p = False"

fun counted :: "'a pc \<Rightarrow> bool" where
  "counted (PushTest x) = True"
| "counted (PushWait x) = True"
| "counted (PushWoken x) = True"
| "counted PopTest = True"
| "counted PopWait = True"
| "counted PopWoken = True"
| "counted p = False"

fun push_sig :: "'a pc \<Rightarrow> bool" where
  "push_sig PushUnlock = True"
| "push_sig PushSignal = True"
| "push_sig p = False"

fun pop_sig :: "'a pc \<Rightarrow> bool" where
  "pop_sig (PopUnlock x) = True"
| "pop_sig (PopSignal x) = True"
| "pop_sig p = False"

fun push_act :: "'a pc \<Rightarrow> bool" where
  "push_act (PushTest x) = True"
| "push_act (PushWoken x) = True"
| "push_act p = False"

fun pop_act :: "'a pc \<Rightarrow> bool" where
  "pop_act PopTest = True"
| "pop_act PopWoken = True"
| "pop_act p = False"

lemma pcs_goto [simp]: "pcs (goto s t p) = (pcs s)(t := p)"
  and goto_frame [simp]: "rq (goto s t p) = rq s" "owner (goto s t p) = owner s"
    "freed (goto s t p) = freed s" "sent (goto s t p) = sent s" "got (goto s t p) = got s"
  by (simp_all add: goto_def)

lemma wake_class [simp]:
  "holds (wake_pushers p) = holds p" "holds (wake_poppers p) = holds p"
  "counted (wake_pushers p) = counted p" "counted (wake_poppers p) = counted p"
  "wake_pushers p = Idle \<longleftrightarrow> p = Idle" "wake_poppers p = Idle \<longleftrightarrow> p = Idle"
  by (cases p; simp)+

lemma pend_frame [simp]:
  "alive (pend_inc q) = alive q" "alive (pend_dec q) = alive q"
  "qsize (pend_inc q) = qsize q" "qsize (pend_dec q) = qsize q"
  "ring_inv (pend_inc q) = ring_inv q" "ring_inv (pend_dec q) = ring_inv q"
  "contents (pend_inc q) = contents q" "contents (pend_dec q) = contents q"
  "pending (pend_inc q) = pending q + 1" "pending (pend_dec q) = pending q - 1"
  by (simp_all add: pend_inc_def pend_dec_def)

subsection \<open>The invariant\<close>

definition threads_ok :: "(nat \<Rightarrow> 'a pc) \<Rightarrow> nat option \<Rightarrow> nat \<Rightarrow> bool" where
  "threads_ok f own pend \<longleftrightarrow> finite {t. f t \<noteq> Idle} \<and>
     (\<forall>t. holds (f t) \<longleftrightarrow> own = Some t) \<and> pend = cnt counted f"

definition threads_inv :: "'a qsys \<Rightarrow> bool" where
  "threads_inv s \<longleftrightarrow> threads_ok (pcs s) (owner s) (pending (rq s))"

definition data_inv :: "nat \<Rightarrow> 'a qsys \<Rightarrow> bool" where
  "data_inv n s \<longleftrightarrow> ring_inv (rq s) \<and> qsize (rq s) = n \<and> sent s = got s @ contents (rq s)"

definition wakeup_inv :: "'a qsys \<Rightarrow> bool" where
  "wakeup_inv s \<longleftrightarrow> (alive (rq s) \<longrightarrow>
     ((\<exists>t. pcs s t = PopWait) \<longrightarrow>
        length (contents (rq s)) \<le> cnt push_sig (pcs s) + cnt pop_act (pcs s)) \<and>
     ((\<exists>t x. pcs s t = PushWait x) \<longrightarrow>
        qsize (rq s) \<le> length (contents (rq s)) + cnt pop_sig (pcs s) + cnt push_act (pcs s)))"

text \<open>How one thread's move changes each count.\<close>

lemma cnt_goto:
  assumes "finite {t. f t \<noteq> Idle}"
  shows "cnt counted (f(t := p)) + of_bool (counted (f t)) = cnt counted f + of_bool (counted p)"
    and "cnt push_sig (f(t := p)) + of_bool (push_sig (f t)) = cnt push_sig f + of_bool (push_sig p)"
    and "cnt pop_sig (f(t := p)) + of_bool (pop_sig (f t)) = cnt pop_sig f + of_bool (pop_sig p)"
    and "cnt push_act (f(t := p)) + of_bool (push_act (f t)) = cnt push_act f + of_bool (push_act p)"
    and "cnt pop_act (f(t := p)) + of_bool (pop_act (f t)) = cnt pop_act f + of_bool (pop_act p)"
  by (rule cnt_upd [OF assms], simp)+

text \<open>One move of one thread keeps the mutex and the pending count right.\<close>

lemma threads_move:
  assumes ok: "threads_ok f own pend"
    and own: "own' = (if holds p then Some t else if holds (f t) then None else own)"
    and mutex: "holds p \<Longrightarrow> holds (f t) \<or> own = None"
    and pend: "pend' + of_bool (counted (f t)) = pend + of_bool (counted p)"
  shows "threads_ok (f(t := p)) own' pend'"
proof -
  have fin: "finite {t. f t \<noteq> Idle}" and h: "\<And>t. holds (f t) \<longleftrightarrow> own = Some t"
    and c: "pend = cnt counted f"
    using ok by (auto simp: threads_ok_def)
  have "holds ((f(t := p)) u) \<longleftrightarrow> own' = Some u" for u
    using own mutex h [of u] h [of t] by (cases "u = t") (auto split: if_splits)
  moreover have "pend' = cnt counted (f(t := p))"
    using cnt_goto(1) [OF fin, of t p] pend c by linarith
  ultimately show ?thesis using fin finite_upd [OF fin] by (simp add: threads_ok_def)
qed

lemma threads_wake:
  "threads_ok f own pend \<Longrightarrow> threads_ok (wake_pushers \<circ> f) own pend"
  "threads_ok f own pend \<Longrightarrow> threads_ok (wake_poppers \<circ> f) own pend"
  by (simp_all add: threads_ok_def cnt_def)

lemma counted_pending: "threads_ok f own pend \<Longrightarrow> counted (f t) \<Longrightarrow> 0 < pend"
  by (auto simp: threads_ok_def intro: cnt_pos)

lemma owner_of: "threads_ok f own pend \<Longrightarrow> holds (f t) \<Longrightarrow> own = Some t"
  by (simp add: threads_ok_def)

lemma push_step_threads:
  assumes "push_step t s s'" "threads_inv s"
  shows "threads_inv s'"
proof -
  have ok: "threads_ok (pcs s) (owner s) (pending (rq s))"
    using assms(2) by (simp add: threads_inv_def)
  note facts = counted_pending [OF ok, of t] owner_of [OF ok, of t]
  show ?thesis using assms(1)
  proof (cases rule: push_step.cases)
    case (push_signal_one u)
    then have "t \<noteq> u" by auto
    with push_signal_one ok show ?thesis by (auto simp: threads_inv_def intro!: threads_move)
  qed (use ok facts in \<open>auto simp: threads_inv_def intro!: threads_move\<close>)
qed

lemma pop_step_threads:
  assumes "pop_step t s s'" "threads_inv s"
  shows "threads_inv s'"
proof -
  have ok: "threads_ok (pcs s) (owner s) (pending (rq s))"
    using assms(2) by (simp add: threads_inv_def)
  note facts = counted_pending [OF ok, of t] owner_of [OF ok, of t]
  show ?thesis using assms(1)
  proof (cases rule: pop_step.cases)
    case (pop_signal_one x u y)
    then have "t \<noteq> u" by auto
    with pop_signal_one ok show ?thesis by (auto simp: threads_inv_def intro!: threads_move)
  qed (use ok facts in \<open>auto simp: threads_inv_def intro!: threads_move\<close>)
qed

lemma destroy_step_threads:
  assumes "destroy_step t s s'" "threads_inv s"
  shows "threads_inv s'"
  using assms
  by (cases rule: destroy_step.cases)
     (auto simp: threads_inv_def intro!: threads_move threads_wake)

text \<open>The data: the ring invariant, and what was sent is what was got and what is stored.\<close>

lemma push_step_data:
  assumes "push_step t s s'" "data_inv n s"
  shows "data_inv n s'"
  using assms
proof (cases rule: push_step.cases)
  case (push_do x)
  moreover have "length (contents (rq s)) < qsize (rq s)"
    using push_do assms(2) contents_le_qsize [of "rq s"]
    by (fastforce simp: data_inv_def push_blocked_iff)
  ultimately show ?thesis using assms(2) push_put_spec [of "rq s" x] by (simp add: data_inv_def)
qed (auto simp: data_inv_def)

lemma pop_step_data:
  assumes "pop_step t s s'" "data_inv n s"
  shows "data_inv n s'"
  using assms
proof (cases rule: pop_step.cases)
  case (pop_do x)
  have inv: "ring_inv (rq s)" using assms(2) by (simp add: data_inv_def)
  with pop_do obtain y ys where c: "contents (rq s) = y # ys"
    by (cases "contents (rq s)") (auto simp: pop_blocked_iff)
  show ?thesis using pop_do assms(2) pop_take_spec [OF inv c] c by (auto simp: data_inv_def)
qed (auto simp: data_inv_def)

lemma destroy_step_data: "destroy_step t s s' \<Longrightarrow> data_inv n s \<Longrightarrow> data_inv n s'"
  by (cases rule: destroy_step.cases) (auto simp: data_inv_def)

text \<open>No lost wakeup: every step keeps enough signals or active testers for the waiters.\<close>

lemma push_step_wakeup:
  assumes step: "push_step t s s'" and ok: "threads_inv s" "data_inv n s" and wk: "wakeup_inv s"
  shows "wakeup_inv s'"
proof -
  have fin: "finite {t. pcs s t \<noteq> Idle}" using ok by (simp add: threads_inv_def threads_ok_def)
  have inv: "ring_inv (rq s)" using ok(2) by (simp add: data_inv_def)
  note goto = cnt_goto [OF fin, of t]
  show ?thesis using step
  proof (cases rule: push_step.cases)
    case (push_call x)
    with wk goto [of "PushEntry x"] show ?thesis by (auto simp: wakeup_inv_def)
  next
    case (push_lock x)
    with wk goto [of "PushTest x"] show ?thesis by (auto simp: wakeup_inv_def)
  next
    case (push_wait x)
    with wk goto [of "PushWait x"] show ?thesis
      using push_blocked_iff [OF inv] by (auto simp: wakeup_inv_def)
  next
    case (push_do x)
    moreover have "length (contents (rq s)) < qsize (rq s)"
      using push_do contents_le_qsize [OF inv] push_blocked_iff [OF inv] by simp
    ultimately show ?thesis
      using wk goto [of PushUnlock] push_put_spec [OF inv, of x] by (auto simp: wakeup_inv_def)
  next
    case push_unlock
    with wk goto [of PushSignal] show ?thesis by (auto simp: wakeup_inv_def)
  next
    case push_signal_none
    with wk goto [of Idle] show ?thesis by (auto simp: wakeup_inv_def)
  next
    case (push_signal_one u)
    then have "t \<noteq> u" by auto
    have fin': "finite {v. ((pcs s)(u := PopWoken)) v \<noteq> Idle}" by (rule finite_upd [OF fin])
    from \<open>t \<noteq> u\<close> push_signal_one wk cnt_goto [OF fin, of u PopWoken]
      cnt_goto [where f = "(pcs s)(u := PopWoken)" and t = t and p = Idle, OF fin']
    show ?thesis by (auto simp: wakeup_inv_def)
  next
    case (push_spurious x)
    with wk goto [of "PushWoken x"] show ?thesis by (auto simp: wakeup_inv_def)
  next
    case (push_relock x)
    with wk goto [of "PushTest x"] show ?thesis by (auto simp: wakeup_inv_def)
  qed (use wk in \<open>auto simp: wakeup_inv_def\<close>)
qed

lemma pop_step_wakeup:
  assumes step: "pop_step t s s'" and ok: "threads_inv s" "data_inv n s" and wk: "wakeup_inv s"
  shows "wakeup_inv s'"
proof -
  have fin: "finite {t. pcs s t \<noteq> Idle}" using ok by (simp add: threads_inv_def threads_ok_def)
  have inv: "ring_inv (rq s)" using ok(2) by (simp add: data_inv_def)
  note goto = cnt_goto [OF fin, of t]
  show ?thesis using step
  proof (cases rule: pop_step.cases)
    case pop_call
    with wk goto [of PopEntry] show ?thesis by (auto simp: wakeup_inv_def)
  next
    case pop_lock
    with wk goto [of PopTest] show ?thesis by (auto simp: wakeup_inv_def)
  next
    case pop_wait
    with wk goto [of PopWait] show ?thesis
      using pop_blocked_iff [OF inv] by (auto simp: wakeup_inv_def)
  next
    case (pop_do x)
    then obtain y ys where c: "contents (rq s) = y # ys"
      using pop_blocked_iff [OF inv] by (cases "contents (rq s)") auto
    with pop_do wk goto [of "PopUnlock x"] pop_take_spec [OF inv c]
    show ?thesis by (auto simp: wakeup_inv_def)
  next
    case (pop_unlock x)
    with wk goto [of "PopSignal x"] show ?thesis by (auto simp: wakeup_inv_def)
  next
    case (pop_signal_none x)
    with wk goto [of Idle] show ?thesis by (auto simp: wakeup_inv_def)
  next
    case (pop_signal_one x u y)
    then have "t \<noteq> u" by auto
    have fin': "finite {v. ((pcs s)(u := PushWoken y)) v \<noteq> Idle}" by (rule finite_upd [OF fin])
    from \<open>t \<noteq> u\<close> pop_signal_one wk cnt_goto [OF fin, of u "PushWoken y"]
      cnt_goto [where f = "(pcs s)(u := PushWoken y)" and t = t and p = Idle, OF fin']
    show ?thesis by (auto simp: wakeup_inv_def)
  next
    case pop_spurious
    with wk goto [of PopWoken] show ?thesis by (auto simp: wakeup_inv_def)
  next
    case pop_relock
    with wk goto [of PopTest] show ?thesis by (auto simp: wakeup_inv_def)
  qed (use wk in \<open>auto simp: wakeup_inv_def\<close>)
qed

lemma pcs_not_alive:
  "reachable n s \<Longrightarrow> alive (rq s) \<Longrightarrow> \<not> freed s \<and> (\<forall>t. pcs s t \<notin> {Destroying, DestroySecond, Abort})"
proof (induction rule: reachable.induct)
  case start
  then show ?case by (simp add: qsys_init_def)
next
  case (by_push s t s')
  then show ?case by (auto elim!: push_step.cases split: if_splits)
next
  case (by_pop s t s')
  then show ?case by (auto elim!: pop_step.cases split: if_splits)
next
  case (by_destroy s t s')
  then show ?case by (auto elim!: destroy_step.cases split: if_splits)
qed

lemma destroy_step_wakeup:
  assumes "reachable n s" "destroy_step t s s'"
  shows "wakeup_inv s'"
proof -
  from assms(2) have "\<not> alive (rq s')"
    using pcs_not_alive [OF assms(1)] by (cases rule: destroy_step.cases) auto
  then show ?thesis by (simp add: wakeup_inv_def)
qed

lemma reachable_inv:
  "reachable n s \<Longrightarrow> 0 < n \<Longrightarrow> threads_inv s \<and> data_inv n s \<and> wakeup_inv s"
proof (induction rule: reachable.induct)
  case start
  then show ?case
    by (simp add: threads_inv_def threads_ok_def data_inv_def wakeup_inv_def qsys_init_def
        ring_inv_create cnt_zero) (simp add: queue_create_def)
next
  case (by_push s t s')
  then show ?case using push_step_threads push_step_data push_step_wakeup by blast
next
  case (by_pop s t s')
  then show ?case using pop_step_threads pop_step_data pop_step_wakeup by blast
next
  case (by_destroy s t s')
  then show ?case using destroy_step_threads destroy_step_data destroy_step_wakeup by blast
qed

lemma freed_pending: "reachable n s \<Longrightarrow> freed s \<Longrightarrow> pending (rq s) = 0"
proof (induction rule: reachable.induct)
  case start
  then show ?case by (simp add: qsys_init_def)
next
  case (by_push s t s')
  then show ?case by (auto elim!: push_step.cases)
next
  case (by_pop s t s')
  then show ?case by (auto elim!: pop_step.cases)
next
  case (by_destroy s t s')
  then show ?case by (auto elim!: destroy_step.cases)
qed

subsection \<open>What the queue promises its threads\<close>

definition resting :: "'a pc \<Rightarrow> bool" where
  "resting p \<longleftrightarrow> p = Idle \<or> p = PopWait \<or> (\<exists>x. p = PushWait x)"

lemma resting_counts:
  assumes "\<forall>t. resting (pcs s t)"
  shows "cnt push_sig (pcs s) = 0" "cnt pop_sig (pcs s) = 0" "cnt push_act (pcs s) = 0"
    "cnt pop_act (pcs s) = 0"
proof -
  have *: "\<not> push_sig (pcs s t) \<and> \<not> pop_sig (pcs s t) \<and> \<not> push_act (pcs s t) \<and> \<not> pop_act (pcs s t)" for t
    using assms [rule_format, of t] by (auto simp: resting_def)
  then show "cnt push_sig (pcs s) = 0" "cnt pop_sig (pcs s) = 0" "cnt push_act (pcs s) = 0"
    "cnt pop_act (pcs s) = 0" by (auto intro: cnt_zero)
qed

text \<open>Property C1. In every run of any number of threads on one queue, the values taken out are
  a prefix of the values put in, in the same order; the rest is in the ring, at most \<open>n\<close> of them;
  and at most one thread is inside the critical section.\<close>

theorem queue_threads_fifo:
  assumes "reachable n s" and "0 < n"
  shows "sent s = got s @ contents (rq s) \<and> length (contents (rq s)) \<le> n \<and>
    (\<forall>t u. holds (pcs s t) \<and> holds (pcs s u) \<longrightarrow> t = u)"
  using reachable_inv [OF assms] contents_le_qsize [of "rq s"]
  by (auto simp: data_inv_def threads_inv_def threads_ok_def)

text \<open>Property C2. No wakeup is lost: when no thread is running (each is outside the queue or
  asleep in it) and the queue is alive, a sleeping consumer means the queue is empty and a
  sleeping producer means it is full, so consumers and producers never all sleep together.\<close>

theorem queue_no_lost_wakeup:
  assumes "reachable n s" and "0 < n" and "alive (rq s)" and "\<forall>t. resting (pcs s t)"
  shows "((\<exists>t. pcs s t = PopWait) \<longrightarrow> contents (rq s) = []) \<and>
    ((\<exists>t x. pcs s t = PushWait x) \<longrightarrow> length (contents (rq s)) = n) \<and>
    \<not> ((\<exists>t. pcs s t = PopWait) \<and> (\<exists>t x. pcs s t = PushWait x))"
proof -
  have inv: "data_inv n s" "wakeup_inv s" using reachable_inv [OF assms(1,2)] by auto
  have *: "(\<exists>t. pcs s t = PopWait) \<longrightarrow> contents (rq s) = []"
    "(\<exists>t x. pcs s t = PushWait x) \<longrightarrow> n \<le> length (contents (rq s))"
    using inv resting_counts [OF assms(4)] assms(3) by (auto simp: wakeup_inv_def data_inv_def)
  have "length (contents (rq s)) \<le> n" using inv(1) contents_le_qsize by (auto simp: data_inv_def)
  with * \<open>0 < n\<close> show ?thesis by fastforce
qed

text \<open>When \<open>queue_destroy\<close> frees the queue, no thread waits in it or is about to
  test it again: every thread that had registered itself in \<open>pending\<close> has left.\<close>

theorem destroy_waits_for_pending:
  assumes "reachable n s" and "0 < n" and "freed s"
  shows "\<forall>t. \<not> counted (pcs s t)"
  using reachable_inv [OF assms(1,2)] freed_pending [OF assms(1,3)] counted_pending
  by (fastforce simp: threads_inv_def)

subsection \<open>Runs that reach the interesting states\<close>

text \<open>Thread 0 pushes 7 into a queue of one slot and stands at the unlock.\<close>

lemma run_push:
  "\<exists>s :: nat qsys. reachable 1 s \<and> \<not> freed s \<and> pcs s = (\<lambda>_. Idle)(0 := PushUnlock) \<and>
     sent s = [7] \<and> pending (rq s) = 0 \<and> owner s = Some 0 \<and> alive (rq s)"
proof -
  let ?i = "qsys_init 1 :: nat qsys"
  let ?a = "goto ?i 0 (PushEntry 7)"
  let ?b = "goto (?a\<lparr>owner := Some 0, rq := pend_inc (rq ?a)\<rparr>) 0 (PushTest 7)"
  let ?c = "goto (?b\<lparr>rq := pend_dec (push_put (rq ?b) (Some 7)), sent := sent ?b @ [7]\<rparr>) 0 PushUnlock"
  have i: "alive (rq ?i)" "pcs ?i 0 = Idle" "\<not> freed ?i" "owner ?i = None" "sent ?i = []"
    "pending (rq ?i) = 0" "pcs ?i = (\<lambda>_. Idle)"
    by (simp_all add: qsys_init_def queue_create_def)
  have "reachable 1 ?a" by (rule reachable.by_push [OF reachable.start, of _ 0]) (use i in \<open>auto intro: push_call\<close>)
  moreover have "push_step 0 ?a ?b" by (rule push_lock) (use i in simp_all)
  ultimately have b: "reachable 1 ?b" by - (rule reachable.by_push [of _ _ 0], use i in simp_all)
  have "\<not> push_blocked (rq ?b)"
    by (simp add: push_blocked_def pend_inc_def qsys_init_def queue_create_def)
  then have bc: "push_step 0 ?b ?c" by - (rule push_do, simp_all)
  have "reachable 1 ?c" by (rule reachable.by_push [OF b _ bc]) (use i in simp)
  moreover have "alive (rq ?c)" "pending (rq ?c) = 0" "sent ?c = [7]" "\<not> freed ?c"
    "owner ?c = Some 0" "pcs ?c = (\<lambda>_. Idle)(0 := PushUnlock)"
    using i by simp_all
  ultimately show ?thesis by blast
qed

text \<open>Thread 0 calls \<open>pop\<close> on an empty queue and sleeps.\<close>

lemma run_sleep:
  "\<exists>s :: nat qsys. reachable 1 s \<and> alive (rq s) \<and> pcs s = (\<lambda>_. Idle)(0 := PopWait)"
proof -
  let ?i = "qsys_init 1 :: nat qsys"
  let ?a = "goto ?i 0 PopEntry"
  let ?b = "goto (?a\<lparr>owner := Some 0, rq := pend_inc (rq ?a)\<rparr>) 0 PopTest"
  let ?c = "goto (?b\<lparr>owner := None\<rparr>) 0 PopWait"
  have i: "alive (rq ?i)" "pcs ?i 0 = Idle" "\<not> freed ?i" "owner ?i = None" "pcs ?i = (\<lambda>_. Idle)"
    by (simp_all add: qsys_init_def queue_create_def)
  have "reachable 1 ?a" by (rule reachable.by_pop [OF reachable.start, of _ 0]) (use i in \<open>auto intro: pop_call\<close>)
  moreover have "pop_step 0 ?a ?b" by (rule pop_lock) (use i in simp_all)
  ultimately have b: "reachable 1 ?b" by - (rule reachable.by_pop [of _ _ 0], use i in simp_all)
  have "pop_blocked (rq ?b)"
    by (simp add: pop_blocked_def pend_inc_def qsys_init_def queue_create_def)
  then have bc: "pop_step 0 ?b ?c" by - (rule pop_wait, simp_all)
  have "reachable 1 ?c" by (rule reachable.by_pop [OF b _ bc]) (use i in simp)
  moreover have "alive (rq ?c)" "pcs ?c = (\<lambda>_. Idle)(0 := PopWait)" using i by simp_all
  ultimately show ?thesis by blast
qed

lemma destroy_now:
  assumes "reachable n s" "\<not> freed s" "pcs s t = Idle" "alive (rq s)" "pending (rq s) = 0"
  shows "\<exists>s'. reachable n s' \<and> freed s' \<and> pcs s' = pcs s \<and> owner s' = owner s"
proof -
  let ?a = "goto (s\<lparr>rq := (rq s)\<lparr>alive := False\<rparr>\<rparr>) t Destroying"
  let ?b = "goto (?a\<lparr>freed := True\<rparr>) t Idle"
  have "reachable n ?a" by (rule reachable.by_destroy [of _ _ t]) (use assms in \<open>auto intro: destroy_call\<close>)
  then have "reachable n ?b" by (rule reachable.by_destroy [of _ _ t]) (use assms in \<open>auto intro: destroy_free\<close>)
  moreover have "freed ?b" "pcs ?b = pcs s" "owner ?b = owner s" using assms by auto
  ultimately show ?thesis by blast
qed

theorem queue_threads_fifo_witness:
  "\<exists>s :: nat qsys. reachable 1 s \<and> [7] = got s @ contents (rq s) \<and> length (contents (rq s)) \<le> 1"
proof -
  obtain s :: "nat qsys" where s: "reachable 1 s" "sent s = [7]" using run_push by blast
  with queue_threads_fifo [OF s(1)] show ?thesis by auto
qed

theorem queue_no_lost_wakeup_witness:
  "\<exists>s :: nat qsys. reachable 1 s \<and> pcs s 0 = PopWait \<and> contents (rq s) = []"
proof -
  obtain s :: "nat qsys" where s: "reachable 1 s" "alive (rq s)" "pcs s = (\<lambda>_. Idle)(0 := PopWait)"
    using run_sleep by blast
  then have "\<forall>t. resting (pcs s t)" by (simp add: resting_def)
  with queue_no_lost_wakeup [OF s(1) _ s(2)] have
    "(\<exists>t. pcs s t = PopWait) \<longrightarrow> contents (rq s) = []" by simp
  moreover have "pcs s 0 = PopWait" using s(3) by simp
  ultimately show ?thesis using s(1) by blast
qed

theorem destroy_waits_for_pending_witness:
  "\<exists>s :: nat qsys. reachable 1 s \<and> freed s \<and> \<not> counted (pcs s 0)"
proof -
  obtain s :: "nat qsys" where "reachable 1 s" "freed s"
    using destroy_now [OF reachable.start, of 1 0] by (auto simp: qsys_init_def queue_create_def)
  with destroy_waits_for_pending [of 1 s] show ?thesis by auto
qed

text \<open>What \<open>queue_destroy\<close> does not wait for: a thread that has passed the unlocked
  \<open>alive\<close> test of \<open>push\<close> and not yet taken the mutex, and a thread that has finished its push
  and not yet released the mutex. In both runs the queue is freed (and its mutex destroyed)
  under the thread, whose next step uses freed memory.\<close>

theorem destroy_use_after_free:
  "(\<exists>s :: nat qsys. reachable 1 s \<and> freed s \<and> pcs s 0 = PushEntry 7) \<and>
   (\<exists>s :: nat qsys. reachable 1 s \<and> freed s \<and> pcs s 0 = PushUnlock \<and> owner s = Some 0)"
proof
  let ?i = "qsys_init 1 :: nat qsys"
  have "reachable 1 (goto ?i 0 (PushEntry 7))"
    by (rule reachable.by_push [OF reachable.start, of _ 0])
       (auto intro: push_call simp: qsys_init_def queue_create_def)
  from destroy_now [OF this, of 1]
  show "\<exists>s :: nat qsys. reachable 1 s \<and> freed s \<and> pcs s 0 = PushEntry 7"
    by (auto simp: qsys_init_def queue_create_def)
  obtain s :: "nat qsys" where s: "reachable 1 s" "\<not> freed s" "pcs s = (\<lambda>_. Idle)(0 := PushUnlock)"
    "pending (rq s) = 0" "owner s = Some 0" "alive (rq s)"
    using run_push by blast
  from destroy_now [OF s(1,2), of 1] s(3-)
  show "\<exists>s :: nat qsys. reachable 1 s \<and> freed s \<and> pcs s 0 = PushUnlock \<and> owner s = Some 0"
    by auto
qed

end
