(* ===== verification/Lock.thy ===== *)
theory Lock
  imports Prelude
begin

section \<open>The deadline of a timed wait (libs/lock.h)\<close>

text \<open>
  \<open>lock_timedwait\<close> turns a wait in milliseconds into the absolute time
  \<open>pthread_cond_timedwait\<close> takes; the time of day \<open>clock_gettime\<close> returns is the argument \<open>now\<close>.
  \<open>None\<close> is the call without a deadline (\<open>lock_wait\<close>). The other functions of the file rename
  pthread operations; their meaning is in the step relations of the theories that use them.
\<close>

record timespec =
  tv_sec :: int
  tv_nsec :: int

definition lock_timedwait :: "timespec \<Rightarrow> int \<Rightarrow> timespec option" where
  "lock_timedwait now wait_ms =
     (if wait_ms > 0 then
        (let sec = wait_ms div 1000;
             nsec = (wait_ms mod 1000) * 1000000;
             t = 1000000000 - tv_nsec now
         in if t > nsec
            then Some (now\<lparr>tv_sec := tv_sec now + sec, tv_nsec := tv_nsec now + nsec\<rparr>)
            else Some (now\<lparr>tv_sec := tv_sec now + (sec + 1), tv_nsec := nsec - t\<rparr>))
      else None)"

definition nanos :: "timespec \<Rightarrow> int" where
  "nanos ts = tv_sec ts * 1000000000 + tv_nsec ts"

text \<open>For a positive wait the deadline is a valid \<open>timespec\<close> (nanoseconds below one
  second) and lies exactly the wait after \<open>now\<close>; the product computed as \<open>int\<close> cannot overflow.\<close>

theorem timedwait_deadline:
  assumes "0 \<le> tv_nsec now" "tv_nsec now < 1000000000" "0 < ms"
  shows "(\<exists>d. lock_timedwait now ms = Some d \<and> nanos d = nanos now + ms * 1000000 \<and>
      0 \<le> tv_nsec d \<and> tv_nsec d < 1000000000) \<and> (ms mod 1000) * 1000000 < 2 ^ 31"
proof -
  have ms: "1000 * (ms div 1000) + ms mod 1000 = ms" by simp
  have "0 \<le> ms mod 1000" "ms mod 1000 < 1000" by simp_all
  have eq: "(ms mod 1000) * 1000000 + (ms div 1000) * 1000000000 = ms * 1000000"
    using ms by linarith
  with \<open>0 \<le> ms mod 1000\<close> \<open>ms mod 1000 < 1000\<close> assms show ?thesis
    by (auto simp: lock_timedwait_def Let_def nanos_def algebra_simps)
qed

theorem timedwait_deadline_witness:
  "\<exists>d. lock_timedwait \<lparr>tv_sec = 5, tv_nsec = 999000000\<rparr> 1500 = Some d \<and> nanos d = 7499000000"
  using timedwait_deadline [of "\<lparr>tv_sec = 5, tv_nsec = 999000000\<rparr>" 1500] by (auto simp: nanos_def)

end
