(* ===== verification/ThreadPool.thy ===== *)
theory ThreadPool
  imports Queue "HOL-Library.Multiset"
begin

section \<open>The thread pool (libs/threadpool.c)\<close>

text \<open>
  The pool owns \<open>workqueue_size\<close> task slots. A slot's address travels between two queues: free
  slots wait in \<open>tasksQueue\<close>, filled ones in \<open>workQueue\<close>. The address of \<open>tasks[i]\<close> is the
  (non-NULL) queue element \<open>i\<close>, and a slot holds \<open>None\<close> after \<open>memset\<close>, \<open>Some w\<close> when its
  \<open>func\<close> and \<open>arg\<close> are the work \<open>w\<close>. Queue operations are the atomic \<open>queue_enq\<close> / \<open>queue_deq\<close>
  of \<open>Queue.thy\<close>, which \<open>QueueThreads.thy\<close> shows to be what the blocking calls amount to; a
  call that would block is a step that is not enabled.
\<close>

text \<open>Where a worker (\<open>thread_entry\<close>) and a client (\<open>threadPool_pushWork\<close>) stand.\<close>

datatype wpc = WTest | WPop | WRun nat | WPush nat | WExit

datatype 'w cpc = CIdle | CFill nat 'w | CPush nat 'w | CFault

record 'w pool =
  workQueue :: "nat queue_t"
  tasksQueue :: "nat queue_t"
  running :: bool
  tasks :: "'w option list"
  threads_count :: nat
  wpcs :: "nat \<Rightarrow> wpc"
  cpcs :: "nat \<Rightarrow> 'w cpc"
  submitted :: "'w list"
  started :: "'w list"

definition default_threads :: "nat \<Rightarrow> nat \<Rightarrow> nat" where
  "default_threads nprocs threads = (if threads = 0 then nprocs - 1 else threads)"

definition default_size :: "nat \<Rightarrow> nat \<Rightarrow> nat" where
  "default_size threads wsize = (if wsize = 0 then threads * 2 else wsize)"

definition threadPool_create :: "nat \<Rightarrow> nat \<Rightarrow> nat \<Rightarrow> 'w pool option" where
  "threadPool_create nprocs workqueue_size threads =
     (let tc = default_threads nprocs threads; ws = default_size tc workqueue_size in
      case enq_all queue_enq (queue_create ws) [0..<ws] of
        None \<Rightarrow> None
      | Some tq \<Rightarrow> Some \<lparr>workQueue = queue_create ws, tasksQueue = tq, running = False,
          tasks = replicate ws None, threads_count = tc, wpcs = (\<lambda>_. WExit), cpcs = (\<lambda>_. CIdle),
          submitted = [], started = []\<rparr>)"

definition threadPool_dispach :: "'w pool \<Rightarrow> 'w pool" where
  "threadPool_dispach p =
     p\<lparr>running := True, wpcs := (\<lambda>t. if t < threads_count p then WTest else wpcs p t)\<rparr>"

text \<open>The flag and the two queues of \<open>threadPool_destroy\<close>; the cancelled threads take no step.\<close>

definition stop_pool :: "'w pool \<Rightarrow> 'w pool" where
  "stop_pool p = p\<lparr>running := False\<rparr>"

definition kill_queues :: "'w pool \<Rightarrow> 'w pool" where
  "kill_queues p = p\<lparr>workQueue := (workQueue p)\<lparr>alive := False\<rparr>,
     tasksQueue := (tasksQueue p)\<lparr>alive := False\<rparr>\<rparr>"

inductive worker_step :: "nat \<Rightarrow> 'w pool \<Rightarrow> 'w pool \<Rightarrow> bool" for t where
  w_test: "wpcs p t = WTest \<Longrightarrow>
    worker_step t p (p\<lparr>wpcs := (wpcs p)(t := if running p then WPop else WExit)\<rparr>)"
| w_pop: "wpcs p t = WPop \<Longrightarrow> queue_deq (workQueue p) = Some (i, q) \<Longrightarrow> tasks p ! i = Some w \<Longrightarrow>
    worker_step t p (p\<lparr>workQueue := q, wpcs := (wpcs p)(t := WRun i), started := started p @ [w]\<rparr>)"
| w_null: "wpcs p t = WPop \<Longrightarrow> queue_pop (workQueue p) = Some (None, q) \<Longrightarrow>
    worker_step t p (p\<lparr>wpcs := (wpcs p)(t := WExit)\<rparr>)"
| w_clear: "wpcs p t = WRun i \<Longrightarrow>
    worker_step t p (p\<lparr>tasks := (tasks p)[i := None], wpcs := (wpcs p)(t := WPush i)\<rparr>)"
| w_push: "wpcs p t = WPush i \<Longrightarrow> running p \<Longrightarrow> queue_enq (tasksQueue p) i = Some q \<Longrightarrow>
    worker_step t p (p\<lparr>tasksQueue := q, wpcs := (wpcs p)(t := WTest)\<rparr>)"
| w_drop: "wpcs p t = WPush i \<Longrightarrow> \<not> running p \<Longrightarrow>
    worker_step t p (p\<lparr>wpcs := (wpcs p)(t := WTest)\<rparr>)"

inductive client_step :: "nat \<Rightarrow> 'w pool \<Rightarrow> 'w pool \<Rightarrow> bool" for c where
  c_get: "cpcs p c = CIdle \<Longrightarrow> queue_deq (tasksQueue p) = Some (i, q) \<Longrightarrow>
    client_step c p (p\<lparr>tasksQueue := q, cpcs := (cpcs p)(c := CFill i w)\<rparr>)"
| c_null: "cpcs p c = CIdle \<Longrightarrow> queue_pop (tasksQueue p) = Some (None, q) \<Longrightarrow>
    client_step c p (p\<lparr>cpcs := (cpcs p)(c := CFault)\<rparr>)"
| c_fill: "cpcs p c = CFill i w \<Longrightarrow>
    client_step c p (p\<lparr>tasks := (tasks p)[i := Some w], cpcs := (cpcs p)(c := CPush i w)\<rparr>)"
| c_push: "cpcs p c = CPush i w \<Longrightarrow> queue_enq (workQueue p) i = Some q \<Longrightarrow>
    client_step c p (p\<lparr>workQueue := q, cpcs := (cpcs p)(c := CIdle),
      submitted := (if alive (workQueue p) then submitted p @ [w] else submitted p)\<rparr>)"

inductive pool_reachable :: "nat \<Rightarrow> 'w pool \<Rightarrow> bool" for n where
  pool_start: "threadPool_create np n th = Some p \<Longrightarrow> pool_reachable n (threadPool_dispach p)"
| pool_worker: "pool_reachable n p \<Longrightarrow> worker_step t p p' \<Longrightarrow> pool_reachable n p'"
| pool_client: "pool_reachable n p \<Longrightarrow> client_step c p p' \<Longrightarrow> pool_reachable n p'"
| pool_stop: "pool_reachable n p \<Longrightarrow> pool_reachable n (stop_pool p)"
| pool_kill: "pool_reachable n p \<Longrightarrow> \<not> running p \<Longrightarrow> pool_reachable n (kill_queues p)"

subsection \<open>Every slot is in at most one place\<close>

fun w_has :: "nat \<Rightarrow> wpc \<Rightarrow> bool" where
  "w_has i (WRun j) = (i = j)"
| "w_has i (WPush j) = (i = j)"
| "w_has i p = False"

fun c_has :: "nat \<Rightarrow> 'w cpc \<Rightarrow> bool" where
  "c_has i (CFill j w) = (i = j)"
| "c_has i (CPush j w) = (i = j)"
| "c_has i p = False"

definition places :: "'w pool \<Rightarrow> nat \<Rightarrow> nat" where
  "places p i = count (mset (contents (workQueue p))) i + count (mset (contents (tasksQueue p))) i +
     cnt (w_has i) (wpcs p) + cnt (c_has i) (cpcs p)"

definition pool_wf :: "nat \<Rightarrow> 'w pool \<Rightarrow> bool" where
  "pool_wf n p \<longleftrightarrow> ring_inv (workQueue p) \<and> ring_inv (tasksQueue p) \<and>
     qsize (workQueue p) = n \<and> qsize (tasksQueue p) = n \<and> length (tasks p) = n \<and>
     (running p \<longrightarrow> alive (workQueue p) \<and> alive (tasksQueue p)) \<and>
     fin_pcs WExit (wpcs p) \<and> fin_pcs CIdle (cpcs p)"

text \<open>What a successful queue operation does, on a queue that may have been killed.\<close>

lemma enq_cases:
  assumes "ring_inv q" "queue_enq q x = Some q'"
  shows "ring_inv q' \<and> qsize q' = qsize q \<and> alive q' = alive q \<and>
    contents q' = (if alive q then contents q @ [x] else contents q)"
proof (cases "alive q")
  case True
  with assms ring.enq_SomeD [of q x q'] show ?thesis
    by (auto simp: queue_ok_def)
next
  case False
  with assms show ?thesis by (auto simp: queue_enq_def queue_push_def)
qed

lemma deq_cases:
  assumes "ring_inv q" "queue_deq q = Some (x, q')"
  shows "ring_inv q' \<and> qsize q' = qsize q \<and> alive q' = alive q \<and> contents q = x # contents q'"
proof (cases "alive q")
  case True
  with assms ring.deq_SomeD [of q x q'] show ?thesis by (auto simp: queue_ok_def)
next
  case False
  with assms show ?thesis by (auto simp: queue_deq_def queue_pop_def)
qed

lemma wcnt:
  "fin_pcs WExit f \<Longrightarrow>
   cnt (w_has i) (f(t := v)) + of_bool (w_has i (f t)) = cnt (w_has i) f + of_bool (w_has i v)"
  unfolding fin_pcs_def by (rule cnt_upd) auto

lemma ccnt:
  "fin_pcs CIdle f \<Longrightarrow>
   cnt (c_has i) (f(c := v)) + of_bool (c_has i (f c)) = cnt (c_has i) f + of_bool (c_has i v)"
  unfolding fin_pcs_def by (rule cnt_upd) auto

lemma worker_step_wf:
  assumes "worker_step t p p'" "pool_wf n p"
  shows "pool_wf n p'"
  using assms(1)
proof (cases rule: worker_step.cases)
  case (w_pop i q w)
  with assms(2) deq_cases [OF _ w_pop(3)] show ?thesis by (simp add: pool_wf_def)
next
  case (w_push i q)
  with assms(2) enq_cases [OF _ w_push(4)] show ?thesis by (simp add: pool_wf_def)
qed (use assms(2) in \<open>simp_all add: pool_wf_def\<close>)

lemma client_step_wf:
  assumes "client_step t p p'" "pool_wf n p"
  shows "pool_wf n p'"
  using assms(1)
proof (cases rule: client_step.cases)
  case (c_get i q w)
  with assms(2) deq_cases [OF _ c_get(3)] show ?thesis by (simp add: pool_wf_def)
next
  case (c_push i w q)
  with assms(2) enq_cases [OF _ c_push(3)] show ?thesis by (simp add: pool_wf_def)
qed (use assms(2) in \<open>simp_all add: pool_wf_def\<close>)

lemma worker_step_places:
  assumes step: "worker_step t p p'" and wf: "pool_wf n p"
  shows "places p' i \<le> places p i"
proof -
  have fin: "fin_pcs WExit (wpcs p)" and inv: "ring_inv (workQueue p)" "ring_inv (tasksQueue p)"
    using wf by (auto simp: pool_wf_def)
  note move = wcnt [OF fin, of i t]
  show ?thesis using step
  proof (cases rule: worker_step.cases)
    case w_test
    with move [of WPop] move [of WExit] show ?thesis by (auto simp: places_def)
  next
    case (w_pop j q w)
    with move [of "WRun j"] deq_cases [OF inv(1) w_pop(3)] show ?thesis by (auto simp: places_def)
  next
    case (w_null q)
    with move [of WExit] show ?thesis by (auto simp: places_def)
  next
    case (w_clear j)
    with move [of "WPush j"] show ?thesis by (auto simp: places_def)
  next
    case (w_push j q)
    with move [of WTest] enq_cases [OF inv(2) w_push(4)] show ?thesis by (auto simp: places_def)
  next
    case (w_drop j)
    with move [of WTest] show ?thesis by (auto simp: places_def)
  qed
qed

lemma client_step_places:
  assumes step: "client_step c p p'" and wf: "pool_wf n p"
  shows "places p' i \<le> places p i"
proof -
  have fin: "fin_pcs CIdle (cpcs p)" and inv: "ring_inv (workQueue p)" "ring_inv (tasksQueue p)"
    using wf by (auto simp: pool_wf_def)
  note move = ccnt [OF fin, of i c]
  show ?thesis using step
  proof (cases rule: client_step.cases)
    case (c_get j q w)
    with move [of "CFill j w"] deq_cases [OF inv(2) c_get(3)] show ?thesis by (auto simp: places_def)
  next
    case (c_null q)
    with move [of CFault] show ?thesis by (auto simp: places_def)
  next
    case (c_fill j w)
    with move [of "CPush j w"] show ?thesis by (auto simp: places_def)
  next
    case (c_push j w q)
    with move [of CIdle] enq_cases [OF inv(1) c_push(3)] show ?thesis by (auto simp: places_def)
  qed
qed

definition slots_ok :: "'w pool \<Rightarrow> bool" where
  "slots_ok p \<longleftrightarrow> (\<forall>i \<in> set (contents (workQueue p)). tasks p ! i \<noteq> None) \<and>
     (\<forall>c i w. cpcs p c = CPush i w \<longrightarrow> tasks p ! i = Some w) \<and>
     submitted p = started p @ map (\<lambda>i. the (tasks p ! i)) (contents (workQueue p))"

definition pool_inv :: "nat \<Rightarrow> 'w pool \<Rightarrow> bool" where
  "pool_inv n p \<longleftrightarrow> pool_wf n p \<and> (\<forall>i. places p i \<le> (if i < n then 1 else 0)) \<and> slots_ok p"

text \<open>A slot in the hands of one thread is a valid slot and is nowhere else.\<close>

lemma worker_slot:
  assumes "pool_inv n p" "w_has j (wpcs p t)"
  shows "j < n \<and> j \<notin> set (contents (workQueue p)) \<and> j \<notin> set (contents (tasksQueue p)) \<and>
    (\<forall>c. \<not> c_has j (cpcs p c))"
proof -
  have fin: "fin_pcs WExit (wpcs p)" "fin_pcs CIdle (cpcs p)"
    and le: "places p j \<le> (if j < n then 1 else 0)"
    using assms(1) by (auto simp: pool_inv_def pool_wf_def)
  have w: "0 < cnt (w_has j) (wpcs p)"
    by (rule cnt_pos [OF fin(1) [unfolded fin_pcs_def]]) (use assms(2) in simp_all)
  then have "0 < places p j" by (simp add: places_def)
  with le have jn: "j < n" and "places p j \<le> 1" by (auto split: if_splits)
  with w have z: "count (mset (contents (workQueue p))) j = 0"
    "count (mset (contents (tasksQueue p))) j = 0" "cnt (c_has j) (cpcs p) = 0"
    unfolding places_def by linarith+
  have "\<not> c_has j (cpcs p c)" for c
    using cnt_pos [OF fin(2) [unfolded fin_pcs_def], of "c_has j" c] z(3) by auto
  with jn z(1,2) show ?thesis by (simp add: count_mset_0_iff)
qed

lemma client_slot:
  assumes "pool_inv n p" "c_has j (cpcs p c)"
  shows "j < n \<and> j \<notin> set (contents (workQueue p)) \<and> j \<notin> set (contents (tasksQueue p)) \<and>
    (\<forall>d. d \<noteq> c \<longrightarrow> \<not> c_has j (cpcs p d))"
proof -
  let ?f = "(cpcs p)(c := CIdle)"
  have fin: "fin_pcs CIdle (cpcs p)" and le: "places p j \<le> (if j < n then 1 else 0)"
    using assms(1) by (auto simp: pool_inv_def pool_wf_def)
  have c: "cnt (c_has j) (cpcs p) = cnt (c_has j) ?f + 1"
    using ccnt [OF fin, of j c CIdle] assms(2) by simp
  then have "0 < places p j" by (simp add: places_def)
  with le have jn: "j < n" and "places p j \<le> 1" by (auto split: if_splits)
  with c have z: "count (mset (contents (workQueue p))) j = 0"
    "count (mset (contents (tasksQueue p))) j = 0" "cnt (c_has j) ?f = 0"
    unfolding places_def by linarith+
  have "\<not> c_has j (?f d)" for d
    using cnt_pos [where f = ?f and P = "c_has j" and d = CIdle and t = d]
      fin_pcs_upd [OF fin, of c CIdle] z(3) by (auto simp: fin_pcs_def)
  then have "d \<noteq> c \<Longrightarrow> \<not> c_has j (cpcs p d)" for d by (metis fun_upd_other)
  with jn z(1,2) show ?thesis by (simp add: count_mset_0_iff)
qed

lemma map_tasks_cong:
  "j \<notin> set xs \<Longrightarrow> map (\<lambda>i. the (ts[j := v] ! i)) xs = map (\<lambda>i. the (ts ! i)) xs"
  by (auto intro!: map_cong arg_cong [where f = the] nth_list_update_neq)

lemma worker_step_slots:
  assumes step: "worker_step t p p'" and inv: "pool_inv n p"
  shows "slots_ok p'"
proof -
  have s: "slots_ok p" and r: "ring_inv (workQueue p)"
    using inv by (auto simp: pool_inv_def pool_wf_def)
  show ?thesis using step
  proof (cases rule: worker_step.cases)
    case (w_pop i q w)
    with s deq_cases [OF r w_pop(3)] show ?thesis by (auto simp: slots_ok_def)
  next
    case (w_clear j)
    then have j: "j \<notin> set (contents (workQueue p))" "\<forall>c. \<not> c_has j (cpcs p c)"
      using worker_slot [OF inv, of j t] by auto
    have "(tasks p)[j := None] ! i = Some w" if "cpcs p c = CPush i w" for c i w
      using that s j(2) [rule_format, of c] by (cases "i = j") (auto simp: slots_ok_def)
    moreover have "(tasks p)[j := None] ! i = tasks p ! i" if "i \<in> set (contents (workQueue p))" for i
      using that j(1) by (cases "i = j") auto
    ultimately show ?thesis using w_clear s j(1) by (auto simp: slots_ok_def map_tasks_cong)
  qed (use s in \<open>auto simp: slots_ok_def\<close>)
qed

lemma client_step_slots:
  assumes step: "client_step c p p'" and inv: "pool_inv n p"
  shows "slots_ok p'"
proof -
  have s: "slots_ok p" and r: "ring_inv (workQueue p)" "length (tasks p) = n"
    using inv by (auto simp: pool_inv_def pool_wf_def)
  show ?thesis using step
  proof (cases rule: client_step.cases)
    case (c_fill j w)
    then have j: "j < n" "j \<notin> set (contents (workQueue p))" "\<forall>d. d \<noteq> c \<longrightarrow> \<not> c_has j (cpcs p d)"
      using client_slot [OF inv, of j c] by auto
    have "(tasks p)[j := Some w] ! i = Some v" if "cpcs p d = CPush i v" "d \<noteq> c" for d i v
      using that s j(3) [rule_format, of d] by (cases "i = j") (auto simp: slots_ok_def)
    moreover have "(tasks p)[j := Some w] ! i = tasks p ! i" if "i \<in> set (contents (workQueue p))" for i
      using that j(2) by (cases "i = j") auto
    ultimately show ?thesis using c_fill s j(1,2) r(2) by (auto simp: slots_ok_def map_tasks_cong)
  next
    case (c_push j w q)
    with s enq_cases [OF r(1) c_push(3)] show ?thesis by (auto simp: slots_ok_def)
  qed (use s in \<open>auto simp: slots_ok_def\<close>)
qed

lemma pool_inv_step:
  "worker_step t p p' \<Longrightarrow> pool_inv n p \<Longrightarrow> pool_inv n p'"
  "client_step c p p' \<Longrightarrow> pool_inv n p \<Longrightarrow> pool_inv n p'"
  unfolding pool_inv_def
  using worker_step_wf worker_step_places worker_step_slots client_step_wf client_step_places
    client_step_slots
  by (metis (no_types, lifting) le_trans pool_inv_def)+

lemma create_inv:
  assumes "threadPool_create np n th = Some p" "0 < n"
  shows "pool_inv n (threadPool_dispach p)"
proof -
  obtain tq where tq: "enq_all queue_enq (queue_create n) [0..<n] = Some tq" "queue_ok tq"
      "contents tq = [0..<n]" "qsize tq = n"
    using ring.enq_all_room [of "queue_create n" "[0..<n]"] assms(2) by auto
  have p: "p = \<lparr>workQueue = queue_create n, tasksQueue = tq, running = False,
          tasks = replicate n None, threads_count = default_threads np th, wpcs = (\<lambda>_. WExit),
          cpcs = (\<lambda>_. CIdle), submitted = [], started = []\<rparr>"
    using assms tq(1) by (simp add: threadPool_create_def default_size_def Let_def)
  have w: "queue_ok (queue_create n :: nat queue_t)" using assms(2) by simp
  have "places (threadPool_dispach p) i = count (mset [0..<n]) i" for i
    using tq w p assms(2) by (simp add: places_def threadPool_dispach_def cnt_zero)
  moreover have "count (mset [0..<n]) i \<le> (if i < n then 1 else 0)" for i
    by (simp add: distinct_count_atmost_1)
  ultimately show ?thesis using tq w assms(2) unfolding p
    by (simp add: pool_inv_def pool_wf_def slots_ok_def threadPool_dispach_def queue_ok_def)
qed

lemma pool_reachable_inv: "pool_reachable n p \<Longrightarrow> 0 < n \<Longrightarrow> pool_inv n p"
proof (induction rule: pool_reachable.induct)
  case (pool_start np th p)
  then show ?case by (rule create_inv)
next
  case (pool_worker p t p')
  then show ?case using pool_inv_step(1) by blast
next
  case (pool_client p c p')
  then show ?case using pool_inv_step(2) by blast
next
  case (pool_stop p)
  then show ?case by (simp add: pool_inv_def pool_wf_def slots_ok_def places_def stop_pool_def)
next
  case (pool_kill p)
  then show ?case by (simp add: pool_inv_def pool_wf_def slots_ok_def places_def kill_queues_def)
qed

subsection \<open>Properties\<close>

text \<open>Both queues hold distinct valid slots, so the holder of a slot finds room for it.\<close>

lemma queues_distinct:
  assumes "pool_inv n p"
  shows "distinct (contents (workQueue p))" "distinct (contents (tasksQueue p))"
    "set (contents (workQueue p)) \<subseteq> {..<n}" "set (contents (tasksQueue p)) \<subseteq> {..<n}"
proof -
  have le: "places p i \<le> (if i < n then 1 else 0)" for i
    using assms by (auto simp: pool_inv_def)
  have *: "count (mset (contents (workQueue p))) i \<le> (if i < n then 1 else 0)"
    "count (mset (contents (tasksQueue p))) i \<le> (if i < n then 1 else 0)" for i
    using le [of i] unfolding places_def by linarith+
  have dist: "distinct xs \<and> set xs \<subseteq> {..<n}"
    if "\<And>i. count (mset xs) i \<le> (if i < n then 1 else 0)" for xs :: "nat list"
  proof
    have "count (mset xs) i = (if i \<in> set xs then 1 else 0)" for i
    proof (cases "i \<in> set xs")
      case True
      then have "count (mset xs) i \<noteq> 0" using count_mset_0_iff [of xs i] by blast
      moreover have "count (mset xs) i \<le> 1" by (rule order_trans [OF that]) simp
      ultimately have "count (mset xs) i = 1" by linarith
      with True show ?thesis by simp
    qed (simp add: count_mset_0_iff)
    then show "distinct xs" by (simp add: distinct_count_atmost_1)
    show "set xs \<subseteq> {..<n}"
    proof
      fix i assume "i \<in> set xs"
      then have "0 < count (mset xs) i" by simp
      with that [of i] show "i \<in> {..<n}" by (auto split: if_splits)
    qed
  qed
  from dist [of "contents (workQueue p)"] *(1) show "distinct (contents (workQueue p))"
    "set (contents (workQueue p)) \<subseteq> {..<n}" by auto
  from dist [of "contents (tasksQueue p)"] *(2) show "distinct (contents (tasksQueue p))"
    "set (contents (tasksQueue p)) \<subseteq> {..<n}" by auto
qed

lemma room_for_slot:
  assumes "distinct xs" "set xs \<subseteq> {..<n}" "i < n" "i \<notin> set xs"
  shows "length xs < n"
proof -
  have "set xs \<subseteq> {..<n} - {i}" using assms by auto
  then have "card (set xs) \<le> card ({..<n} - {i})" by (rule card_mono [rotated]) simp
  with assms show ?thesis by (simp add: distinct_card)
qed

lemma enq_enabled:
  assumes "ring_inv q" "length (contents q) < qsize q"
  shows "\<exists>q'. queue_enq q x = Some q'"
proof (cases "alive q")
  case True
  with assms ring.enq_room [of q x] show ?thesis by (auto simp: queue_ok_def)
next
  case False
  then show ?thesis by (simp add: queue_enq_def queue_push_def)
qed

lemma push_enabled:
  assumes "pool_inv n p"
  shows "cpcs p c = CPush i w \<Longrightarrow> \<exists>q. queue_enq (workQueue p) i = Some q"
    and "wpcs p t = WPush i \<Longrightarrow> \<exists>q. queue_enq (tasksQueue p) i = Some q"
proof -
  have wf: "ring_inv (workQueue p)" "ring_inv (tasksQueue p)" "qsize (workQueue p) = n"
    "qsize (tasksQueue p) = n"
    using assms by (auto simp: pool_inv_def pool_wf_def)
  note d = queues_distinct [OF assms]
  show "\<exists>q. queue_enq (workQueue p) i = Some q" if "cpcs p c = CPush i w"
    using client_slot [OF assms, of i c] that room_for_slot [OF d(1,3), of i] wf
    by (auto intro: enq_enabled)
  show "\<exists>q. queue_enq (tasksQueue p) i = Some q" if "wpcs p t = WPush i"
    using worker_slot [OF assms, of i t] that room_for_slot [OF d(2,4), of i] wf
    by (auto intro: enq_enabled)
qed

lemma deq_enabled:
  assumes "queue_ok q" "contents q \<noteq> []"
  shows "\<exists>i q'. queue_deq q = Some (i, q') \<and> i \<in> set (contents q)"
  using assms ring.deq_cons [of q] by (cases "contents q") fastforce+

text \<open>A worker of a running pool waits for nothing but work.\<close>

lemma worker_enabled:
  assumes "pool_inv n p" "running p" "wpcs p t \<noteq> WExit"
  shows "(\<exists>p'. worker_step t p p') \<or> wpcs p t = WPop \<and> contents (workQueue p) = []"
proof (cases "wpcs p t")
  case WPop
  have ok: "queue_ok (workQueue p)" "slots_ok p"
    using assms by (auto simp: pool_inv_def pool_wf_def queue_ok_def)
  show ?thesis
  proof (cases "contents (workQueue p) = []")
    case False
    with deq_enabled [OF ok(1)] ok(2) WPop show ?thesis by (fastforce simp: slots_ok_def intro: w_pop)
  qed (use WPop in simp)
next
  case (WPush i)
  with push_enabled(2) [OF assms(1), of t i] assms(2) show ?thesis by (blast intro: w_push)
qed (use assms(3) in \<open>blast intro: worker_step.intros\<close>)+

lemma client_enabled:
  assumes "pool_inv n p" "running p" "cpcs p c \<noteq> CFault"
  shows "(\<exists>p'. client_step c p p') \<or> cpcs p c = CIdle \<and> contents (tasksQueue p) = []"
proof (cases "cpcs p c")
  case CIdle
  have "queue_ok (tasksQueue p)" using assms by (auto simp: pool_inv_def pool_wf_def queue_ok_def)
  with CIdle deq_enabled [of "tasksQueue p"] show ?thesis by (blast intro: c_get)
next
  case (CPush i w)
  with push_enabled(1) [OF assms(1), of c i w] show ?thesis by (blast intro: c_push)
qed (use assms(3) in \<open>blast intro: client_step.intros\<close>)+

text \<open>Property C4. Work is started in the order it was submitted and each submission at most
  once: in every reachable state the submitted works are those started, followed by those in
  the slots waiting in \<open>workQueue\<close>.\<close>

theorem pool_runs_in_order:
  assumes "pool_reachable n p" "0 < n"
  shows "submitted p = started p @ map (\<lambda>i. the (tasks p ! i)) (contents (workQueue p))"
  using pool_reachable_inv [OF assms] by (simp add: pool_inv_def slots_ok_def)


text \<open>A task slot is never in two hands: the slots held by two clients, or by a
  client and a worker, are different, so \<open>memset\<close> and the writes of \<open>func\<close> and \<open>arg\<close> never race.\<close>

theorem pool_slots_exclusive:
  assumes "pool_reachable n p" "0 < n" "c_has i (cpcs p c)"
  shows "i < n \<and> (\<forall>t. \<not> w_has i (wpcs p t)) \<and> (\<forall>d. d \<noteq> c \<longrightarrow> \<not> c_has i (cpcs p d)) \<and>
    i \<notin> set (contents (workQueue p)) \<and> i \<notin> set (contents (tasksQueue p))"
  using client_slot [OF pool_reachable_inv [OF assms(1,2)] assms(3)]
    worker_slot [OF pool_reachable_inv [OF assms(1,2)]] assms(3) by blast

text \<open>Creating a pool with a given queue size succeeds (none of its pushes blocks)
  with every slot free, in index order.\<close>

theorem pool_create_fills:
  assumes "0 < n"
  shows "\<exists>p. threadPool_create np n th = Some p \<and> contents (tasksQueue p) = [0..<n] \<and>
    contents (workQueue p) = [] \<and> tasks p = replicate n None \<and> threads_count p = default_threads np th"
  using ring.enq_all_room [of "queue_create n" "[0..<n]"] assms
  by (auto simp: threadPool_create_def default_size_def Let_def)

text \<open>With the default thread count on a machine with one processor the pool has no
  thread and no slot: \<open>get_nprocs() - 1\<close> is 0.\<close>

theorem pool_default_single_core:
  "\<exists>p. threadPool_create 1 0 0 = Some p \<and> threads_count p = 0 \<and> tasks p = [] \<and>
     array (workQueue p) = [] \<and> array (tasksQueue p) = []"
  by (simp add: threadPool_create_def default_threads_def default_size_def queue_create_def)

subsection \<open>A run: one slot, one worker, one submission\<close>

lemma run_submit:
  "\<exists>p :: nat pool. pool_reachable 1 p \<and> submitted p = [7] \<and> running p \<and> wpcs p 0 = WTest"
proof -
  obtain p0 :: "nat pool" where p0: "threadPool_create 4 1 1 = Some p0"
    "contents (tasksQueue p0) = [0]"
    using pool_create_fills [of 1 4 1] by auto
  let ?a = "threadPool_dispach p0"
  have ra: "pool_reachable 1 ?a" by (rule pool_start [OF p0(1)])
  have fa: "running ?a" "cpcs ?a 0 = CIdle" "wpcs ?a 0 = WTest" "submitted ?a = []"
    using p0(1) by (auto simp: threadPool_create_def threadPool_dispach_def default_threads_def
        Let_def split: option.splits)
  have "queue_ok (tasksQueue ?a)" "contents (tasksQueue ?a) \<noteq> []"
    using pool_reachable_inv [OF ra] fa(1) p0(2)
    by (auto simp: pool_inv_def pool_wf_def queue_ok_def threadPool_dispach_def)
  from deq_enabled [OF this] obtain i q where q: "queue_deq (tasksQueue ?a) = Some (i, q)" by blast
  let ?b = "?a\<lparr>tasksQueue := q, cpcs := (cpcs ?a)(0 := CFill i 7)\<rparr>"
  have rb: "pool_reachable 1 ?b" by (rule pool_client [OF ra c_get [OF fa(2) q]])
  let ?c = "?b\<lparr>tasks := (tasks ?b)[i := Some 7], cpcs := (cpcs ?b)(0 := CPush i 7)\<rparr>"
  have rc: "pool_reachable 1 ?c" by (rule pool_client [OF rb c_fill]) simp
  have c: "cpcs ?c 0 = CPush i 7" by simp
  obtain r where r: "queue_enq (workQueue ?c) i = Some r"
    using push_enabled(1) [OF pool_reachable_inv [OF rc] c] by auto
  let ?d = "?c\<lparr>workQueue := r, cpcs := (cpcs ?c)(0 := CIdle),
      submitted := (if alive (workQueue ?c) then submitted ?c @ [7] else submitted ?c)\<rparr>"
  have rd: "pool_reachable 1 ?d" by (rule pool_client [OF rc c_push [OF c r]])
  have "alive (workQueue ?c)"
    using pool_reachable_inv [OF rc] fa(1) by (simp add: pool_inv_def pool_wf_def)
  then have "submitted ?d = [7]" "running ?d" "wpcs ?d 0 = WTest" using fa by simp_all
  with rd show ?thesis by blast
qed

lemma run_hold:
  "\<exists>p :: nat pool. pool_reachable 1 p \<and> cpcs p 0 = CFill 0 7"
proof -
  obtain p0 :: "nat pool" where p0: "threadPool_create 4 1 1 = Some p0"
    "contents (tasksQueue p0) = [0]"
    using pool_create_fills [of 1 4 1] by auto
  let ?a = "threadPool_dispach p0"
  have ra: "pool_reachable 1 ?a" by (rule pool_start [OF p0(1)])
  have fa: "cpcs ?a 0 = CIdle" "running ?a"
    using p0(1) by (auto simp: threadPool_create_def threadPool_dispach_def Let_def split: option.splits)
  have "queue_ok (tasksQueue ?a)" "contents (tasksQueue ?a) = [0]"
    using pool_reachable_inv [OF ra] p0(2) fa(2)
    by (auto simp: pool_inv_def pool_wf_def queue_ok_def threadPool_dispach_def)
  from ring.deq_cons [OF this] obtain q where q: "queue_deq (tasksQueue ?a) = Some (0, q)" by blast
  let ?b = "?a\<lparr>tasksQueue := q, cpcs := (cpcs ?a)(0 := CFill 0 7)\<rparr>"
  have "pool_reachable 1 ?b" by (rule pool_client [OF ra c_get [OF fa(1) q]])
  moreover have "cpcs ?b 0 = CFill 0 7" by simp
  ultimately show ?thesis by blast
qed

theorem pool_runs_in_order_witness:
  "\<exists>p :: nat pool. pool_reachable 1 p \<and>
     [7] = started p @ map (\<lambda>i. the (tasks p ! i)) (contents (workQueue p))"
proof -
  obtain p :: "nat pool" where "pool_reachable 1 p" "submitted p = [7]" using run_submit by blast
  with pool_runs_in_order [of 1 p] show ?thesis by auto
qed


theorem pool_slots_exclusive_witness:
  "\<exists>p :: nat pool. pool_reachable 1 p \<and> cpcs p 0 = CFill 0 7 \<and> \<not> w_has 0 (wpcs p 0)"
proof -
  obtain p :: "nat pool" where p: "pool_reachable 1 p" "cpcs p 0 = CFill 0 7"
    using run_hold by blast
  with pool_slots_exclusive [OF p(1), of 0 0] have "\<not> w_has 0 (wpcs p 0)" by simp
  with p show ?thesis by blast
qed

theorem pool_create_fills_witness:
  "\<exists>p :: nat pool. threadPool_create 4 2 1 = Some p \<and> contents (tasksQueue p) = [0, 1]"
  using pool_create_fills [of 2 4 1] by (auto simp: upt_rec)

end
