(* ===== verification/PoolClose.thy ===== *)
theory PoolClose
  imports ThreadPool
begin

section \<open>Closing the thread pool (libs/threadpool.c)\<close>

text \<open>
  \<open>threadPool_destroy\<close> clears the flag, destroys the two queues (which are NULL afterwards), with \<open>force\<close> cancels and joins the
  threads one after the other, and frees the slots and the pool. The threads and clients go on meanwhile; a step that would
  read a queue that is gone, or the freed pool, is not taken: \<open>reads_freed\<close> says that a thread is before such a step. A thread
  is cancelled inside of the function it runs, if that reaches a cancellation point.
\<close>

datatype dpc = DStop | DTasks | DWork | DJoin nat | DFree | DDone

record 'w closing =
  cl_pool :: "'w pool"
  cl_pc :: dpc

text \<open>From which places a queue, and the pool, are gone.\<close>

definition work_gone :: "dpc \<Rightarrow> bool" where
  "work_gone d \<longleftrightarrow> d \<noteq> DStop \<and> d \<noteq> DTasks \<and> d \<noteq> DWork"

fun client_goes :: "dpc \<Rightarrow> 'w cpc \<Rightarrow> bool" where
  "client_goes d CIdle = (d = DStop \<or> d = DTasks)"
| "client_goes d (CFill i w) = (d \<noteq> DDone)"
| "client_goes d (CPush i w) = (\<not> work_gone d)"
| "client_goes d CFault = False"

definition reads_freed :: "'w closing \<Rightarrow> bool" where
  "reads_freed c \<longleftrightarrow> (work_gone (cl_pc c) \<and> (\<exists>t. wpcs (cl_pool c) t = WPop)) \<or>
     (work_gone (cl_pc c) \<and> (\<exists>k i w. cpcs (cl_pool c) k = CPush i w)) \<or>
     (cl_pc c = DDone \<and> ((\<exists>t. wpcs (cl_pool c) t \<noteq> WExit) \<or> (\<exists>k i w. cpcs (cl_pool c) k = CFill i w)))"

inductive closing_step :: "bool \<Rightarrow> 'w closing \<Rightarrow> 'w closing \<Rightarrow> bool" for force where
  d_worker: "cl_pc c \<noteq> DDone \<Longrightarrow> \<not> (work_gone (cl_pc c) \<and> wpcs (cl_pool c) t = WPop) \<Longrightarrow> worker_step t (cl_pool c) p \<Longrightarrow>
    closing_step force c (c\<lparr>cl_pool := p\<rparr>)"
| d_client: "client_goes (cl_pc c) (cpcs (cl_pool c) k) \<Longrightarrow> client_step k (cl_pool c) p \<Longrightarrow> closing_step force c (c\<lparr>cl_pool := p\<rparr>)"
| d_stop: "cl_pc c = DStop \<Longrightarrow> closing_step force c (c\<lparr>cl_pool := stop_pool (cl_pool c), cl_pc := DTasks\<rparr>)"
| d_tasks: "cl_pc c = DTasks \<Longrightarrow>
    closing_step force c (c\<lparr>cl_pool := (cl_pool c)\<lparr>tasksQueue := (tasksQueue (cl_pool c))\<lparr>alive := False\<rparr>\<rparr>, cl_pc := DWork\<rparr>)"
| d_work: "cl_pc c = DWork \<Longrightarrow>
    closing_step force c (c\<lparr>cl_pool := (cl_pool c)\<lparr>workQueue := (workQueue (cl_pool c))\<lparr>alive := False\<rparr>\<rparr>,
      cl_pc := if force then DJoin 0 else DFree\<rparr>)"
| d_cancel: "cl_pc c = DJoin t \<Longrightarrow> wpcs (cl_pool c) t = WRun i \<Longrightarrow>
    closing_step force c (c\<lparr>cl_pool := (cl_pool c)\<lparr>wpcs := (wpcs (cl_pool c))(t := WExit)\<rparr>\<rparr>)"
| d_join: "cl_pc c = DJoin t \<Longrightarrow> t < threads_count (cl_pool c) \<Longrightarrow> wpcs (cl_pool c) t = WExit \<Longrightarrow>
    closing_step force c (c\<lparr>cl_pc := DJoin (Suc t)\<rparr>)"
| d_joined: "cl_pc c = DJoin t \<Longrightarrow> threads_count (cl_pool c) \<le> t \<Longrightarrow> closing_step force c (c\<lparr>cl_pc := DFree\<rparr>)"
| d_free: "cl_pc c = DFree \<Longrightarrow> closing_step force c (c\<lparr>cl_pc := DDone\<rparr>)"

inductive closing_run :: "bool \<Rightarrow> nat \<Rightarrow> 'w closing \<Rightarrow> bool" for force n where
  close_start: "pool_reachable n p \<Longrightarrow> closing_run force n \<lparr>cl_pool = p, cl_pc = DStop\<rparr>"
| close_step: "closing_run force n c \<Longrightarrow> closing_step force c c' \<Longrightarrow> closing_run force n c'"

subsection \<open>What the steps keep\<close>

lemma worker_keeps:
  assumes "worker_step t p p'"
  shows "threads_count p' = threads_count p \<and> running p' = running p \<and> cpcs p' = cpcs p \<and> (wpcs p u = WExit \<longrightarrow> wpcs p' u = WExit) \<and>
    (\<not> running p \<and> wpcs p u \<noteq> WPop \<longrightarrow> wpcs p' u \<noteq> WPop)"
  using assms by cases auto

lemma client_keeps:
  assumes "client_step k p p'"
  shows "threads_count p' = threads_count p \<and> running p' = running p \<and> wpcs p' = wpcs p"
  using assms by cases auto

text \<open>Only the threads that were started run.\<close>

definition only_started :: "'w pool \<Rightarrow> bool" where
  "only_started p \<longleftrightarrow> (\<forall>t \<ge> threads_count p. wpcs p t = WExit)"

lemma reachable_started: "pool_reachable n p \<Longrightarrow> only_started p"
proof (induction rule: pool_reachable.induct)
  case (pool_start np th p)
  then show ?case by (auto simp: only_started_def threadPool_dispach_def threadPool_create_def Let_def split: option.splits)
next
  case (pool_worker p t p')
  with worker_keeps show ?case unfolding only_started_def by metis
next
  case (pool_client p c p')
  with client_keeps show ?case unfolding only_started_def by metis
qed (simp_all add: only_started_def stop_pool_def kill_queues_def)

text \<open>The threads that have been joined have ended.\<close>

definition joined_ok :: "bool \<Rightarrow> 'w closing \<Rightarrow> bool" where
  "joined_ok force c \<longleftrightarrow> only_started (cl_pool c) \<and> (cl_pc c \<noteq> DStop \<longrightarrow> \<not> running (cl_pool c)) \<and>
     (\<forall>k. cl_pc c = DJoin k \<longrightarrow> (\<forall>t < k. wpcs (cl_pool c) t = WExit)) \<and>
     (force \<and> (cl_pc c = DFree \<or> cl_pc c = DDone) \<longrightarrow> (\<forall>t. wpcs (cl_pool c) t = WExit))"

lemma closing_ok: "closing_run force n c \<Longrightarrow> joined_ok force c"
proof (induction rule: closing_run.induct)
  case (close_start p)
  then show ?case using reachable_started by (simp add: joined_ok_def)
next
  case (close_step c c')
  from close_step.hyps(2) close_step.IH show ?case
  proof cases
    case (d_worker t p)
    with worker_keeps [OF d_worker(4)] close_step.IH show ?thesis by (auto simp: joined_ok_def only_started_def)
  next
    case (d_client k p)
    with client_keeps [OF d_client(3)] close_step.IH show ?thesis by (auto simp: joined_ok_def only_started_def)
  next
    case (d_joined t)
    have "wpcs (cl_pool c) u = WExit" for u
      using close_step.IH d_joined(2,3) by (cases "u < t") (auto simp: joined_ok_def only_started_def)
    with close_step.IH d_joined show ?thesis by (simp add: joined_ok_def)
  qed (auto simp: joined_ok_def only_started_def stop_pool_def less_Suc_eq)
qed

text \<open>Once the flag is cleared no thread comes to \<open>pop\<close> any more.\<close>

inductive closing_on :: "bool \<Rightarrow> 'w closing \<Rightarrow> 'w closing \<Rightarrow> bool" for force where
  on_refl: "closing_on force c c"
| on_step: "closing_on force c c' \<Longrightarrow> closing_step force c' c'' \<Longrightarrow> cpcs (cl_pool c'') = cpcs (cl_pool c') \<Longrightarrow> closing_on force c c''"

lemma closing_on_run: "closing_on force c c' \<Longrightarrow> closing_run force n c \<Longrightarrow> closing_run force n c'"
  by (induction rule: closing_on.induct) (auto intro: close_step)

lemma step_pops:
  assumes "closing_step force c c'" "\<not> running (cl_pool c)" "cl_pc c \<noteq> DStop" "\<forall>t. wpcs (cl_pool c) t \<noteq> WPop"
  shows "(\<forall>t. wpcs (cl_pool c') t \<noteq> WPop) \<and> \<not> running (cl_pool c') \<and> cl_pc c' \<noteq> DStop"
  using assms(1)
proof cases
  case (d_worker t p)
  with worker_keeps [OF d_worker(4)] assms(2-4) show ?thesis by simp
next
  case (d_client k p)
  with client_keeps [OF d_client(3)] assms(2-4) show ?thesis by simp
qed (use assms(2-4) in simp_all)

lemma closing_quiet:
  assumes "closing_on force c c'" "\<not> running (cl_pool c)" "cl_pc c \<noteq> DStop" "\<forall>t. wpcs (cl_pool c) t \<noteq> WPop" "\<forall>k. cpcs (cl_pool c) k = CIdle"
  shows "(\<forall>t. wpcs (cl_pool c') t \<noteq> WPop) \<and> \<not> running (cl_pool c') \<and> cl_pc c' \<noteq> DStop \<and> (\<forall>k. cpcs (cl_pool c') k = CIdle)"
  using assms
proof (induction rule: closing_on.induct)
  case (on_step c c' c'')
  with step_pops [OF on_step.hyps(2)] show ?case by simp
qed simp

text \<open>The closing is never stuck before a thread that reads what is freed.\<close>

lemma closing_moves:
  assumes "closing_run force n c" "cl_pc c \<noteq> DDone" "\<not> reads_freed c"
  shows "\<exists>c'. closing_step force c c'"
proof (cases "cl_pc c")
  case (DJoin t)
  have stopped: "\<not> running (cl_pool c)" using closing_ok [OF assms(1)] DJoin by (simp add: joined_ok_def)
  show ?thesis
  proof (cases "wpcs (cl_pool c) t")
    case WTest
    from d_worker [OF assms(2) _ w_test [OF WTest]] WTest show ?thesis by force
  next
    case WPop
    with assms(3) DJoin show ?thesis by (auto simp: reads_freed_def work_gone_def)
  next
    case (WRun i)
    from d_cancel [OF DJoin WRun] show ?thesis by blast
  next
    case (WPush i)
    from d_worker [OF assms(2) _ w_drop [OF WPush stopped]] WPush show ?thesis by force
  next
    case WExit
    with d_join [OF DJoin] d_joined [OF DJoin] show ?thesis by (meson not_less)
  qed
qed (use assms(2) in \<open>auto intro: d_stop d_tasks d_work d_free\<close>)

subsection \<open>Runs\<close>

lemma close_now:
  assumes "pool_reachable n p"
  shows "closing_run force n \<lparr>cl_pool = (stop_pool p)\<lparr>tasksQueue := (tasksQueue p)\<lparr>alive := False\<rparr>, workQueue := (workQueue p)\<lparr>alive := False\<rparr>\<rparr>,
    cl_pc = if force then DJoin 0 else DFree\<rparr>"
proof -
  have "closing_run force n \<lparr>cl_pool = p, cl_pc = DStop\<rparr>" by (rule close_start [OF assms])
  from close_step [OF this d_stop] have "closing_run force n \<lparr>cl_pool = stop_pool p, cl_pc = DTasks\<rparr>" by simp
  from close_step [OF this d_tasks] have "closing_run force n \<lparr>cl_pool = (stop_pool p)\<lparr>tasksQueue := (tasksQueue p)\<lparr>alive := False\<rparr>\<rparr>, cl_pc = DWork\<rparr>"
    by (simp add: stop_pool_def)
  from close_step [OF this d_work] show ?thesis by (simp add: stop_pool_def)
qed



end
