(* ===== verification/Services.thy ===== *)
theory Services
  imports ThreadPool
begin

section \<open>Work that does not return (the pool of libs/threadpool.c in use)\<close>

text \<open>
  The listener (\<open>http_server_worker\<close>) and the session task (\<open>session_task\<close>) are work of the pool like the requests, but
  run until the server stops. This theory is about pools on which the work in a set \<open>S\<close> holds its thread.
\<close>

fun held_by :: "'w set \<Rightarrow> 'w option list \<Rightarrow> wpc \<Rightarrow> bool" where
  "held_by S ts (WRun i) = (case ts ! i of Some w \<Rightarrow> w \<in> S | None \<Rightarrow> False)"
| "held_by S ts _ = False"

definition serving :: "'w set \<Rightarrow> 'w pool \<Rightarrow> nat \<Rightarrow> bool" where
  "serving S p t = held_by S (tasks p) (wpcs p t)"

inductive held_run :: "'w set \<Rightarrow> nat \<Rightarrow> 'w pool \<Rightarrow> bool" for S n where
  held_start: "threadPool_create np n th = Some p \<Longrightarrow> held_run S n (threadPool_dispach p)"
| held_worker: "held_run S n p \<Longrightarrow> worker_step t p p' \<Longrightarrow> \<not> serving S p t \<Longrightarrow> held_run S n p'"
| held_client: "held_run S n p \<Longrightarrow> client_step c p p' \<Longrightarrow> held_run S n p'"

lemma held_reachable: "held_run S n p \<Longrightarrow> pool_reachable n p"
  by (induction rule: held_run.induct) (blast intro: pool_reachable.intros)+

subsection \<open>Threads and slots\<close>

lemma worker_alone:
  assumes "pool_inv n p" "w_has j (wpcs p t)" "u \<noteq> t"
  shows "\<not> w_has j (wpcs p u)"
proof -
  let ?f = "(wpcs p)(t := WExit)"
  have fin: "fin_pcs WExit (wpcs p)" and le: "places p j \<le> (if j < n then 1 else 0)"
    using assms(1) by (auto simp: pool_inv_def pool_wf_def)
  have "cnt (w_has j) (wpcs p) = cnt (w_has j) ?f + 1"
    using wcnt [OF fin, of j t WExit] assms(2) by simp
  with le have "cnt (w_has j) ?f = 0" by (auto simp: places_def split: if_splits)
  then have "\<not> w_has j (?f u)"
    using cnt_pos [where f = ?f and P = "w_has j" and d = WExit and t = u] fin_pcs_upd [OF fin, of t WExit]
    by (auto simp: fin_pcs_def)
  with assms(3) show ?thesis by simp
qed

text \<open>The threads of the pool loop as long as it runs; there are no others.\<close>

definition threads_ok :: "'w pool \<Rightarrow> bool" where
  "threads_ok p \<longleftrightarrow> running p \<and> (\<forall>t. wpcs p t \<noteq> WExit \<longleftrightarrow> t < threads_count p)"

lemma dispatched:
  assumes "threadPool_create np n th = Some p"
  shows "threads_ok (threadPool_dispach p)" "started (threadPool_dispach p) = []"
    "\<not> serving S (threadPool_dispach p) t"
  using assms by (auto simp: threads_ok_def serving_def threadPool_create_def threadPool_dispach_def Let_def split: option.splits)

lemma threads_frame:
  "threads_ok p \<Longrightarrow> wpcs p t \<noteq> WExit \<Longrightarrow> v \<noteq> WExit \<Longrightarrow> ((wpcs p)(t := v)) u \<noteq> WExit \<longleftrightarrow> u < threads_count p"
  by (simp add: threads_ok_def)

lemma no_null:
  assumes "ring_inv q" "alive q"
  shows "queue_pop q \<noteq> Some (None, q')"
proof
  assume "queue_pop q = Some (None, q')"
  with assms(2) pop_blocked_iff [OF assms(1)] have "contents q \<noteq> []" "fst (pop_take q) = None"
    by (auto simp: queue_pop_def split: if_splits)
  with pop_take_spec(1) [OF assms(1)] show False by (cases "contents q") auto
qed

lemma worker_step_ok:
  assumes "worker_step t p p'" "threads_ok p" "pool_wf n p"
  shows "threads_ok p' \<and> threads_count p' = threads_count p \<and> submitted p' = submitted p"
proof -
  have r: "running p" using assms(2) by (simp add: threads_ok_def)
  then have q: "ring_inv (workQueue p)" "alive (workQueue p)" using assms(3) by (simp_all add: pool_wf_def)
  note move = threads_frame [OF assms(2), of t]
  from assms(1) show ?thesis
  proof (cases rule: worker_step.cases)
    case w_test
    with move [of WPop] r show ?thesis unfolding threads_ok_def by simp
  next
    case (w_pop i q w)
    with move [of "WRun i"] r show ?thesis unfolding threads_ok_def by simp
  next
    case (w_null q)
    with no_null [OF q] show ?thesis by blast
  next
    case (w_clear i)
    with move [of "WPush i"] r show ?thesis unfolding threads_ok_def by simp
  next
    case (w_push i q)
    with move [of WTest] r show ?thesis unfolding threads_ok_def by simp
  qed (use r in simp)
qed

lemma client_step_ok:
  assumes "client_step c p p'" "threads_ok p"
  shows "threads_ok p' \<and> threads_count p' = threads_count p \<and> started p' = started p \<and> prefix (submitted p) (submitted p')"
  using assms(1) by (cases rule: client_step.cases) (use assms(2) in \<open>simp_all add: threads_ok_def\<close>)

subsection \<open>The threads that are held\<close>

lemma serving_other:
  assumes "worker_step t p p'" "pool_inv n p" "u \<noteq> t"
  shows "serving S p' u = serving S p u"
  using assms(1)
proof (cases rule: worker_step.cases)
  case (w_clear i)
  have "tasks p' ! j = tasks p ! j" if "wpcs p u = WRun j" for j
    using worker_alone [OF assms(2), of j u t] that w_clear assms(3) by (cases "i = j") simp_all
  with w_clear(1) assms(3) show ?thesis by (cases "wpcs p u") (simp_all add: serving_def)
qed (use assms(3) in \<open>simp_all add: serving_def\<close>)

lemma serving_self:
  assumes "worker_step t p p'" "\<not> serving S p t"
  shows "started p' = started p \<and> \<not> serving S p' t \<or>
    (\<exists>w. started p' = started p @ [w] \<and> wpcs p t = WPop \<and> (serving S p' t \<longleftrightarrow> w \<in> S))"
  using assms(1) by (cases rule: worker_step.cases) (auto simp: serving_def)

lemma serving_client:
  assumes "client_step c p p'" "pool_inv n p"
  shows "serving S p' u = serving S p u"
  using assms(1)
proof (cases rule: client_step.cases)
  case (c_fill i w)
  have "tasks p' ! j = tasks p ! j" if "wpcs p u = WRun j" for j
  proof -
    have "\<not> c_has j (cpcs p c)" using worker_slot [OF assms(2), of j u] that by simp
    then have "i \<noteq> j" using c_fill(2) by simp
    then show ?thesis using c_fill(1) by simp
  qed
  with c_fill show ?thesis by (cases "wpcs p u") (simp_all add: serving_def)
qed (simp_all add: serving_def)

subsection \<open>As many threads are held as held work was started\<close>

definition held_inv :: "'w set \<Rightarrow> 'w pool \<Rightarrow> bool" where
  "held_inv S p \<longleftrightarrow> threads_ok p \<and> card {t. serving S p t} = length (filter (\<lambda>w. w \<in> S) (started p)) \<and>
     (set (take (threads_count p) (submitted p)) \<subseteq> S \<longrightarrow> length (started p) \<le> threads_count p)"

lemma serving_threads: "threads_ok p \<Longrightarrow> {t. serving S p t} \<subseteq> {..<threads_count p}"
  unfolding threads_ok_def serving_def by (metis (no_types) held_by.simps(5) lessThan_iff mem_Collect_eq subsetI)

lemma started_first:
  assumes "pool_inv n p"
  shows "started p = take (length (started p)) (submitted p)"
proof -
  have "submitted p = started p @ map (\<lambda>i. the (tasks p ! i)) (contents (workQueue p))"
    using assms by (simp add: pool_inv_def slots_ok_def)
  then show ?thesis by simp
qed

lemma joined:
  assumes "\<And>u. u \<noteq> t \<Longrightarrow> P' u = P u" "P' t = b" "\<not> P t"
  shows "{u. P' u} = (if b then insert t {u. P u} else {u. P u})"
  using assms by (intro set_eqI, rename_tac u, case_tac "u = t") auto

lemma held_worker_inv:
  assumes step: "worker_step t p p'" and free: "\<not> serving S p t" and inv: "pool_inv n p" "held_inv S p"
  shows "held_inv S p'"
proof -
  have ok: "threads_ok p" and c: "card {t. serving S p t} = length (filter (\<lambda>w. w \<in> S) (started p))"
    using inv(2) by (simp_all add: held_inv_def)
  note fin = finite_subset [OF serving_threads [OF ok], of S, simplified]
  from worker_step_ok [OF step ok] inv(1) have ok': "threads_ok p'" "threads_count p' = threads_count p" "submitted p' = submitted p"
    by (auto simp: pool_inv_def)
  note other = serving_other [OF step inv(1), of _ S]
  from serving_self [OF step free] show ?thesis
  proof (elim disjE exE conjE)
    assume "started p' = started p" "\<not> serving S p' t"
    moreover have "{u. serving S p' u} = {u. serving S p u}"
      using joined [of t "serving S p'" "serving S p" False] other free \<open>\<not> serving S p' t\<close> by simp
    ultimately show ?thesis using inv(2) ok' by (simp add: held_inv_def)
  next
    fix w assume w: "started p' = started p @ [w]" "wpcs p t = WPop" "serving S p' t \<longleftrightarrow> w \<in> S"
    have "{u. serving S p' u} = (if w \<in> S then insert t {u. serving S p u} else {u. serving S p u})"
      using joined [of t "serving S p'" "serving S p" "w \<in> S"] other free w(3) by simp
    then have card: "card {u. serving S p' u} = length (filter (\<lambda>w. w \<in> S) (started p'))"
      using c fin free w(1) by simp
    have "length (started p') \<le> threads_count p" if all: "set (take (threads_count p) (submitted p)) \<subseteq> S"
    proof (rule ccontr)
      assume "\<not> ?thesis"
      then have len: "length (started p) = threads_count p" using inv(2) all w(1) by (auto simp: held_inv_def)
      have "set (started p) \<subseteq> S" by (subst started_first [OF inv(1)]) (simp only: len all)
      then have "filter (\<lambda>w. w \<in> S) (started p) = started p" by (auto simp: filter_id_conv)
      then have "card {t. serving S p t} = card {..<threads_count p}" using c len by simp
      then have "{t. serving S p t} = {..<threads_count p}"
        using serving_threads [OF ok] card_subset_eq finite_lessThan by metis
      moreover have "wpcs p t \<noteq> WExit" using w(2) by simp
      with ok have "t < threads_count p" unfolding threads_ok_def by blast
      ultimately show False using free by auto
    qed
    then show ?thesis using ok' card by (simp add: held_inv_def)
  qed
qed

lemma held_client_inv:
  assumes step: "client_step c p p'" and inv: "pool_inv n p" "held_inv S p"
  shows "held_inv S p'"
proof -
  have ok: "threads_ok p" using inv(2) by (simp add: held_inv_def)
  from client_step_ok [OF step ok] have ok': "threads_ok p'" "threads_count p' = threads_count p" "started p' = started p"
    and pre: "prefix (submitted p) (submitted p')" by blast+
  from pre have "set (take (threads_count p) (submitted p)) \<subseteq> set (take (threads_count p) (submitted p'))"
    by (auto simp: prefix_def)
  with inv(2) ok' serving_client [OF step inv(1), of S] show ?thesis by (auto simp: held_inv_def)
qed

lemma held_run_inv:
  assumes "held_run S n p" "0 < n"
  shows "held_inv S p"
  using assms(1)
proof (induction rule: held_run.induct)
  case (held_start np th p)
  with dispatched [OF held_start] show ?case by (simp add: held_inv_def)
next
  case (held_worker p t p')
  then show ?case using held_worker_inv pool_reachable_inv [OF held_reachable assms(2)] by blast
next
  case (held_client p c p')
  then show ?case using held_client_inv pool_reachable_inv [OF held_reachable assms(2)] by blast
qed

lemma held_starves:
  assumes "held_run S n p" "0 < n" "set (take (threads_count p) (submitted p)) \<subseteq> S"
  shows "length (started p) \<le> threads_count p \<and> set (started p) \<subseteq> S"
proof -
  have len: "length (started p) \<le> threads_count p" using held_run_inv [OF assms(1,2)] assms(3) by (simp add: held_inv_def)
  have "started p = take (length (started p)) (submitted p)"
    by (rule started_first [OF pool_reachable_inv [OF held_reachable [OF assms(1)] assms(2)]])
  then have "set (started p) \<subseteq> set (take (threads_count p) (submitted p))"
    using len set_take_subset_set_take by metis
  with len assms(3) show ?thesis by blast
qed

lemma held_room:
  assumes "held_run S n p" "0 < n" "length (filter (\<lambda>w. w \<in> S) (started p)) < threads_count p"
    "contents (workQueue p) \<noteq> []"
  shows "\<exists>t p'. t < threads_count p \<and> \<not> serving S p t \<and> worker_step t p p' \<and> held_run S n p'"
proof -
  have inv: "held_inv S p" by (rule held_run_inv [OF assms(1,2)])
  then have ok: "threads_ok p" and "card {t. serving S p t} < card {..<threads_count p}"
    using assms(3) by (simp_all add: held_inv_def)
  then have "\<not> {..<threads_count p} \<subseteq> {t. serving S p t}"
    using card_mono [OF finite_subset [OF serving_threads [OF ok, of S] finite_lessThan]] by (metis not_less)
  then obtain t where t: "t < threads_count p" "\<not> serving S p t" by auto
  then have "running p" "wpcs p t \<noteq> WExit" using ok by (simp_all add: threads_ok_def)
  from worker_enabled [OF pool_reachable_inv [OF held_reachable [OF assms(1)] assms(2)] this] assms(4)
  obtain p' where "worker_step t p p'" by blast
  with t held_worker [OF assms(1)] show ?thesis by blast
qed

subsection \<open>Handing work over\<close>

text \<open>A client with a free slot can hand over any work.\<close>

lemma held_submit:
  assumes run: "held_run S n p" "0 < n" and idle: "cpcs p c = CIdle" and slot: "contents (tasksQueue p) \<noteq> []"
  shows "\<exists>p'. held_run S n p' \<and> submitted p' = submitted p @ [w] \<and> cpcs p' c = CIdle \<and> threads_count p' = threads_count p \<and>
    length (contents (tasksQueue p')) = length (contents (tasksQueue p)) - 1"
proof -
  have ok: "threads_ok p" using held_run_inv [OF run] by (simp add: held_inv_def)
  then have r: "running p" by (simp add: threads_ok_def)
  have inv: "pool_inv n p" by (rule pool_reachable_inv [OF held_reachable [OF run(1)] run(2)])
  then have tq: "queue_ok (tasksQueue p)" using r by (simp add: pool_inv_def pool_wf_def queue_ok_def)
  from deq_enabled [OF tq slot] obtain i q where q: "queue_deq (tasksQueue p) = Some (i, q)" by blast
  let ?a = "p\<lparr>tasksQueue := q, cpcs := (cpcs p)(c := CFill i w)\<rparr>"
  have a: "held_run S n ?a" by (rule held_client [OF run(1) c_get [OF idle q]])
  let ?b = "?a\<lparr>tasks := (tasks ?a)[i := Some w], cpcs := (cpcs ?a)(c := CPush i w)\<rparr>"
  have b: "held_run S n ?b" by (rule held_client [OF a c_fill]) simp
  have invb: "pool_inv n ?b" by (rule pool_reachable_inv [OF held_reachable [OF b] run(2)])
  from push_enabled(1) [OF invb, of c i w] r obtain u where u: "queue_enq (workQueue ?b) i = Some u" by auto
  have al: "alive (workQueue p)" using inv r by (simp add: pool_inv_def pool_wf_def)
  let ?d = "?b\<lparr>workQueue := u, cpcs := (cpcs ?b)(c := CIdle),
      submitted := (if alive (workQueue ?b) then submitted ?b @ [w] else submitted ?b)\<rparr>"
  have "held_run S n ?d" by (rule held_client [OF b c_push [OF _ u]]) simp
  moreover have "length (contents q) = length (contents (tasksQueue p)) - 1" using ring.deq_SomeD [OF tq q] by simp
  ultimately show ?thesis using al by (intro exI [of _ ?d]) simp
qed

end
