(* ===== verification/Async.thy ===== *)
theory Async
  imports Prelude
begin

section \<open>Tasks (libs/async.c)\<close>

text \<open>
  A task runs a function of its argument, which may suspend with a value and be resumed, and returns a value. The
  function is the parameter \<open>func\<close>: from the argument, the values it suspends with and the one it
  returns. A saved context (\<open>callee_ctx\<close>) is what is left of the suspensions. The first part has each operation as a function on the task; the
  second interleaves a worker thread with a client; the third is the pool of stacks. The pool of threads that
  runs \<open>async_run\<close> and \<open>async_resume\<close> is in \<open>ThreadPool\<close>.
\<close>

datatype asyncState_t = AsyncUnborn | AsyncDead | AsyncRunning | AsyncSuspended | AsyncDetached

record 'a asyncTask_t =
  callee_ctx :: "'a list"
  ret :: 'a
  state :: asyncState_t
  cleaned :: nat

record 'a asyncYield_t =
  valid :: bool
  yield :: "'a option"

subsection \<open>The operations\<close>

definition async_task :: "'a \<Rightarrow> 'a asyncTask_t" where
  "async_task arg = \<lparr>callee_ctx = [], ret = arg, state = AsyncUnborn, cleaned = 0\<rparr>"

definition async_set_state :: "asyncState_t \<Rightarrow> 'a asyncTask_t \<Rightarrow> 'a asyncTask_t" where
  "async_set_state s t =
     (if s = AsyncRunning then t\<lparr>state := AsyncRunning\<rparr>
      else if state t \<noteq> AsyncDetached then t\<lparr>state := s\<rparr> else t)"

definition asyncTask_clean :: "'a asyncTask_t \<Rightarrow> 'a asyncTask_t" where
  "asyncTask_clean t = t\<lparr>cleaned := cleaned t + 1\<rparr>"

text \<open>Whether the context is left is the second result; a detached task goes on.\<close>

definition suspend :: "'a \<Rightarrow> 'a list \<Rightarrow> 'a asyncTask_t \<Rightarrow> 'a asyncTask_t \<times> bool" where
  "suspend y rest t =
     (if state t = AsyncDetached then (t\<lparr>ret := y\<rparr>, False)
      else (t\<lparr>ret := y, state := AsyncSuspended, callee_ctx := rest\<rparr>, True))"

text \<open>The code of the task from a point with the suspensions \<open>ys\<close> left, until it leaves its context.\<close>

fun run_code :: "'a \<Rightarrow> 'a list \<Rightarrow> 'a asyncTask_t \<Rightarrow> 'a asyncTask_t" where
  "run_code r [] t = async_set_state AsyncDead (t\<lparr>ret := r\<rparr>)"
| "run_code r (y # ys) t = (case suspend y ys t of (t', left) \<Rightarrow> if left then t' else run_code r ys t')"

definition async_entry :: "('a \<Rightarrow> 'a list \<times> 'a) \<Rightarrow> 'a asyncTask_t \<Rightarrow> 'a asyncTask_t" where
  "async_entry func t =
     (let t1 = (if state t \<noteq> AsyncDetached then t\<lparr>state := AsyncRunning\<rparr> else t);
          (ys, r) = func (ret t1)
      in run_code r ys t1)"

definition async_run :: "('a \<Rightarrow> 'a list \<times> 'a) \<Rightarrow> 'a asyncTask_t \<Rightarrow> 'a asyncTask_t" where
  "async_run func t =
     (let t1 = async_entry func t in
      if state t1 = AsyncDetached then asyncTask_clean t1
      else if state t1 \<noteq> AsyncDead \<and> state t1 \<noteq> AsyncSuspended then async_set_state AsyncSuspended t1
      else t1)"

definition async_resume :: "'a \<Rightarrow> 'a asyncTask_t \<Rightarrow> 'a asyncTask_t" where
  "async_resume r t = run_code r (callee_ctx t) t"

text \<open>The second result of \<open>resume\<close> and \<open>async_detach\<close> is whether they push an \<open>async_resume\<close> to the pool.\<close>

definition resume :: "'a asyncTask_t \<Rightarrow> 'a asyncTask_t \<times> bool" where
  "resume t = (if state t = AsyncSuspended then (t\<lparr>state := AsyncRunning\<rparr>, True) else (t, False))"

definition async_detach :: "'a asyncTask_t \<Rightarrow> 'a asyncTask_t \<times> bool" where
  "async_detach t =
     (if state t = AsyncDead then (asyncTask_clean t, False)
      else (t\<lparr>state := AsyncDetached\<rparr>, state t = AsyncSuspended))"

text \<open>One look of \<open>get_yield\<close> at the task; \<open>wait_yield\<close> looks again (\<open>None\<close>) while the task is unborn or running.\<close>

definition get_yield :: "'a asyncTask_t \<Rightarrow> 'a asyncTask_t \<times> 'a asyncYield_t \<times> asyncState_t" where
  "get_yield t =
     (if state t = AsyncSuspended then (t, \<lparr>valid = True, yield = Some (ret t)\<rparr>, AsyncSuspended)
      else if state t = AsyncDead then (asyncTask_clean t, \<lparr>valid = True, yield = Some (ret t)\<rparr>, AsyncDead)
      else (t, \<lparr>valid = False, yield = None\<rparr>, state t))"

definition wait_yield :: "'a asyncTask_t \<Rightarrow> ('a asyncTask_t \<times> 'a asyncYield_t \<times> asyncState_t) option" where
  "wait_yield t =
     (if state t = AsyncUnborn \<or> state t = AsyncRunning then None
      else if state t = AsyncSuspended then Some (t, \<lparr>valid = True, yield = Some (ret t)\<rparr>, AsyncSuspended)
      else if state t = AsyncDead then Some (asyncTask_clean t, \<lparr>valid = True, yield = Some (ret t)\<rparr>, AsyncDead)
      else Some (t, \<lparr>valid = False, yield = None\<rparr>, state t))"

text \<open>\<open>await\<close> resumes a suspended task on the calling thread; \<open>None\<close>: it waits for a worker.\<close>

function await :: "'a \<Rightarrow> 'a asyncTask_t \<Rightarrow> ('a asyncTask_t \<times> 'a asyncYield_t) option" where
  "await r t =
     (if state t = AsyncDead then Some (asyncTask_clean t, \<lparr>valid = False, yield = Some (ret t)\<rparr>)
      else if state t = AsyncSuspended then await r (async_resume r (t\<lparr>state := AsyncRunning\<rparr>))
      else None)"
  by pat_completeness auto
termination
proof (relation "measure (\<lambda>(r, t). if state t = AsyncSuspended then Suc (length (callee_ctx t)) else 0)")
  fix r :: 'a and t :: "'a asyncTask_t"
  assume s: "state t = AsyncSuspended"
  show "((r, async_resume r (t\<lparr>state := AsyncRunning\<rparr>)), (r, t)) \<in>
      measure (\<lambda>(r, t). if state t = AsyncSuspended then Suc (length (callee_ctx t)) else 0)"
    using s by (cases "callee_ctx t") (simp_all add: async_resume_def async_set_state_def suspend_def)
qed simp

declare await.simps [simp del]

text \<open>After the timed wait, or at once if the task is not running, \<open>wait_time\<close> looks at the state.\<close>

definition wait_time :: "int \<Rightarrow> 'a \<Rightarrow> 'a asyncTask_t \<Rightarrow> ('a asyncTask_t \<times> 'a asyncYield_t \<times> asyncState_t) option" where
  "wait_time ms r t =
     (if ms < 1 then map_option (\<lambda>(t', y). (t', y, AsyncDead)) (await r t)
      else if state t \<noteq> AsyncRunning then Some (t, \<lparr>valid = True, yield = Some (ret t)\<rparr>, state t)
      else Some (t, \<lparr>valid = False, yield = None\<rparr>, state t))"

subsection \<open>A task as a generator\<close>

text \<open>A client that reads a value and resumes the task until it is dead; the pool runs what is pushed.\<close>

fun read_all :: "nat \<Rightarrow> 'a \<Rightarrow> 'a asyncTask_t \<Rightarrow> ('a list \<times> 'a asyncTask_t) option" where
  "read_all 0 r t = None"
| "read_all (Suc n) r t =
     (case wait_yield t of
        None \<Rightarrow> None
      | Some (t1, y, s) \<Rightarrow>
          if \<not> valid y then None
          else if s = AsyncDead then Some ([the (yield y)], t1)
          else case resume t1 of (t2, pushed) \<Rightarrow>
            map_option (\<lambda>(vs, t'). (the (yield y) # vs, t')) (read_all n r (if pushed then async_resume r t2 else t2)))"

definition parked :: "'a \<Rightarrow> 'a list \<Rightarrow> 'a asyncTask_t" where
  "parked y ys = \<lparr>callee_ctx = ys, ret = y, state = AsyncSuspended, cleaned = 0\<rparr>"

lemma run_code_attached:
  "state t = AsyncRunning \<Longrightarrow> cleaned t = 0 \<Longrightarrow> run_code r ys t =
    (case ys of [] \<Rightarrow> t\<lparr>ret := r, state := AsyncDead\<rparr> | y # ys' \<Rightarrow> parked y ys')"
  by (cases ys) (simp_all add: async_set_state_def suspend_def parked_def)

lemma run_code_detached:
  "state t = AsyncDetached \<Longrightarrow> run_code r ys t = t\<lparr>ret := r\<rparr>"
  by (induction ys arbitrary: t) (simp_all add: async_set_state_def suspend_def)

lemma async_run_fresh:
  assumes "func arg = (ys, r)"
  shows "async_run func (async_task arg) =
    (case ys of [] \<Rightarrow> (async_task arg)\<lparr>ret := r, state := AsyncDead\<rparr> | y # ys' \<Rightarrow> parked y ys')"
proof -
  let ?t = "(async_task arg)\<lparr>state := AsyncRunning\<rparr>"
  have "async_entry func (async_task arg) = run_code r ys ?t"
    using assms by (simp add: async_entry_def async_task_def)
  also have "\<dots> = (case ys of [] \<Rightarrow> ?t\<lparr>ret := r, state := AsyncDead\<rparr> | y # ys' \<Rightarrow> parked y ys')"
    by (rule run_code_attached) (simp_all add: async_task_def)
  finally show ?thesis by (cases ys) (simp_all add: async_run_def parked_def)
qed

lemma await_parked:
  "\<exists>t'. await r (parked y ys) = Some (t', \<lparr>valid = False, yield = Some r\<rparr>) \<and> cleaned t' = 1"
proof (induction ys arbitrary: y)
  case Nil
  then show ?case
    by (simp add: await.simps [of r] parked_def async_resume_def async_set_state_def asyncTask_clean_def)
next
  case (Cons z zs)
  have "async_resume r ((parked y (z # zs))\<lparr>state := AsyncRunning\<rparr>) = parked z zs"
    by (simp add: async_resume_def suspend_def parked_def)
  then have "await r (parked y (z # zs)) = await r (parked z zs)"
    by (subst await.simps) (simp add: parked_def)
  with Cons show ?case by simp
qed

lemma read_all_parked:
  "length ys + 2 \<le> n \<Longrightarrow>
    \<exists>t'. read_all n r (parked y ys) = Some (y # ys @ [r], t') \<and> cleaned t' = 1"
proof (induction ys arbitrary: y n)
  case Nil
  then obtain m where "n = Suc (Suc m)" by (metis add_2_eq_Suc' le_Suc_ex list.size(3) add_cancel_left_left add_Suc)
  then show ?case
    by (simp add: wait_yield_def resume_def parked_def async_resume_def async_set_state_def asyncTask_clean_def)
next
  case (Cons z zs)
  then obtain m where n: "n = Suc m" "length zs + 2 \<le> m" by (cases n) auto
  have "async_resume r ((parked y (z # zs))\<lparr>state := AsyncRunning\<rparr>) = parked z zs"
    by (simp add: async_resume_def suspend_def parked_def)
  with Cons.IH [OF n(2), of z] n(1) show ?case
    by (auto simp: wait_yield_def resume_def parked_def)
qed


subsection \<open>A worker and a client\<close>

text \<open>
  The interleavings for a function that does not suspend, as all the functions this program runs. The steps are
  the accesses to the shared task. The worker executes \<open>async_run\<close>: \<open>Queued\<close>, then
  the test of line 93 without the lock, the write that follows, the function and its \<open>ret\<close>, the locked
  \<open>async_set_state\<close> up to its last write, the rest of the unlocking, and the test behind
  \<open>swapcontext\<close>. The client either awaits or detaches. \<open>stale\<close>: a thread has used the task
  after it was freed; what it read is taken to be still there.
\<close>

datatype run_pc = Queued | EntryTested | InFunc | Returned | Unlocking | RunTail | RunDone

datatype 'a client_pc = Awaiting | Awaited 'a | Detaching | Detached

record 'a sys =
  task :: "'a asyncTask_t"
  runner :: run_pc
  client :: "'a client_pc"
  stale :: bool

definition touch :: "'a sys \<Rightarrow> bool" where
  "touch s \<longleftrightarrow> stale s \<or> 0 < cleaned (task s)"

definition run_next :: "('a \<Rightarrow> 'a) \<Rightarrow> 'a sys \<Rightarrow> 'a sys option" where
  "run_next f s =
     (case runner s of
        Queued \<Rightarrow> Some (s\<lparr>runner := (if state (task s) \<noteq> AsyncDetached then EntryTested else InFunc), stale := touch s\<rparr>)
      | EntryTested \<Rightarrow> Some (s\<lparr>task := (task s)\<lparr>state := AsyncRunning\<rparr>, runner := InFunc, stale := touch s\<rparr>)
      | InFunc \<Rightarrow> Some (s\<lparr>task := (task s)\<lparr>ret := f (ret (task s))\<rparr>, runner := Returned, stale := touch s\<rparr>)
      | Returned \<Rightarrow> Some (s\<lparr>task := async_set_state AsyncDead (task s), runner := Unlocking, stale := touch s\<rparr>)
      | Unlocking \<Rightarrow> Some (s\<lparr>runner := RunTail, stale := touch s\<rparr>)
      | RunTail \<Rightarrow> Some (s\<lparr>task := (if state (task s) = AsyncDetached then asyncTask_clean (task s)
            else if state (task s) \<noteq> AsyncDead \<and> state (task s) \<noteq> AsyncSuspended
              then async_set_state AsyncSuspended (task s)
            else task s), runner := RunDone, stale := touch s\<rparr>)
      | RunDone \<Rightarrow> None)"

text \<open>\<open>await\<close> reads the state without the lock; the lock that \<open>async_detach\<close> takes is busy while the worker unlocks.\<close>

definition client_next :: "'a sys \<Rightarrow> 'a sys option" where
  "client_next s =
     (case client s of
        Awaiting \<Rightarrow> Some (case await (ret (task s)) (task s) of
            None \<Rightarrow> s\<lparr>stale := touch s\<rparr>
          | Some (t, y) \<Rightarrow> s\<lparr>task := t, client := Awaited (the (yield y)), stale := touch s\<rparr>)
      | Detaching \<Rightarrow>
          if runner s = Unlocking then None
          else Some (s\<lparr>task := fst (async_detach (task s)), client := Detached, stale := touch s\<rparr>)
      | _ \<Rightarrow> None)"

definition async_start :: "'a \<Rightarrow> 'a client_pc \<Rightarrow> 'a sys" where
  "async_start arg c = \<lparr>task = async_task arg, runner = Queued, client = c, stale = False\<rparr>"

inductive async_steps :: "('a \<Rightarrow> 'a) \<Rightarrow> 'a sys \<Rightarrow> 'a sys \<Rightarrow> bool" for f where
  refl: "async_steps f s s"
| run: "async_steps f s s1 \<Longrightarrow> run_next f s1 = Some s2 \<Longrightarrow> async_steps f s s2"
| client: "async_steps f s s1 \<Longrightarrow> client_next s1 = Some s2 \<Longrightarrow> async_steps f s s2"

text \<open>The state that goes with each place of the worker, for a client that awaits.\<close>

fun place_state :: "run_pc \<Rightarrow> asyncState_t" where
  "place_state Queued = AsyncUnborn" | "place_state EntryTested = AsyncUnborn"
| "place_state InFunc = AsyncRunning" | "place_state Returned = AsyncRunning"
| "place_state Unlocking = AsyncDead" | "place_state RunTail = AsyncDead" | "place_state RunDone = AsyncDead"

fun place_ret :: "run_pc \<Rightarrow> 'a \<Rightarrow> 'a \<Rightarrow> 'a" where
  "place_ret Queued x y = x" | "place_ret EntryTested x y = x" | "place_ret InFunc x y = x"
| "place_ret Returned x y = y" | "place_ret Unlocking x y = y" | "place_ret RunTail x y = y" | "place_ret RunDone x y = y"

definition await_inv :: "'a \<Rightarrow> ('a \<Rightarrow> 'a) \<Rightarrow> 'a sys \<Rightarrow> bool" where
  "await_inv arg f s \<longleftrightarrow>
     state (task s) = place_state (runner s) \<and> ret (task s) = place_ret (runner s) arg (f arg) \<and>
     (case client s of
        Awaiting \<Rightarrow> cleaned (task s) = 0 \<and> \<not> stale s
      | Awaited v \<Rightarrow> v = f arg \<and> cleaned (task s) = 1 \<and> state (task s) = AsyncDead
      | _ \<Rightarrow> False)"

lemma await_look: "state t \<noteq> AsyncSuspended \<Longrightarrow> await r t =
    (if state t = AsyncDead then Some (asyncTask_clean t, \<lparr>valid = False, yield = Some (ret t)\<rparr>) else None)"
  by (simp add: await.simps)

lemma await_inv_run: "await_inv arg f s \<Longrightarrow> run_next f s = Some s' \<Longrightarrow> await_inv arg f s'"
  by (cases "runner s"; cases "client s") (auto simp: await_inv_def run_next_def touch_def async_set_state_def)

lemma await_inv_client: "await_inv arg f s \<Longrightarrow> client_next s = Some s' \<Longrightarrow> await_inv arg f s'"
  by (cases "runner s"; cases "client s")
    (auto simp: await_inv_def client_next_def touch_def await_look asyncTask_clean_def)

lemma await_inv_steps: "async_steps f s s' \<Longrightarrow> await_inv arg f s \<Longrightarrow> await_inv arg f s'"
  by (induction rule: async_steps.induct) (auto intro: await_inv_run await_inv_client)

lemma await_inv_start: "await_inv arg f (async_start arg Awaiting)"
  by (simp add: await_inv_def async_start_def async_task_def)

lemma steps_trans: "async_steps f s1 s2 \<Longrightarrow> async_steps f s s1 \<Longrightarrow> async_steps f s s2"
  by (induction rule: async_steps.induct) (auto intro: async_steps.intros)

text \<open>A schedule: whose turn it is, the worker's (true) or the client's.\<close>

fun schedule :: "('a \<Rightarrow> 'a) \<Rightarrow> bool list \<Rightarrow> 'a sys \<Rightarrow> 'a sys option" where
  "schedule f [] s = Some s"
| "schedule f (b # bs) s =
     (case if b then run_next f s else client_next s of None \<Rightarrow> None | Some s' \<Rightarrow> schedule f bs s')"

lemma schedule_steps: "schedule f bs s = Some s' \<Longrightarrow> async_steps f s s'"
proof (induction bs arbitrary: s)
  case (Cons b bs)
  then obtain s1 where s1: "(if b then run_next f s else client_next s) = Some s1" "schedule f bs s1 = Some s'"
    by (auto split: option.splits)
  have "async_steps f s s1" using s1(1) by (cases b) (auto intro: async_steps.intros)
  with steps_trans [OF Cons.IH [OF s1(2)]] show ?case by blast
qed (simp add: async_steps.refl)

text \<open>How many steps the worker has before it.\<close>

fun run_left :: "run_pc \<Rightarrow> nat" where
  "run_left Queued = 6" | "run_left EntryTested = 5" | "run_left InFunc = 4" | "run_left Returned = 3"
| "run_left Unlocking = 2" | "run_left RunTail = 1" | "run_left RunDone = 0"

lemma run_to_end: "\<exists>s'. async_steps f s s' \<and> runner s' = RunDone \<and> client s' = client s"
proof (induction "run_left (runner s)" arbitrary: s rule: less_induct)
  case less
  show ?case
  proof (cases "runner s = RunDone")
    case False
    then have "\<exists>s1. run_next f s = Some s1 \<and> run_left (runner s1) < run_left (runner s) \<and> client s1 = client s"
      by (cases "runner s") (auto simp: run_next_def)
    then obtain s1 where s1: "run_next f s = Some s1" "run_left (runner s1) < run_left (runner s)" "client s1 = client s" by blast
    from less [OF s1(2)] obtain s' where s': "async_steps f s1 s'" "runner s' = RunDone" "client s' = client s1" by blast
    have "async_steps f s s1" by (rule async_steps.run [OF async_steps.refl s1(1)])
    from steps_trans [OF s'(1) this] s' s1(3) show ?thesis by auto
  qed (auto intro: async_steps.refl)
qed

text \<open>A client that detaches.\<close>

definition detach_inv :: "'a sys \<Rightarrow> bool" where
  "detach_inv s \<longleftrightarrow>
     (case client s of
        Detaching \<Rightarrow> cleaned (task s) = 0 \<and> \<not> stale s \<and> state (task s) = place_state (runner s)
      | Detached \<Rightarrow>
          if state (task s) = AsyncDetached
          then cleaned (task s) = (if runner s = RunDone then 1 else 0) \<and> \<not> stale s
          else if runner s \<in> {InFunc, Returned} then state (task s) = AsyncRunning \<and> cleaned (task s) = 0 \<and> \<not> stale s
          else runner s \<in> {Unlocking, RunTail, RunDone} \<and> state (task s) = AsyncDead \<and> cleaned (task s) \<le> 1
      | _ \<Rightarrow> False)"

lemma detach_inv_run: "detach_inv s \<Longrightarrow> run_next f s = Some s' \<Longrightarrow> detach_inv s'"
  by (cases "runner s"; cases "client s")
    (auto simp: detach_inv_def run_next_def touch_def async_set_state_def asyncTask_clean_def split: if_splits)

lemma detach_inv_client: "detach_inv s \<Longrightarrow> client_next s = Some s' \<Longrightarrow> detach_inv s'"
  by (cases "runner s"; cases "client s")
    (auto simp: detach_inv_def client_next_def touch_def async_detach_def asyncTask_clean_def split: if_splits)

lemma detach_inv_steps: "async_steps f s s' \<Longrightarrow> detach_inv s \<Longrightarrow> detach_inv s'"
  by (induction rule: async_steps.induct) (auto intro: detach_inv_run detach_inv_client)

subsection \<open>The pool of stacks\<close>

text \<open>\<open>mmap\<close> gives the mappings numbers in the order they are made.\<close>

record stacks =
  sps :: "nat option list"
  mapped :: nat

definition stacks_start :: stacks where
  "stacks_start = \<lparr>sps = [Some 0, Some 1], mapped = 2\<rparr>"

definition async_get_stack :: "stacks \<Rightarrow> nat \<times> stacks" where
  "async_get_stack p =
     (let i = first_index (\<lambda>x. x \<noteq> None) (sps p); n = length (sps p) in
      if i < n then (the (sps p ! i), p\<lparr>sps := (sps p)[i := None]\<rparr>)
      else (mapped p + (n - 1),
        \<lparr>sps = sps p @ None # map Some [mapped p..<mapped p + (n - 1)], mapped = mapped p + n\<rparr>))"

definition async_free_stack :: "nat \<Rightarrow> stacks \<Rightarrow> stacks" where
  "async_free_stack sp p =
     (let i = first_index (\<lambda>x. x = None) (sps p) in
      if i < length (sps p) then p\<lparr>sps := (sps p)[i := Some sp]\<rparr> else p)"


text \<open>What the tasks rely on: an allocator with the resources it has given out (\<open>u\<close>) and still has.\<close>

datatype alloc_op = Get | Put nat

fun alloc_run :: "('s \<Rightarrow> 'r \<times> 's) \<Rightarrow> ('r \<Rightarrow> 's \<Rightarrow> 's) \<Rightarrow> 's \<Rightarrow> 'r list \<Rightarrow> alloc_op list \<Rightarrow> 's \<times> 'r list" where
  "alloc_run get put s u [] = (s, u)"
| "alloc_run get put s u (Get # ops) = (case get s of (r, s') \<Rightarrow> alloc_run get put s' (r # u) ops)"
| "alloc_run get put s u (Put i # ops) =
     (if i < length u then alloc_run get put (put (u ! i) s) (remove1 (u ! i) u) ops
      else alloc_run get put s u ops)"

locale allocator =
  fixes ok :: "'s \<Rightarrow> 'r list \<Rightarrow> bool"
    and get :: "'s \<Rightarrow> 'r \<times> 's"
    and put :: "'r \<Rightarrow> 's \<Rightarrow> 's"
    and kept :: "'s \<Rightarrow> 'r list"
  assumes get_ok: "ok s u \<Longrightarrow> get s = (r, s') \<Longrightarrow> ok s' (r # u)"
    and put_ok: "ok s u \<Longrightarrow> r \<in> set u \<Longrightarrow> ok (put r s) (remove1 r u)"
    and ok_distinct: "ok s u \<Longrightarrow> distinct (u @ kept s)"
begin

lemma run_ok: "ok s u \<Longrightarrow> alloc_run get put s u ops = (s', u') \<Longrightarrow> ok s' u'"
proof (induction ops arbitrary: s u)
  case (Cons x ops)
  show ?case
  proof (cases x)
    case Get
    obtain r s1 where r: "get s = (r, s1)" by (cases "get s")
    show ?thesis by (rule Cons.IH [OF get_ok [OF Cons.prems(1) r]]) (use Cons.prems(2) Get r in simp)
  next
    case (Put i)
    show ?thesis
    proof (cases "i < length u")
      case True
      show ?thesis by (rule Cons.IH [OF put_ok [OF Cons.prems(1) nth_mem [OF True]]]) (use Cons.prems(2) Put True in simp)
    qed (use Cons Put in simp)
  qed
qed simp

lemma run_distinct: "ok s u \<Longrightarrow> alloc_run get put s u ops = (s', u') \<Longrightarrow> distinct (u' @ kept s')"
  by (rule ok_distinct [OF run_ok])

end

definition pooled :: "stacks \<Rightarrow> nat list" where
  "pooled p = map the (filter (\<lambda>x. x \<noteq> None) (sps p))"

text \<open>Every mapping ever made is given out or pooled, once, and there is a slot for each.\<close>

definition stacks_ok :: "stacks \<Rightarrow> nat list \<Rightarrow> bool" where
  "stacks_ok p u \<longleftrightarrow> 0 < mapped p \<and> length (sps p) = mapped p \<and> distinct (u @ pooled p) \<and>
     set (u @ pooled p) = {..<mapped p}"

lemma first_index_split:
  assumes "first_index P xs < length xs"
  shows "xs = take (first_index P xs) xs @ xs ! first_index P xs # drop (Suc (first_index P xs)) xs"
    and "\<forall>x \<in> set (take (first_index P xs) xs). \<not> P x"
  using id_take_nth_drop [OF assms] by (auto simp: first_index_def takeWhile_eq_take [symmetric] dest: set_takeWhileD)

lemma first_index_none: "\<not> first_index P xs < length xs \<Longrightarrow> \<forall>x \<in> set xs. \<not> P x"
  unfolding first_index_def
  by (metis (mono_tags, lifting) takeWhile_eq_take length_takeWhile_le nat_less_le not_less set_takeWhileD take_all)

lemma stacks_full: "stacks_ok p u \<Longrightarrow> length u + length (pooled p) = mapped p"
  by (metis stacks_ok_def card_lessThan distinct_card length_append)

lemma get_stack_ok:
  assumes "stacks_ok p u" "async_get_stack p = (sp, p')"
  shows "stacks_ok p' (sp # u)"
proof (cases "first_index (\<lambda>x. x \<noteq> None) (sps p) < length (sps p)")
  case True
  let ?i = "first_index (\<lambda>x. x \<noteq> None) (sps p)"
  note s = first_index_split [OF True]
  have none: "filter (\<lambda>x. x \<noteq> None) (take ?i (sps p)) = []" using s(2) by (simp add: filter_empty_conv)
  have x: "sps p ! ?i \<noteq> None" by (rule first_index_P [OF True])
  have p': "p' = p\<lparr>sps := (sps p)[?i := None]\<rparr>" "sp = the (sps p ! ?i)"
    using assms(2) True by (simp_all add: async_get_stack_def Let_def)
  have "pooled p = sp # map the (filter (\<lambda>x. x \<noteq> None) (drop (Suc ?i) (sps p)))"
    unfolding pooled_def using x by (subst s(1)) (simp add: none p' del: not_None_eq)
  moreover have "pooled p' = map the (filter (\<lambda>x. x \<noteq> None) (drop (Suc ?i) (sps p)))"
    using True by (simp add: pooled_def p' upd_conv_take_nth_drop none del: not_None_eq)
  ultimately show ?thesis using assms(1) by (auto simp: stacks_ok_def p')
next
  case False
  let ?n = "length (sps p)"
  have none: "\<forall>x \<in> set (sps p). x = None" using first_index_none [OF False] by simp
  then have p: "pooled p = []" by (simp add: pooled_def filter_empty_conv)
  have p': "p' = \<lparr>sps = sps p @ None # map Some [mapped p..<mapped p + (?n - 1)], mapped = mapped p + ?n\<rparr>"
    "sp = mapped p + (?n - 1)" using assms(2) False by (auto simp: async_get_stack_def Let_def)
  have "pooled p' = [mapped p..<mapped p + (?n - 1)]"
    using none by (simp add: pooled_def p' filter_map comp_def filter_empty_conv)
  moreover have u: "set u = {..<mapped p}" "distinct u" "?n = mapped p" "0 < ?n"
    using assms(1) p by (simp_all add: stacks_ok_def)
  moreover obtain k where k: "mapped p = Suc k" using u(3,4) by (cases "mapped p") simp_all
  ultimately have q: "pooled p' = [Suc k..<Suc k + k]" "sp = Suc k + k" "mapped p' = Suc k + Suc k"
    "length (sps p') = Suc k + Suc k" "set u = {..<Suc k}" by (simp_all add: p')
  have "set ((sp # u) @ pooled p') = {..<Suc k + Suc k}" unfolding set_append list.set q set_upt by auto
  moreover have "distinct ((sp # u) @ pooled p')" using u(2) unfolding q by (auto simp: q(5))
  ultimately show ?thesis using q by (simp only: stacks_ok_def zero_less_Suc add_Suc)
qed

lemma free_stack_ok:
  assumes "stacks_ok p u" "sp \<in> set u"
  shows "stacks_ok (async_free_stack sp p) (remove1 sp u)"
proof -
  let ?P = "\<lambda>x. x = (None :: nat option)"
  let ?i = "first_index ?P (sps p)"
  have some: "?i < length (sps p)"
  proof (rule ccontr)
    assume "\<not> ?i < length (sps p)"
    then have "\<forall>x \<in> set (sps p). x \<noteq> None" by (rule first_index_none)
    then have "filter (\<lambda>x. x \<noteq> None) (sps p) = sps p" by simp
    then have "length (pooled p) = mapped p" using assms(1) by (simp add: pooled_def stacks_ok_def)
    with stacks_full [OF assms(1)] assms(2) show False by simp
  qed
  note s = first_index_split [OF some]
  define a b where "a = map the (filter (\<lambda>x. x \<noteq> None) (take ?i (sps p)))"
    and "b = map the (filter (\<lambda>x. x \<noteq> None) (drop (Suc ?i) (sps p)))"
  have "sps p ! ?i = None" using first_index_P [OF some] by simp
  then have "pooled p = a @ b" unfolding pooled_def a_def b_def by (subst s(1)) simp
  moreover have "pooled (async_free_stack sp p) = a @ sp # b"
    using some by (simp add: pooled_def async_free_stack_def Let_def upd_conv_take_nth_drop a_def b_def)
  moreover have "length (sps (async_free_stack sp p)) = length (sps p)" "mapped (async_free_stack sp p) = mapped p"
    by (simp_all add: async_free_stack_def Let_def)
  moreover have "distinct (u @ a @ b)" "set (u @ a @ b) = {..<mapped p}" using assms(1) \<open>pooled p = a @ b\<close>
    by (simp_all add: stacks_ok_def)
  ultimately show ?thesis using assms by (auto simp: stacks_ok_def set_remove1_eq)
qed

interpretation stack: allocator stacks_ok async_get_stack async_free_stack pooled
proof unfold_locales
  show "distinct (u @ pooled p)" if "stacks_ok p u" for p u using that by (simp add: stacks_ok_def)
qed (rule get_stack_ok free_stack_ok; assumption)+

lemma stacks_start_ok: "stacks_ok stacks_start []"
  by (auto simp: stacks_ok_def stacks_start_def pooled_def)

subsection \<open>Properties\<close>

text \<open>A task is a generator: a client that reads its values with \<open>wait_yield\<close> and resumes it
  gets every value the function suspends with, in order, and then the one it returns, and the task is cleaned
  once; a client that awaits it gets the returned value (in an answer marked not valid) whatever the suspensions.\<close>

theorem task_generates:
  assumes "func arg = (ys, r)"
  shows "(\<exists>t. read_all (length ys + 1) r (async_run func (async_task arg)) = Some (ys @ [r], t) \<and> cleaned t = 1) \<and>
    (\<exists>t. await r (async_run func (async_task arg)) = Some (t, \<lparr>valid = False, yield = Some r\<rparr>) \<and> cleaned t = 1)"
proof (cases ys)
  case Nil
  then show ?thesis unfolding async_run_fresh [of func, OF assms]
    by (simp add: wait_yield_def async_task_def asyncTask_clean_def await.simps)
next
  case (Cons y zs)
  then show ?thesis unfolding async_run_fresh [of func, OF assms]
    using read_all_parked [of zs "length ys + 1" r y] await_parked [of r y zs] by simp
qed

theorem task_generates_witness:
  "\<exists>t. read_all 3 9 (async_run (\<lambda>x. ([x, x + 1], 9)) (async_task (5 :: nat))) = Some ([5, 6, 9], t)"
  using task_generates [of "\<lambda>x. ([x, x + 1], 9)" "5 :: nat" "[5, 6]" 9] by (auto simp: numeral_3_eq_3)



text \<open>Property C18. A detached task is cleaned at most once and never before its function has returned; but
  it is not always cleaned: the test in \<open>async_entry\<close> is not under the lock, so a detach that comes
  between it and the write is overwritten, and a task that is detached while it is suspended is finished by
  \<open>async_resume\<close>, which does not clean. Its stack and its memory are then lost.\<close>

theorem detached_task_leaks:
  "(\<forall>s. async_steps f (async_start arg Detaching) s \<longrightarrow>
      cleaned (task s) \<le> 1 \<and> (runner s \<in> {Queued, EntryTested, InFunc, Returned} \<longrightarrow> cleaned (task s) = 0)) \<and>
   (\<exists>s. async_steps f (async_start arg Detaching) s \<and> runner s = RunDone \<and> client s = Detached \<and> cleaned (task s) = 0) \<and>
   async_detach (parked y ys) = ((parked y ys)\<lparr>state := AsyncDetached\<rparr>, True) \<and>
   cleaned (async_resume r ((parked y ys)\<lparr>state := AsyncDetached\<rparr>)) = 0"
proof (intro conjI allI impI)
  have start: "detach_inv (async_start arg Detaching)" by (simp add: detach_inv_def async_start_def async_task_def)
  fix s assume "async_steps f (async_start arg Detaching) s"
  then have "detach_inv s" using start by (rule detach_inv_steps)
  then show "cleaned (task s) \<le> 1" "runner s \<in> {Queued, EntryTested, InFunc, Returned} \<Longrightarrow> cleaned (task s) = 0"
    by (auto simp: detach_inv_def split: client_pc.splits if_splits)
next
  have "\<exists>s. schedule f [True, False, True, True, True, True, True] (async_start arg Detaching) = Some s \<and>
      runner s = RunDone \<and> client s = Detached \<and> cleaned (task s) = 0"
    by (simp add: run_next_def client_next_def async_start_def async_task_def async_detach_def async_set_state_def)
  then show "\<exists>s. async_steps f (async_start arg Detaching) s \<and> runner s = RunDone \<and> client s = Detached \<and> cleaned (task s) = 0"
    using schedule_steps by blast
next
  show "async_detach (parked y ys) = ((parked y ys)\<lparr>state := AsyncDetached\<rparr>, True)"
    by (simp add: async_detach_def parked_def)
  show "cleaned (async_resume r ((parked y ys)\<lparr>state := AsyncDetached\<rparr>)) = 0"
    by (simp add: async_resume_def run_code_detached, simp add: parked_def)
qed

theorem detached_task_leaks_witness:
  "cleaned (task (async_start (4 :: nat) Detaching)) \<le> 1 \<and>
   (\<exists>s. async_steps Suc (async_start 4 Detaching) s \<and> runner s = RunDone \<and> cleaned (task s) = 0)"
proof -
  note leaks = detached_task_leaks [of Suc 4 0 "[]" 0]
  have "cleaned (task (async_start (4 :: nat) Detaching)) \<le> 1"
    using spec [OF conjunct1 [OF leaks], of "async_start 4 Detaching"] async_steps.refl [of Suc "async_start 4 Detaching"] by simp
  moreover have "\<exists>s. async_steps Suc (async_start 4 Detaching) s \<and> runner s = RunDone \<and> cleaned (task s) = 0"
    using conjunct1 [OF conjunct2 [OF leaks]] by auto
  ultimately show ?thesis ..
qed

text \<open>A task can be freed while a worker still uses it: as soon as the state is dead an awaiting client
  cleans the task, and the worker has yet to release its lock and to test its state in \<open>async_run\<close>.\<close>

theorem task_freed_under_worker:
  "\<exists>s. async_steps f (async_start arg Awaiting) s \<and> cleaned (task s) = 1 \<and> runner s = Unlocking \<and>
     (\<exists>s'. run_next f s = Some s' \<and> stale s')"
proof -
  have "\<exists>s. schedule f [True, True, True, True, False] (async_start arg Awaiting) = Some s \<and>
      cleaned (task s) = 1 \<and> runner s = Unlocking \<and> (\<exists>s'. run_next f s = Some s' \<and> stale s')"
    by (simp add: run_next_def client_next_def async_start_def async_task_def async_set_state_def await_look
        asyncTask_clean_def touch_def)
  then show ?thesis using schedule_steps by blast
qed

text \<open>Property C19. No stack is lost or shared: after any sequence of tasks taking stacks and giving them back, every
  mapping ever made is either given to one task or in the pool, once, and the pool has a slot for each.\<close>

theorem stacks_conserved:
  assumes "alloc_run async_get_stack async_free_stack stacks_start [] ops = (p, u)"
  shows "distinct (u @ pooled p) \<and> set (u @ pooled p) = {..<mapped p} \<and> length (sps p) = mapped p"
  using stack.run_ok [OF stacks_start_ok assms] by (simp add: stacks_ok_def)

theorem stacks_conserved_witness:
  "\<exists>p. alloc_run async_get_stack async_free_stack stacks_start [] [Get, Get, Get, Put 1] = (p, [3, 0]) \<and>
     set ([3, 0] @ pooled p) = {..<4}"
  using stacks_conserved [of "[Get, Get, Get, Put 1]"]
  by (auto simp: async_get_stack_def async_free_stack_def stacks_start_def first_index_def Let_def pooled_def)

end
