(* ===== verification/AsyncEngine.thy ===== *)
theory AsyncEngine
  imports Async ThreadPool
begin

section \<open>The engine of the tasks (libs/async.c)\<close>

text \<open>
  \<open>async_ctrl\<close>: the pool of threads that runs the tasks and the pool of their stacks. The start creates and
  dispatches the one and maps two stacks for the other; \<open>nprocs\<close> is the number of processors. The result
  \<open>None\<close> is a creation that blocks; mapping memory is taken to succeed.
\<close>

datatype EAsync_t = EAsync_Success | EAsync_Busy | EAsync_Mem | EAsync_Error

record 'w async_ctrl =
  engine_running :: bool
  engine_threads :: "'w pool option"
  engine_stacks :: stacks

definition async_ctrl :: "'w async_ctrl" where
  "async_ctrl = \<lparr>engine_running = False, engine_threads = None, engine_stacks = \<lparr>sps = [], mapped = 0\<rparr>\<rparr>"

definition async_engine_start :: "nat \<Rightarrow> nat \<Rightarrow> 'w async_ctrl \<Rightarrow> ('w async_ctrl \<times> EAsync_t) option" where
  "async_engine_start nprocs n c =
     (if engine_running c then Some (c, EAsync_Busy)
      else map_option (\<lambda>p. (c\<lparr>engine_threads := Some (threadPool_dispach p), engine_stacks := stacks_start,
             engine_running := True\<rparr>, EAsync_Success)) (threadPool_create nprocs 0 n))"

text \<open>\<open>async\<close> hands the new task to the pool; without a running engine it returns NULL.\<close>

definition async :: "'a \<Rightarrow> 'w async_ctrl \<Rightarrow> 'a asyncTask_t option" where
  "async arg c = (if engine_running c then Some (async_task arg) else None)"

text \<open>The second result of the stop is the stacks that it unmaps.\<close>

definition async_engine_stop :: "'w async_ctrl \<Rightarrow> 'w async_ctrl \<times> nat list" where
  "async_engine_stop c =
     (if \<not> engine_running c \<and> engine_threads c = None then (c, [])
      else (c\<lparr>engine_threads := None, engine_running := False\<rparr>, pooled (engine_stacks c)))"

text \<open>The default size of the queues is twice the number of threads.\<close>

lemma create_default_size:
  "threadPool_create np 0 th = threadPool_create np (default_threads np th * 2) th"
  by (simp add: threadPool_create_def default_size_def Let_def)

lemma create_default:
  assumes "0 < default_threads np th"
  shows "\<exists>p. threadPool_create np 0 th = Some p \<and> pool_reachable (default_threads np th * 2) (threadPool_dispach p)"
proof -
  let ?n = "default_threads np th * 2"
  have "\<exists>p. threadPool_create np ?n th = Some p"
    using ring.enq_all_room [of "queue_create ?n" "[0..<?n]"] assms
    by (auto simp: threadPool_create_def default_size_def Let_def)
  then show ?thesis unfolding create_default_size using pool_reachable.pool_start by blast
qed

subsection \<open>Properties\<close>

text \<open>Started with at least one thread the engine is ready: its threads run on a pool with two slots
  for each, for which every property of the pool holds, it has its first stacks, and a second
  start changes nothing. When it is stopped after any sequence of tasks it unmaps exactly the stacks that no
  task holds: those of unfinished and of leaked tasks stay mapped.\<close>

theorem engine_lifecycle:
  fixes c :: "'w async_ctrl"
  assumes "\<not> engine_running c" "0 < default_threads nprocs n"
  shows "\<exists>c' p. async_engine_start nprocs n c = Some (c', EAsync_Success) \<and> engine_threads c' = Some p \<and>
    pool_reachable (default_threads nprocs n * 2) p \<and> running p \<and> threads_count p = default_threads nprocs n \<and>
    async_engine_start nprocs n c' = Some (c', EAsync_Busy) \<and> async arg c = None \<and> async arg c' = Some (async_task arg) \<and>
    (case alloc_run async_get_stack async_free_stack (engine_stacks c') [] ops of (st, u) \<Rightarrow>
       case async_engine_stop (c'\<lparr>engine_stacks := st\<rparr>) of (c'', gone) \<Rightarrow>
         \<not> engine_running c'' \<and> distinct gone \<and> {..<mapped st} - set gone = set u)"
proof -
  obtain p :: "'w pool" where p: "threadPool_create nprocs 0 n = Some p"
    "pool_reachable (default_threads nprocs n * 2) (threadPool_dispach p)" using create_default [OF assms(2)] by blast
  obtain st u where run: "alloc_run async_get_stack async_free_stack stacks_start [] ops = (st, u)" by fastforce
  have "stacks_ok st u" by (rule stack.run_ok [OF stacks_start_ok run])
  then have "distinct (pooled st)" "{..<mapped st} - set (pooled st) = set u" unfolding stacks_ok_def by auto
  moreover have "threads_count p = default_threads nprocs n"
    using p(1) by (auto simp: threadPool_create_def Let_def split: option.splits)
  ultimately show ?thesis using assms(1) p run
    by (intro exI [of _ "c\<lparr>engine_threads := Some (threadPool_dispach p), engine_stacks := stacks_start,
          engine_running := True\<rparr>"] exI [of _ "threadPool_dispach p"])
      (simp add: async_engine_start_def async_def async_engine_stop_def threadPool_dispach_def)
qed

theorem engine_lifecycle_witness:
  "\<exists>c' p. async_engine_start 4 0 (async_ctrl :: nat async_ctrl) = Some (c', EAsync_Success) \<and>
     engine_threads c' = Some p \<and> threads_count p = 3"
  using engine_lifecycle [of "async_ctrl :: nat async_ctrl" 4 0 0 "[]"]
  unfolding async_ctrl_def default_threads_def by fastforce

end
