(* ===== verification/CString.thy ===== *)
theory CString
  imports Prelude
begin

section \<open>The C string functions the program calls\<close>

text \<open>
  A \<open>char*\<close> argument that the code treats as a string is the list of its characters before the
  NUL. Where the code works on a buffer of known size (received data, fixed arrays) the buffer is
  a \<open>char list\<close> with its NULs, and \<open>c_str\<close> is the string it holds, if it holds one.
\<close>

definition nul :: char where
  "nul = CHR 0x00"

definition c_str :: "char list \<Rightarrow> string res" where
  "c_str buf = (if nul \<in> set buf then Inr (takeWhile (\<lambda>c. c \<noteq> nul) buf) else Inl OutOfBounds)"

text \<open>\<open>strstr(hay, pat)\<close>: the suffix of \<open>hay\<close> from the first occurrence of \<open>pat\<close>.\<close>

fun strstr :: "string \<Rightarrow> string \<Rightarrow> string option" where
  "strstr [] pat = (if pat = [] then Some [] else None)"
| "strstr (c # cs) pat = (if prefix pat (c # cs) then Some (c # cs) else strstr cs pat)"

text \<open>\<open>strchr(s, c)\<close>: the suffix from the first \<open>c\<close>.\<close>

definition strchr :: "string \<Rightarrow> char \<Rightarrow> string option" where
  "strchr s c = (case dropWhile (\<lambda>x. x \<noteq> c) s of [] \<Rightarrow> None | r \<Rightarrow> Some r)"

definition isspace :: "char \<Rightarrow> bool" where
  "isspace c \<longleftrightarrow> c \<in> {CHR '' '', CHR 0x09, CHR 0x0A, CHR 0x0B, CHR 0x0C, CHR 0x0D}"

definition isdigit :: "char \<Rightarrow> bool" where
  "isdigit c \<longleftrightarrow> 48 \<le> (of_char c :: nat) \<and> (of_char c :: nat) \<le> 57"

definition digit_val :: "char \<Rightarrow> nat" where
  "digit_val c = of_char c - 48"

definition digits_val :: "string \<Rightarrow> nat" where
  "digits_val ds = foldl (\<lambda>n c. 10 * n + digit_val c) 0 ds"

text \<open>The value \<open>strtol\<close> reads in base 10, before it is clamped to \<open>long\<close>.\<close>

definition strtol_val :: "string \<Rightarrow> int" where
  "strtol_val s =
     (case dropWhile isspace s of
        [] \<Rightarrow> 0
      | c # cs \<Rightarrow>
          if c = CHR ''-'' then - int (digits_val (takeWhile isdigit cs))
          else if c = CHR ''+'' then int (digits_val (takeWhile isdigit cs))
          else int (digits_val (takeWhile isdigit (c # cs))))"

text \<open>The number of characters \<open>strtol\<close> consumes; it reads one more.\<close>

definition strtol_len :: "string \<Rightarrow> nat" where
  "strtol_len s =
     (let r = dropWhile isspace s;
          sign = (if r \<noteq> [] \<and> hd r \<in> {CHR ''-'', CHR ''+''} then 1 else 0)
      in length (takeWhile isspace s) + sign + length (takeWhile isdigit (drop sign r)))"

text \<open>\<open>atoi\<close> of the GNU library the program is built with: \<open>(int) strtol(s, NULL, 10)\<close>, that is,
  clamped to 64 bits, then truncated to 32.\<close>

definition atoi :: "string \<Rightarrow> int" where
  "atoi s = signed_take_bit 31 (max (- (2 ^ 63)) (min (2 ^ 63 - 1) (strtol_val s)))"

text \<open>The conversion \<open>%d\<close> / \<open>%ld\<close>.\<close>

definition digit_char :: "nat \<Rightarrow> char" where
  "digit_char d = char_of (48 + d)"

fun dec :: "nat \<Rightarrow> string" where
  "dec n = (if n < 10 then [digit_char n] else dec (n div 10) @ [digit_char (n mod 10)])"

declare dec.simps [simp del]

definition dec_int :: "int \<Rightarrow> string" where
  "dec_int i = (if i < 0 then CHR ''-'' # dec (nat (- i)) else dec (nat i))"

subsection \<open>Laws\<close>

lemma strstr_Some:
  "strstr hay pat = Some r \<Longrightarrow> \<exists>pre. hay = pre @ r \<and> prefix pat r"
proof (induction hay)
  case Nil
  then show ?case by (auto split: if_splits)
next
  case (Cons c cs)
  then show ?case by (cases "prefix pat (c # cs)") (auto intro: exI [of _ "c # _"])
qed

lemma strstr_length: "strstr hay pat = Some r \<Longrightarrow> length r \<le> length hay \<and> length pat \<le> length r"
  using strstr_Some [of hay pat r] by (auto dest: prefix_length_le)

lemma strstr_None_iff: "strstr hay pat = None \<longleftrightarrow> \<not> sublist pat hay"
  by (induction hay) (auto simp: sublist_Cons_right)

lemma digit_char_of [simp]: "d < 10 \<Longrightarrow> of_char (digit_char d) = 48 + d"
  by (simp add: digit_char_def of_char_of)

lemma isdigit_digit_char [simp]: "d < 10 \<Longrightarrow> isdigit (digit_char d)"
  by (simp add: isdigit_def)

lemma digit_val_digit_char [simp]: "d < 10 \<Longrightarrow> digit_val (digit_char d) = d"
  by (simp add: digit_val_def)

lemma dec_digits: "\<forall>c \<in> set (dec n). isdigit c"
proof (induction n rule: dec.induct)
  case (1 n)
  then show ?case by (cases "n < 10") (auto simp: dec.simps [of n])
qed

lemma dec_nonempty [simp]: "dec n \<noteq> []"
  by (subst dec.simps) simp

lemma digits_val_dec [simp]: "digits_val (dec n) = n"
proof (induction n rule: dec.induct)
  case (1 n)
  then show ?case by (cases "n < 10") (simp_all add: dec.simps [of n] digits_val_def)
qed

lemma not_isdigitI: "c \<in> {CHR ''-'', CHR ''+'', CHR '';'', CHR 0x0A} \<or> isspace c \<Longrightarrow> \<not> isdigit c"
  by (auto simp: isdigit_def isspace_def)

lemma takeWhile_dec:
  "r = [] \<or> \<not> isdigit (hd r) \<Longrightarrow> takeWhile isdigit (dec n @ r) = dec n"
  by (cases r) (auto simp: takeWhile_append dec_digits takeWhile_eq_Nil_iff)

lemma dec_cons: "\<exists>c cs. dec n = c # cs \<and> isdigit c"
  using dec_digits [of n] by (cases "dec n") auto

text \<open>Reading back a printed number, whatever non-digit follows it.\<close>

lemma strtol_val_dec:
  assumes "r = [] \<or> \<not> isdigit (hd r)"
  shows "strtol_val (dec n @ r) = int n"
proof -
  obtain c cs where c: "dec n = c # cs" "isdigit c" using dec_cons by blast
  then have "\<not> isspace c" "c \<noteq> CHR ''-''" "c \<noteq> CHR ''+''" using not_isdigitI by blast+
  moreover have "takeWhile isdigit (dec n @ r) = dec n"
    using assms by (rule takeWhile_dec)
  ultimately show ?thesis using c
    by (simp add: strtol_val_def) (metis append_Cons digits_val_dec takeWhile.simps(2))
qed

lemma atoi_small: "- (2 ^ 31) \<le> strtol_val s \<Longrightarrow> strtol_val s < 2 ^ 31 \<Longrightarrow> atoi s = strtol_val s"
  by (simp add: atoi_def signed_take_bit_int_eq_self)

lemma atoi_dec:
  "n < 2 ^ 31 \<Longrightarrow> r = [] \<or> \<not> isdigit (hd r) \<Longrightarrow> atoi (dec n @ r) = int n"
  using atoi_small [of "dec n @ r"] strtol_val_dec [of r n] by simp

lemma length_dec: "n < 10 ^ k \<Longrightarrow> 0 < k \<Longrightarrow> length (dec n) \<le> k"
proof (induction n arbitrary: k rule: dec.induct)
  case (1 n)
  show ?case
  proof (cases "n < 10")
    case True
    with 1 show ?thesis by (simp add: dec.simps [of n])
  next
    case False
    with "1.prems" have "1 < k" by (cases "k = 1") auto
    then obtain j where j: "k = Suc j" "0 < j" by (cases k) auto
    with "1.prems" have "n div 10 < 10 ^ j" by (simp add: less_mult_imp_div_less mult.commute)
    with "1.IH" [OF False] j have "length (dec (n div 10)) \<le> j" by simp
    with False j show ?thesis by (simp add: dec.simps [of n])
  qed
qed

end
