(* ===== verification/Memory.thy ===== *)
theory Memory
  imports CString
begin

section \<open>Allocated blocks\<close>

text \<open>
  A block of \<open>malloc\<close> is the list of its cells, as long as the allocation. A cell is a \<open>char\<close>, or
  a \<open>char option\<close> where a cell not yet written (\<open>None\<close>) must be told apart. Every write goes through
  \<open>put_at\<close>, which faults past the end of the block; reading a string that is not terminated
  inside its block faults as well. Allocation never fails.
\<close>

definition put_at :: "'a list \<Rightarrow> nat \<Rightarrow> 'a list \<Rightarrow> 'a list res" where
  "put_at buf off s =
     (if off + length s \<le> length buf then Inr (take off buf @ s @ drop (off + length s) buf)
      else Inl OutOfBounds)"

text \<open>\<open>realloc\<close>: the cell \<open>i\<close> of the new part is whatever \<open>junk\<close> says.\<close>

definition realloc_buf :: "(nat \<Rightarrow> 'a) \<Rightarrow> 'a list \<Rightarrow> nat \<Rightarrow> 'a list" where
  "realloc_buf junk buf n = take n buf @ map junk [length buf..<n]"

fun read_str :: "char option list \<Rightarrow> string res" where
  "read_str [] = Inl OutOfBounds"
| "read_str (None # _) = Inl UninitRead"
| "read_str (Some c # cs) =
     (if c = nul then Inr [] else bind_res (read_str cs) (\<lambda>s. Inr (c # s)))"

text \<open>\<open>sprintf\<close> to the offset \<open>off\<close> of a block: the text and its NUL.\<close>

definition sprintf_at :: "char option list \<Rightarrow> nat \<Rightarrow> string \<Rightarrow> char option list res" where
  "sprintf_at buf off s = put_at buf off (map Some (s @ [nul]))"

lemma put_at_fault: "put_at buf off s = Inl f \<longleftrightarrow> f = OutOfBounds \<and> length buf < off + length s"
  by (auto simp: put_at_def)

lemma put_at_length: "put_at buf off s = Inr b \<Longrightarrow> length b = length buf"
  by (auto simp: put_at_def split: if_splits)

lemma put_at_ok: "off + length s \<le> length buf \<Longrightarrow>
    put_at buf off s = Inr (take off buf @ s @ drop (off + length s) buf)"
  by (simp add: put_at_def)

lemma realloc_length [simp]: "length (realloc_buf junk buf n) = n"
  by (simp add: realloc_buf_def)

lemma realloc_take: "k \<le> length buf \<Longrightarrow> k \<le> n \<Longrightarrow> take k (realloc_buf junk buf n) = take k buf"
  by (simp add: realloc_buf_def)

lemma realloc_same [simp]: "realloc_buf junk buf (length buf) = buf"
  by (simp add: realloc_buf_def)

lemma read_str_text: "nul \<notin> set s \<Longrightarrow> read_str (map Some (s @ [nul]) @ r) = Inr s"
  by (induction s) auto

lemma sprintf_at_start:
  "length s < length buf \<Longrightarrow>
   sprintf_at buf 0 s = Inr (map Some (s @ [nul]) @ drop (Suc (length s)) buf)"
  by (simp add: sprintf_at_def put_at_def)

lemma sprintf_at_fault: "sprintf_at buf off s = Inl f \<longleftrightarrow> f = OutOfBounds \<and> length buf \<le> off + length s"
  by (auto simp: sprintf_at_def put_at_fault)

lemma c_str_text: "nul \<notin> set s \<Longrightarrow> c_str (s @ nul # r) = Inr s"
  by (simp add: c_str_def takeWhile_append takeWhile_eq_all_conv)

lemma c_str_no_nul: "c_str buf = Inr s \<Longrightarrow> nul \<notin> set s \<and> (\<exists>r. buf = s @ nul # r)"
proof -
  assume "c_str buf = Inr s"
  then have n: "nul \<in> set buf" and s: "s = takeWhile (\<lambda>c. c \<noteq> nul) buf"
    by (auto simp: c_str_def split: if_splits)
  have "dropWhile (\<lambda>c. c \<noteq> nul) buf \<noteq> []" using n by (simp add: dropWhile_eq_Nil_conv)
  moreover have "hd (dropWhile (\<lambda>c. c \<noteq> nul) buf) = nul"
    using hd_dropWhile [OF calculation] by simp
  ultimately obtain r where "dropWhile (\<lambda>c. c \<noteq> nul) buf = nul # r"
    by (cases "dropWhile (\<lambda>c. c \<noteq> nul) buf") auto
  then have "buf = s @ nul # r" using s takeWhile_dropWhile_id [of "\<lambda>c. c \<noteq> nul" buf] by metis
  moreover have "nul \<notin> set s" using s by (auto dest: set_takeWhileD)
  ultimately show ?thesis by blast
qed

subsection \<open>Searching and scanning in a block\<close>

text \<open>\<open>strstr\<close> over a block: the offset of the first match before the NUL; it reads on to the NUL,
  or past the end of the block, when there is none.\<close>

fun strstr_buf :: "char list \<Rightarrow> string \<Rightarrow> nat option res" where
  "strstr_buf [] pat = Inl OutOfBounds"
| "strstr_buf (c # cs) pat =
     (if prefix pat (c # cs) then Inr (Some 0)
      else if c = nul then Inr None
      else bind_res (strstr_buf cs pat) (\<lambda>r. Inr (map_option Suc r)))"

definition atoi_buf :: "char list \<Rightarrow> int res" where
  "atoi_buf buf = (if strtol_len buf < length buf then Inr (atoi buf) else Inl OutOfBounds)"

text \<open>\<open>strtok_r\<close> from the offset \<open>pos\<close>: the offset of the token (\<open>None\<close> is NULL), the block with the
  token's end marked, and the offset where the next call starts.\<close>

definition strtok_r :: "char list \<Rightarrow> nat \<Rightarrow> string \<Rightarrow> (nat option \<times> char list \<times> nat) res" where
  "strtok_r buf pos delims =
     bind_res (c_str (drop pos buf)) (\<lambda>s.
       let k = length (takeWhile (\<lambda>c. c \<in> set delims) s);
           n = length (takeWhile (\<lambda>c. c \<notin> set delims) (drop k s))
       in Inr (if k = length s then (None, buf, pos + k)
               else if k + n = length s then (Some (pos + k), buf, pos + k + n)
               else (Some (pos + k), buf[pos + k + n := nul], pos + k + n + 1)))"

lemma strstr_buf_Some:
  "strstr_buf buf pat = Inr (Some k) \<Longrightarrow>
   prefix pat (drop k buf) \<and> k < length buf \<and> (\<forall>j < k. \<not> prefix pat (drop j buf))"
proof (induction buf arbitrary: k)
  case (Cons c cs)
  show ?case
  proof (cases "prefix pat (c # cs)")
    case False
    with Cons.prems obtain i where i: "k = Suc i" "strstr_buf cs pat = Inr (Some i)"
      by (auto simp: bind_res_Inr split: if_splits)
    with Cons.IH [OF i(2)] False show ?thesis by (auto simp: less_Suc_eq_0_disj)
  qed (use Cons.prems in auto)
qed simp

lemma strstr_buf_skip:
  assumes "nul \<notin> set xs" "\<forall>j < length xs. \<not> prefix pat (drop j (xs @ ys))"
  shows "strstr_buf (xs @ ys) pat = bind_res (strstr_buf ys pat) (\<lambda>r. Inr (map_option ((+) (length xs)) r))"
  using assms
proof (induction xs)
  case Nil
  then show ?case by (cases "strstr_buf ys pat") (simp_all add: option.map_ident)
next
  case (Cons x xs)
  have "\<not> prefix pat (drop j (xs @ ys))" if "j < length xs" for j
    using Cons.prems(2) that by (metis Suc_less_eq append_Cons drop_Suc_Cons length_Cons)
  moreover have "\<not> prefix pat (x # xs @ ys)" using Cons.prems(2) by force
  ultimately show ?case using Cons
    by (cases "strstr_buf ys pat") (auto simp: option.map_comp comp_def)
qed

lemma strstr_buf_here: "prefix pat buf \<Longrightarrow> buf \<noteq> [] \<Longrightarrow> strstr_buf buf pat = Inr (Some 0)"
  by (cases buf) simp_all

text \<open>A pattern starting in the text \<open>xs\<close> but not inside it would have to contain what follows \<open>xs\<close>.\<close>

lemma prefix_in_text:
  assumes "prefix pat (drop j (xs @ z # ys))" "z \<notin> set pat" "j \<le> length xs"
  shows "prefix pat (drop j xs)"
proof -
  have "length pat \<le> length (drop j xs)"
  proof (rule ccontr)
    assume "\<not> length pat \<le> length (drop j xs)"
    then have lt: "length (drop j xs) < length pat" by simp
    from assms(1,3) obtain zs where e: "drop j xs @ z # ys = pat @ zs" by (auto simp: prefix_def)
    have "pat ! length (drop j xs) = (pat @ zs) ! length (drop j xs)" using lt by (simp add: nth_append)
    also have "\<dots> = (drop j xs @ z # ys) ! length (drop j xs)" by (simp only: e)
    also have "\<dots> = z" by (rule nth_append_length)
    finally have "z \<in> set pat" using lt nth_mem by metis
    with assms(2) show False ..
  qed
  moreover have "prefix (drop j xs) (drop j (xs @ z # ys))" using assms(3) by simp
  ultimately show ?thesis using assms(1) prefix_length_prefix by blast
qed

lemma strstr_buf_strstr:
  assumes "nul \<notin> set xs" "nul \<notin> set pat" "pat \<noteq> []"
  shows "strstr_buf (xs @ nul # ys) pat = Inr (map_option (\<lambda>r. length xs - length r) (strstr xs pat))"
  using assms(1)
proof (induction xs)
  case Nil
  have "\<not> prefix pat (nul # ys)" using assms(2,3) by (cases pat) auto
  with assms(3) show ?case by simp
next
  case (Cons x xs)
  have pre: "prefix pat (x # xs @ nul # ys) \<longleftrightarrow> prefix pat (x # xs)"
    using prefix_in_text [of pat 0 "x # xs" nul ys] assms(2) prefix_prefix [of pat "x # xs" "nul # ys"] by auto
  show ?case
  proof (cases "prefix pat (x # xs)")
    case False
    have "length r \<le> length xs" if "strstr xs pat = Some r" for r using strstr_length [OF that] by simp
    with Cons False pre show ?thesis
      by (cases "strstr xs pat") (auto simp: Suc_diff_le)
  qed (use pre in simp)
qed

lemma atoi_buf_dec:
  assumes "n < 2 ^ 31" "r \<noteq> []" "\<not> isdigit (hd r)"
  shows "atoi_buf (dec n @ r) = Inr (int n)"
proof -
  obtain c cs where c: "dec n = c # cs" "isdigit c" using dec_cons by blast
  then have "\<not> isspace c" "c \<noteq> CHR ''-''" "c \<noteq> CHR ''+''" using not_isdigitI by blast+
  moreover have "takeWhile isdigit (dec n @ r) = dec n" using assms(3) by (intro takeWhile_dec) simp
  ultimately have "strtol_len (dec n @ r) = length (dec n)"
    using c by (simp add: strtol_len_def)
  with assms show ?thesis by (simp add: atoi_buf_def atoi_dec)
qed

lemma strtok_token:
  assumes buf: "drop pos buf = pre @ tok @ d # rest" "pos \<le> length buf"
    and pre: "set pre \<subseteq> set delims" and tok: "tok \<noteq> []" "set tok \<inter> set delims = {}"
    and d: "d \<in> set delims" and str: "nul \<notin> set (pre @ tok @ [d])" "nul \<in> set rest"
  shows "strtok_r buf pos delims =
    Inr (Some (pos + length pre), buf[pos + length pre + length tok := nul], pos + length pre + length tok + 1)"
proof -
  obtain s where s: "c_str (drop pos buf) = Inr s" "s = pre @ tok @ d # takeWhile (\<lambda>c. c \<noteq> nul) rest"
  proof -
    have "takeWhile (\<lambda>c. c \<noteq> nul) (drop pos buf) = pre @ tok @ d # takeWhile (\<lambda>c. c \<noteq> nul) rest"
    proof -
      have "takeWhile (\<lambda>c. c \<noteq> nul) (xs @ ys) = xs @ takeWhile (\<lambda>c. c \<noteq> nul) ys"
        if "nul \<notin> set xs" for xs ys using that by (intro takeWhile_append2) auto
      from this [OF str(1), of rest] show ?thesis unfolding buf(1) by simp
    qed
    then show thesis using that buf(1) str(2) by (simp add: c_str_def)
  qed
  have "hd tok \<notin> set delims" using tok by (cases tok) auto
  then have k: "takeWhile (\<lambda>c. c \<in> set delims) s = pre"
    using s(2) pre tok(1) by (cases tok) (auto simp: takeWhile_append2 subset_iff)
  have "takeWhile (\<lambda>c. c \<notin> set delims) (tok @ d # takeWhile (\<lambda>c. c \<noteq> nul) rest) = tok"
  proof -
    have "\<forall>c \<in> set tok. c \<notin> set delims" using tok(2) by blast
    then show ?thesis using d by (simp add: takeWhile_append2)
  qed
  then show ?thesis using s k tok(1) by (simp add: strtok_r_def Let_def)
qed

end
