(* ===== verification/Response.thy ===== *)
theory Response
  imports Memory
begin

section \<open>Building a response (server/http.c)\<close>

text \<open>
  The response record of http.h and the functions a handler fills it with. \<open>status_line\<close> and
  \<open>header_buf\<close> are NULL (\<open>None\<close>, the empty block) until they are set; the two fixed arrays of
  128 chars are the strings they hold. \<open>http_reply\<close> is the text that \<open>http_process_request\<close>
  builds from the record and hands to \<open>SSL_write\<close>.
\<close>

record http_response_t =
  code :: int
  status_line :: "string option"
  content_type :: string
  location :: string
  header_size :: nat
  header_buf_size :: nat
  header_buf :: "char option list"
  payload_size :: nat
  clean_payload :: bool
  payload :: "char list"

text \<open>\<open>http_response_t response = {0}\<close>.\<close>

definition new_response :: http_response_t where
  "new_response = \<lparr>code = 0, status_line = None, content_type = [], location = [],
     header_size = 0, header_buf_size = 0, header_buf = [], payload_size = 0,
     clean_payload = False, payload = []\<rparr>"

definition HttpResponses :: "(int \<times> string) list" where
  "HttpResponses =
     [(100, ''Continue''), (200, ''OK''), (201, ''Created''), (204, ''No Content''),
      (301, ''Moved Permanently''), (302, ''Found''), (303, ''See Other''), (304, ''Not Modified''),
      (307, ''Temporary Redirect''), (308, ''Permanent Redirect''), (400, ''Bad Request''),
      (401, ''Unauthorized''), (403, ''Forbidden''), (404, ''Not Found''),
      (405, ''Method Not Allowed''), (408, ''Request Timeout'')]"

definition HTTP_200_OK :: int where "HTTP_200_OK = 1"
definition HTTP_201_CREATED :: int where "HTTP_201_CREATED = 2"
definition HTTP_400_BAD_REQUEST :: int where "HTTP_400_BAD_REQUEST = 10"
definition HTTP_404_NOT_FOUND :: int where "HTTP_404_NOT_FOUND = 13"
definition HTTP_405_NOT_ALLOWED :: int where "HTTP_405_NOT_ALLOWED = 14"

definition http_set_response_code :: "http_response_t \<Rightarrow> int \<Rightarrow> http_response_t res" where
  "http_set_response_code r c =
     (if 0 \<le> c \<and> nat c < length HttpResponses
      then Inr (r\<lparr>code := fst (HttpResponses ! nat c),
                  status_line := Some (snd (HttpResponses ! nat c))\<rparr>)
      else Inl OutOfBounds)"

definition crlf :: string where
  "crlf = [CHR 0x0D, CHR 0x0A]"

definition header_entry :: "string \<Rightarrow> string \<Rightarrow> string" where
  "header_entry name v = crlf @ name @ '': '' @ v"

text \<open>\<open>len\<close> is the length of the entry, without its NUL.\<close>

definition http_add_header_entry ::
    "http_response_t \<Rightarrow> string \<Rightarrow> string \<Rightarrow> http_response_t res" where
  "http_add_header_entry r name v =
     (let len = length name + 2 + length v + 2;
          r1 = (if header_size r + len > header_buf_size r
                then let n = header_buf_size r + (if len < 128 then 128 else len) in
                  r\<lparr>header_buf_size := n, header_buf := realloc_buf (\<lambda>_. None) (header_buf r) n\<rparr>
                else r)
      in bind_res (sprintf_at (header_buf r1) (header_size r1) (header_entry name v))
           (\<lambda>b. Inr (r1\<lparr>header_buf := b\<rparr>)))"

definition http_set_cookie :: "http_response_t \<Rightarrow> string \<Rightarrow> string \<Rightarrow> http_response_t res" where
  "http_set_cookie r cookie v =
     (let block = replicate (length ''%s=%s'' + 1 + length cookie + length v) None in
      bind_res (sprintf_at block 0 (cookie @ ''='' @ v)) (\<lambda>b.
      bind_res (read_str b) (\<lambda>cookie_entry.
      http_add_header_entry r ''Set-Cookie'' cookie_entry)))"

definition http_set_content_type :: "http_response_t \<Rightarrow> string \<Rightarrow> bool \<Rightarrow> http_response_t res" where
  "http_set_content_type r type use_charset =
     (let charset = (if use_charset then ''; charset=utf-8'' else []) in
      bind_res (sprintf_at (replicate 128 None) 0 (crlf @ ''Content-Type: '' @ type @ charset)) (\<lambda>b.
      bind_res (read_str b) (\<lambda>s. Inr (r\<lparr>content_type := s\<rparr>))))"

definition http_set_redirect :: "http_response_t \<Rightarrow> string \<Rightarrow> http_response_t res" where
  "http_set_redirect r loc =
     bind_res (sprintf_at (replicate 128 None) 0 (crlf @ ''Location: '' @ loc)) (\<lambda>b.
     bind_res (read_str b) (\<lambda>s. Inr (r\<lparr>location := s\<rparr>)))"

definition http_set_body :: "http_response_t \<Rightarrow> nat \<Rightarrow> char list \<Rightarrow> bool \<Rightarrow> http_response_t" where
  "http_set_body r len body clean =
     r\<lparr>payload_size := len, payload := body, clean_payload := clean\<rparr>"

subsection \<open>The reply on the wire\<close>

definition response_format :: string where
  "response_format = ''HTTP/1.1 %d %s%s%s%s'' @ crlf @ ''Content-Length: %ld'' @ crlf @ crlf"

definition header_text :: "http_response_t \<Rightarrow> string res" where
  "header_text r = (if header_buf r = [] then Inr [] else read_str (header_buf r))"

text \<open>\<open>%ld\<close> of a \<open>size_t\<close>: its 64 bits read as signed.\<close>

definition dec_ld :: "nat \<Rightarrow> string" where
  "dec_ld n = dec_int (signed_take_bit 63 (int n))"

definition reply_text :: "http_response_t \<Rightarrow> string \<Rightarrow> string \<Rightarrow> string" where
  "reply_text r status hdr =
     ''HTTP/1.1 '' @ dec_int (code r) @ '' '' @ status @ location r @ content_type r @ hdr @ crlf @
     ''Content-Length: '' @ dec_ld (payload_size r) @ crlf @ crlf"

text \<open>\<open>snprintf\<close> keeps \<open>max_len - 1\<close> characters but returns the full length, and \<open>SSL_write\<close> reads
  that many cells.\<close>

definition http_reply :: "http_response_t \<Rightarrow> string res" where
  "http_reply r =
     (case status_line r of None \<Rightarrow> Inl NullDeref
      | Some status \<Rightarrow>
          bind_res (header_text r) (\<lambda>hdr.
            let max_len = length response_format + 1 + length status + length (content_type r) +
                  length (location r) + header_size r + header_buf_size r + 32;
                text = reply_text r status hdr;
                block = take (max_len - 1) text @ [nul]
            in if length text \<le> max_len then Inr (take (length text) block) else Inl OutOfBounds))"

text \<open>The calls of \<open>SSL_write\<close>; \<open>ok\<close> is whether the first one succeeds.\<close>

definition http_send :: "bool \<Rightarrow> http_response_t \<Rightarrow> char list list res" where
  "http_send ok r =
     bind_res (http_reply r) (\<lambda>reply.
       if ok \<and> payload_size r > 0
       then if payload_size r \<le> length (payload r)
            then Inr [reply, take (payload_size r) (payload r)] else Inl OutOfBounds
       else Inr [reply])"

subsection \<open>Reading a cookie\<close>

text \<open>The loop restarts behind each \<open>Cookie:\<close> it finds; the result points into the request, so it
  is all the text after the equals sign.\<close>

function http_get_cookie :: "string \<Rightarrow> string \<Rightarrow> string option" where
  "http_get_cookie str cookie =
     (case strstr str ''Cookie: '' of
        None \<Rightarrow> None
      | Some s \<Rightarrow>
          let s' = drop 8 s in
          if prefix (cookie @ ''='') s' then Some (drop (length cookie + 1) s')
          else http_get_cookie s' cookie)"
  by pat_completeness auto
termination
proof (relation "measure (\<lambda>(s, c). length s)", goal_cases)
  case (2 str cookie s s')
  then have "length s \<le> length str" "8 \<le> length s" using strstr_length [of str "''Cookie: ''" s] by auto
  with 2 show ?case by auto
qed simp

declare http_get_cookie.simps [simp del]

subsection \<open>Lemmas\<close>

lemma read_str_length: "read_str b = Inr s \<Longrightarrow> length s < length b"
  by (induction b arbitrary: s rule: read_str.induct) (auto simp: bind_res_Inr split: if_splits)

lemma length_header_entry [simp]: "length (header_entry n v) = length n + 2 + length v + 2"
  by (simp add: header_entry_def crlf_def)

lemma crlf_no_nul [simp]: "nul \<notin> set crlf"
  by (simp add: crlf_def nul_def)

lemma header_entry_no_nul: "nul \<notin> set n \<Longrightarrow> nul \<notin> set v \<Longrightarrow> nul \<notin> set (header_entry n v)"
  unfolding header_entry_def using crlf_no_nul by (simp add: nul_def)

text \<open>The block after the growth step, for an entry of \<open>len\<close> characters.\<close>

definition grown :: "nat \<Rightarrow> nat \<Rightarrow> nat" where
  "grown n len = (if len > n then n + (if len < 128 then 128 else len) else n)"

text \<open>A response whose headers were only written by the functions above.\<close>

definition response_ok :: "http_response_t \<Rightarrow> bool" where
  "response_ok r \<longleftrightarrow> header_size r = 0 \<and> length (header_buf r) = header_buf_size r \<and>
     (\<exists>h. header_text r = Inr h)"

lemma new_response_ok [simp]: "response_ok new_response"
  by (simp add: response_ok_def new_response_def header_text_def)

lemma add_header_fault:
  assumes "header_size r = 0" "length (header_buf r) = header_buf_size r"
  shows "http_add_header_entry r n v = Inl f \<longleftrightarrow> f = OutOfBounds \<and>
    grown (header_buf_size r) (length (header_entry n v)) \<le> length (header_entry n v)"
  using assms
  by (auto simp: http_add_header_entry_def Let_def bind_res_Inl sprintf_at_fault grown_def)

lemma add_header_ok:
  assumes r: "header_size r = 0" "length (header_buf r) = header_buf_size r"
    and nul: "nul \<notin> set n" "nul \<notin> set v"
    and room: "length (header_entry n v) < grown (header_buf_size r) (length (header_entry n v))"
  shows "\<exists>b. http_add_header_entry r n v =
      Inr (r\<lparr>header_buf_size := grown (header_buf_size r) (length (header_entry n v)), header_buf := b\<rparr>) \<and>
    length b = grown (header_buf_size r) (length (header_entry n v)) \<and>
    read_str b = Inr (header_entry n v)"
proof -
  let ?e = "header_entry n v"
  let ?g = "grown (header_buf_size r) (length ?e)"
  let ?blk = "realloc_buf (\<lambda>_. None) (header_buf r) ?g"
  let ?b = "map Some (?e @ [nul]) @ drop (Suc (length ?e)) ?blk"
  have "http_add_header_entry r n v =
      bind_res (sprintf_at ?blk 0 ?e) (\<lambda>b. Inr (r\<lparr>header_buf_size := ?g, header_buf := b\<rparr>))"
  proof (cases "length ?e > header_buf_size r")
    case True
    with r show ?thesis by (simp add: http_add_header_entry_def Let_def grown_def)
  next
    case False
    then have "?g = header_buf_size r" "?blk = header_buf r"
      using r by (simp_all add: grown_def realloc_buf_def)
    with False r show ?thesis by (simp add: http_add_header_entry_def Let_def)
  qed
  also have "sprintf_at ?blk 0 ?e = Inr ?b" using room by (intro sprintf_at_start) simp
  finally have "http_add_header_entry r n v = Inr (r\<lparr>header_buf_size := ?g, header_buf := ?b\<rparr>)"
    by simp
  moreover have "length ?b = ?g" using room by simp
  moreover have "read_str ?b = Inr ?e" using header_entry_no_nul [OF nul] by (rule read_str_text)
  ultimately show ?thesis by blast
qed

fun add_headers :: "http_response_t \<Rightarrow> (string \<times> string) list \<Rightarrow> http_response_t res" where
  "add_headers r [] = Inr r"
| "add_headers r ((n, v) # es) = bind_res (http_add_header_entry r n v) (\<lambda>r'. add_headers r' es)"

text \<open>Short entries: the first takes a block of 128 and no other needs more.\<close>

lemma add_headers_short:
  assumes "\<forall>(n, v) \<in> set es. nul \<notin> set n \<and> nul \<notin> set v \<and> length n + length v < 124"
    "header_size r = 0" "length (header_buf r) = header_buf_size r" "header_buf_size r \<in> {0, 128}"
  shows "\<exists>r'. add_headers r es = Inr r' \<and> header_size r' = 0 \<and>
    length (header_buf r') = header_buf_size r' \<and> header_buf_size r' \<in> {0, 128} \<and>
    header_text r' = (if es = [] then header_text r else Inr (header_entry (fst (last es)) (snd (last es))))"
  using assms
proof (induction es arbitrary: r)
  case Nil
  then show ?case by simp
next
  case (Cons e es)
  obtain n v where e: "e = (n, v)" by (cases e)
  with Cons.prems(1) have nv: "nul \<notin> set n" "nul \<notin> set v" "length n + length v < 124" by auto
  have g: "grown (header_buf_size r) (length (header_entry n v)) = 128"
    using Cons.prems(4) nv(3) by (auto simp: grown_def)
  from add_header_ok [OF Cons.prems(2,3) nv(1,2)] g nv(3) obtain b where
    b: "http_add_header_entry r n v = Inr (r\<lparr>header_buf_size := 128, header_buf := b\<rparr>)"
      "length b = 128" "read_str b = Inr (header_entry n v)" by auto
  let ?r = "r\<lparr>header_buf_size := 128, header_buf := b\<rparr>"
  have "\<exists>r'. add_headers ?r es = Inr r' \<and> header_size r' = 0 \<and>
    length (header_buf r') = header_buf_size r' \<and> header_buf_size r' \<in> {0, 128} \<and>
    header_text r' = (if es = [] then header_text ?r else Inr (header_entry (fst (last es)) (snd (last es))))"
    using Cons.prems(1,2) b(2) by (intro Cons.IH) auto
  moreover have "header_text ?r = Inr (header_entry n v)" using b by (auto simp: header_text_def)
  ultimately show ?case using e b(1) by auto
qed

lemma set_cookie_entry:
  assumes "nul \<notin> set cookie" "nul \<notin> set v"
  shows "http_set_cookie r cookie v = http_add_header_entry r ''Set-Cookie'' (cookie @ ''='' @ v)"
proof -
  have "nul \<notin> set (cookie @ ''='' @ v)" using assms by (simp add: nul_def)
  then show ?thesis
    using read_str_text [of "cookie @ ''='' @ v"]
    by (simp add: http_set_cookie_def sprintf_at_start del: append_assoc)
qed

lemma dec_int_length: "- (10 ^ k) < i \<Longrightarrow> i < 10 ^ k \<Longrightarrow> 0 < k \<Longrightarrow> length (dec_int i) \<le> Suc k"
proof -
  assume a: "- (10 ^ k) < i" "i < 10 ^ k" "0 < k"
  then have "nat (- i) < 10 ^ k" "nat i < 10 ^ k" by (simp_all add: nat_less_iff)
  with length_dec a(3) show ?thesis by (simp add: dec_int_def le_SucI)
qed

lemma dec_ld_length: "length (dec_ld n) \<le> 20"
proof -
  let ?i = "signed_take_bit 63 (int n)"
  have "- (2 ^ 63) \<le> ?i" "?i < 2 ^ 63"
    by (rule signed_take_bit_int_greater_eq_minus_exp, rule signed_take_bit_int_less_exp)
  then have "- (10 ^ 19) < ?i" "?i < 10 ^ 19" by simp_all
  from dec_int_length [OF this] show ?thesis by (simp add: dec_ld_def)
qed

lemma code_length: "- (2 ^ 31) \<le> c \<Longrightarrow> c < 2 ^ 31 \<Longrightarrow> length (dec_int c) \<le> 11"
  using dec_int_length [of 10 c] by simp

lemma reply_fits:
  assumes "- (2 ^ 31) \<le> code r" "code r < 2 ^ 31" "length hdr \<le> header_buf_size r"
  shows "length (reply_text r st hdr) < length response_format + 1 + length st + length (content_type r) +
    length (location r) + header_size r + header_buf_size r + 32"
  using code_length [OF assms(1,2)] dec_ld_length [of "payload_size r"] assms(3)
  by (simp add: reply_text_def response_format_def crlf_def)

lemma reply_of_ok:
  assumes "response_ok r" "status_line r = Some st" "- (2 ^ 31) \<le> code r" "code r < 2 ^ 31"
  shows "\<exists>hdr. header_text r = Inr hdr \<and> http_reply r = Inr (reply_text r st hdr)"
proof -
  from assms(1) obtain hdr where hdr: "header_text r = Inr hdr" by (auto simp: response_ok_def)
  have "length hdr \<le> header_buf_size r"
    using hdr read_str_length [of "header_buf r" hdr] assms(1)
    by (auto simp: header_text_def response_ok_def split: if_splits)
  from reply_fits [OF assms(3,4) this, of st] hdr assms(2) show ?thesis
    by (auto simp: http_reply_def Let_def)
qed

lemma strstr_extend: "strstr hay p = Some s \<Longrightarrow> prefix p q \<Longrightarrow> strstr hay q = strstr s q"
proof (induction hay)
  case Nil
  then show ?case by (auto split: if_splits)
next
  case (Cons c cs)
  show ?case
  proof (cases "prefix p (c # cs)")
    case True
    with Cons.prems show ?thesis by simp
  next
    case False
    with Cons.prems(2) have "\<not> prefix q (c # cs)" using prefix_order.trans by blast
    with False Cons show ?thesis by simp
  qed
qed

lemma strstr_extend_None: "strstr hay p = None \<Longrightarrow> prefix p q \<Longrightarrow> strstr hay q = None"
  unfolding strstr_None_iff
  by (metis prefix_imp_sublist sublist_order.order_trans)

lemma strstr_cookie_next:
  "\<not> prefix p t \<Longrightarrow> strstr (''Cookie: '' @ t) (''Cookie: '' @ p) = strstr t (''Cookie: '' @ p)"
  by simp

lemma get_cookie_strstr:
  "http_get_cookie str c = map_option (drop (9 + length c)) (strstr str (''Cookie: '' @ c @ ''=''))"
proof (induction str c rule: http_get_cookie.induct)
  case (1 str c)
  let ?p = "''Cookie: '' @ c @ ''=''"
  have ext: "prefix ''Cookie: '' ?p" by simp
  show ?case
  proof (cases "strstr str ''Cookie: ''")
    case None
    with strstr_extend_None [OF None ext] show ?thesis by (simp add: http_get_cookie.simps [of str])
  next
    case (Some s)
    then have "prefix ''Cookie: '' s" using strstr_Some [OF Some] by blast
    then obtain t where s: "s = ''Cookie: '' @ t" unfolding prefix_def by blast
    have "strstr str ?p = strstr s ?p" by (rule strstr_extend [OF Some ext])
    moreover have "drop 8 s = t" "drop (9 + length c) s = drop (length c + 1) (drop 8 s)"
      by (simp add: s) (simp add: add.commute)
    ultimately show ?thesis
      using 1 [OF Some refl] Some strstr_cookie_next [of "c @ ''=''" t]
      by (cases "prefix (c @ ''='') t") (simp_all add: http_get_cookie.simps [of str] s del: drop_drop)
  qed
qed

subsection \<open>Properties\<close>

text \<open>A handler that adds several headers sends only the last one: \<open>header_size\<close> is
  never advanced, so each entry overwrites the one before. (Entries short enough for the first
  block; none of them faults.)\<close>

theorem only_last_header:
  assumes "\<forall>(n, v) \<in> set es. nul \<notin> set n \<and> nul \<notin> set v \<and> length n + length v < 124" "es \<noteq> []"
  shows "\<exists>r. add_headers new_response es = Inr r \<and>
    header_text r = Inr (header_entry (fst (last es)) (snd (last es)))"
proof -
  have "header_size new_response = 0" "length (header_buf new_response) = header_buf_size new_response"
    "header_buf_size new_response \<in> {0, 128}" by (simp_all add: new_response_def)
  from add_headers_short [OF assms(1) this] assms(2) show ?thesis by auto
qed

theorem only_last_header_witness:
  "\<exists>r. add_headers new_response [(''Set-Cookie'', ''session_id=1''), (''X-Frame-Options'', ''DENY'')] = Inr r \<and>
     header_text r = Inr (header_entry ''X-Frame-Options'' ''DENY'')"
  using only_last_header [of "[(''Set-Cookie'', ''session_id=1''), (''X-Frame-Options'', ''DENY'')]"]
  by (simp add: nul_def)

text \<open>When \<open>http_add_header_entry\<close> writes past its block: exactly when the block does
  not grow beyond the entry, because it is counted without its NUL. So a first header of 124 or more
  characters of name and value overflows the heap by one byte, and so does a later one that is
  as long as the block.\<close>

theorem header_entry_overflow:
  assumes "header_size r = 0" "length (header_buf r) = header_buf_size r"
  shows "http_add_header_entry r n v = Inl f \<longleftrightarrow> f = OutOfBounds \<and>
    (if header_buf_size r = 0 then 124 \<le> length n + length v
     else length n + length v + 4 = header_buf_size r)"
  using add_header_fault [OF assms, of n v f] by (auto simp: grown_def)

theorem header_entry_overflow_witness:
  "http_add_header_entry new_response ''Set-Cookie'' (replicate 114 CHR ''x'') = Inl OutOfBounds"
  using header_entry_overflow [of new_response "''Set-Cookie''" "replicate 114 CHR ''x''" OutOfBounds]
  by (simp add: new_response_def)

text \<open>The two fixed arrays of the response: the content type and the redirect location
  are stored in full, or the call writes past the array; the bound on each argument is exact.\<close>

theorem fixed_arrays_bound:
  assumes "nul \<notin> set type" "nul \<notin> set loc"
  shows "http_set_content_type r type cs =
      (if length type + (if cs then 15 else 0) < 112
       then Inr (r\<lparr>content_type := crlf @ ''Content-Type: '' @ type @
              (if cs then ''; charset=utf-8'' else [])\<rparr>) else Inl OutOfBounds) \<and>
    http_set_redirect r loc =
      (if length loc < 116 then Inr (r\<lparr>location := crlf @ ''Location: '' @ loc\<rparr>) else Inl OutOfBounds)"
proof -
  have nuls: "nul \<notin> set (crlf @ ''Content-Type: '' @ type @ (if cs then ''; charset=utf-8'' else []))"
    "nul \<notin> set (crlf @ ''Location: '' @ loc)"
    using assms crlf_no_nul by (simp_all add: nul_def)
  have long: "sprintf_at (replicate 128 None) 0 s = Inl OutOfBounds" if "128 \<le> length s" for s
    using sprintf_at_fault [of "replicate 128 None" 0 s] that by simp
  have short: "bind_res (sprintf_at (replicate 128 None) 0 s) (\<lambda>b. bind_res (read_str b) k) = k s"
    if "length s < 128" "nul \<notin> set s" for s k
    using sprintf_at_start [of s "replicate 128 None"] read_str_text [OF that(2)] that(1) by simp
  have "http_set_content_type r type cs =
      (if length type + (if cs then 15 else 0) < 112
       then Inr (r\<lparr>content_type := crlf @ ''Content-Type: '' @ type @
              (if cs then ''; charset=utf-8'' else [])\<rparr>) else Inl OutOfBounds)" (is "_ = ?R")
  proof (cases "length type + (if cs then 15 else 0) < 112")
    case True
    then have "length (crlf @ ''Content-Type: '' @ type @ (if cs then ''; charset=utf-8'' else [])) < 128"
      by (auto simp: crlf_def)
    from short [OF this nuls(1)] True show ?thesis
      unfolding http_set_content_type_def Let_def by (simp only: if_True)
  next
    case False
    then have "128 \<le> length (crlf @ ''Content-Type: '' @ type @ (if cs then ''; charset=utf-8'' else []))"
      by (auto simp: crlf_def split: if_splits)
    from long [OF this] False show ?thesis
      unfolding http_set_content_type_def Let_def by (simp only: if_False bind_res_simps)
  qed
  moreover have "http_set_redirect r loc =
      (if length loc < 116 then Inr (r\<lparr>location := crlf @ ''Location: '' @ loc\<rparr>) else Inl OutOfBounds)"
  proof (cases "length loc < 116")
    case True
    then have "length (crlf @ ''Location: '' @ loc) < 128" by (simp add: crlf_def)
    from short [OF this nuls(2)] True show ?thesis
      unfolding http_set_redirect_def by (simp only: if_True)
  next
    case False
    then have "128 \<le> length (crlf @ ''Location: '' @ loc)" by (simp add: crlf_def)
    from long [OF this] False show ?thesis
      unfolding http_set_redirect_def by (simp only: if_False bind_res_simps)
  qed
  ultimately show ?thesis by blast
qed

theorem fixed_arrays_bound_witness:
  "http_set_redirect new_response (CHR ''/'' # replicate 120 CHR ''x'') = Inl OutOfBounds"
  using fixed_arrays_bound [of "''text/html''" "CHR ''/'' # replicate 120 CHR ''x''" new_response]
  by (simp add: nul_def)

text \<open>Property C7. The reply of a response filled by these functions is never truncated: it is the
  status line, the headers and the length of the body, whatever their sizes.\<close>

theorem reply_complete:
  assumes "response_ok r" "status_line r = Some st" "- (2 ^ 31) \<le> code r" "code r < 2 ^ 31"
  shows "\<exists>hdr. header_text r = Inr hdr \<and> http_reply r = Inr (reply_text r st hdr)"
  using assms by (rule reply_of_ok)

theorem reply_complete_witness:
  "\<exists>r. http_set_response_code new_response HTTP_404_NOT_FOUND = Inr r \<and>
     http_reply r = Inr (''HTTP/1.1 404 Not Found'' @ crlf @ ''Content-Length: 0'' @ crlf @ crlf)"
proof -
  let ?r = "new_response\<lparr>code := 404, status_line := Some ''Not Found''\<rparr>"
  have r: "http_set_response_code new_response HTTP_404_NOT_FOUND = Inr ?r"
    by (simp add: http_set_response_code_def HTTP_404_NOT_FOUND_def HttpResponses_def)
  have ok: "response_ok ?r" by (simp add: response_ok_def new_response_def header_text_def)
  have "dec_int 404 = ''404''" "dec_ld 0 = ''0''"
    by code_simp+
  with reply_complete [OF ok, of "''Not Found''"] r show ?thesis
    by (auto simp: reply_text_def new_response_def header_text_def)
qed

text \<open>\<open>http_get_cookie\<close> finds a cookie exactly when it comes first in a \<open>Cookie\<close> header,
  and returns all of the request behind its equals sign.\<close>

theorem get_cookie_first:
  "http_get_cookie raw c = map_option (drop (9 + length c)) (strstr raw (''Cookie: '' @ c @ ''=''))"
  by (rule get_cookie_strstr)

text \<open>So a session cookie that a browser sends after another one is not seen.\<close>

lemma get_cookie_second:
  "http_get_cookie ''Cookie: theme=dark; session_id=42'' ''session_id'' = None"
  by (simp add: get_cookie_strstr)

end
