(* ===== verification/PathTree.thy ===== *)
theory PathTree
  imports CString
begin

section \<open>The tree of registered paths (server/http.c)\<close>

text \<open>
  A \<open>pathname_t\<close> is a node with one handler slot per method, its children in registration order
  and its name. A slot the code leaves as \<open>malloc\<close> returned it is \<open>Undef\<close>: the two constructors
  set only \<open>get\<close> and \<open>post\<close>. A pointer to a node is the list of child indices from the root.
\<close>

datatype 'h slot = Undef | Null | Handler 'h

datatype 'h pathname = Pathname
  (get: "'h slot") (post: "'h slot") (put: "'h slot") (patch: "'h slot") (delete: "'h slot")
  (paths: "'h pathname list") (path: string)

definition http_create_url_path :: "string \<Rightarrow> 'h pathname" where
  "http_create_url_path name = Pathname Null Null Undef Undef Undef [] name"

definition http_init_url_paths :: "'h pathname" where
  "http_init_url_paths = Pathname Null Null Undef Undef Undef [] []"

fun with_paths :: "'h pathname list \<Rightarrow> 'h pathname \<Rightarrow> 'h pathname" where
  "with_paths ps (Pathname g p u a d _ n) = Pathname g p u a d ps n"

definition http_add_child_path :: "'h pathname \<Rightarrow> 'h pathname \<Rightarrow> 'h pathname" where
  "http_add_child_path base child = with_paths (paths base @ [child]) base"

fun node_at :: "'h pathname \<Rightarrow> nat list \<Rightarrow> 'h pathname option" where
  "node_at t [] = Some t"
| "node_at t (i # r) = (if i < length (paths t) then node_at (paths t ! i) r else None)"

fun update_at :: "nat list \<Rightarrow> ('h pathname \<Rightarrow> 'h pathname) \<Rightarrow> 'h pathname \<Rightarrow> 'h pathname" where
  "update_at [] f t = f t"
| "update_at (i # r) f t = with_paths ((paths t)[i := update_at r f (paths t ! i)]) t"

subsection \<open>Resolving a url\<close>

text \<open>
  The inner \<open>for\<close> loop over the children, from child \<open>i\<close>, at the rest \<open>s\<close> of the url: a child
  that is all of \<open>s\<close>, or that is followed by a slash in \<open>s\<close>.
\<close>

datatype found = NoChild | Exact nat | Descend nat

fun match_child :: "'h pathname list \<Rightarrow> string \<Rightarrow> nat \<Rightarrow> found" where
  "match_child [] s i = NoChild"
| "match_child (temp # cs) s i =
     (if length (path temp) > length s then match_child cs s (Suc i)
      else if length (path temp) < length s then
        (if take (length (path temp)) s = path temp \<and> s ! length (path temp) = CHR ''/''
         then Descend i else match_child cs s (Suc i))
      else if path temp = s then Exact i
      else match_child cs s (Suc i))"

definition skip_slashes :: "string \<Rightarrow> string" where
  "skip_slashes s = dropWhile (\<lambda>c. c = CHR ''/'') s"

lemma match_child_bound:
  "match_child cs s i = Descend j \<or> match_child cs s i = Exact j \<Longrightarrow> i \<le> j \<and> j < i + length cs"
  by (induction cs s i rule: match_child.induct) (fastforce split: if_splits)+

lemma size_child: "i < length (paths t) \<Longrightarrow> size (paths t ! i) < size t"
  by (cases t) (auto dest!: nth_mem size_list_estimation'[where f = size, OF _ order_refl])

text \<open>
  The outer loop: the node reached (as a route from \<open>cur\<close>) and what \<open>*remaining\<close> is set to;
  \<open>None\<close> is NULL.
\<close>

function http_resolve_path :: "'h pathname \<Rightarrow> string \<Rightarrow> nat list \<times> string option" where
  "http_resolve_path cur s =
     (let s1 = skip_slashes s in
      if s1 = [] then ([], None)
      else if paths cur = [] then ([], Some s1)
      else case match_child (paths cur) s1 0 of
             NoChild \<Rightarrow> ([], Some s1)
           | Exact i \<Rightarrow> ([i], None)
           | Descend i \<Rightarrow>
               (let (r, rem) = http_resolve_path (paths cur ! i) (drop (length (path (paths cur ! i))) s1)
                in (i # r, rem)))"
  by pat_completeness auto
termination
proof (relation "measure (\<lambda>(cur, s). size cur)", goal_cases)
  case (2 cur s s1 i)
  then have "i < length (paths cur)" using match_child_bound [of "paths cur" s1 0 i] by simp
  then show ?case using size_child by simp
qed simp

declare http_resolve_path.simps [simp del]

subsection \<open>Registering a method\<close>

text \<open>
  The \<open>while(remain_len)\<close> loop creates one child per segment, each named by all that remains of
  the path (\<open>http_create_url_path(remaining, remain_len)\<close>), and descends into it.
\<close>

definition next_segment :: "string \<Rightarrow> string" where
  "next_segment s = skip_slashes (dropWhile (\<lambda>c. c \<noteq> CHR ''/'') s)"

lemma next_segment_length: "s \<noteq> [] \<Longrightarrow> length (next_segment s) < length s"
proof -
  assume "s \<noteq> []"
  have skip: "length (skip_slashes r) \<le> length r" for r by (simp add: skip_slashes_def length_dropWhile_le)
  show ?thesis
  proof (cases s)
    case (Cons c cs)
    have "length (dropWhile (\<lambda>c. c \<noteq> CHR ''/'') cs) \<le> length cs"
      by (simp add: length_dropWhile_le)
    then show ?thesis using Cons skip [of cs] skip [of "dropWhile (\<lambda>c. c \<noteq> CHR ''/'') cs"]
      by (auto simp: next_segment_def skip_slashes_def)
  qed (use \<open>s \<noteq> []\<close> in simp)
qed

function add_segments :: "'h pathname \<Rightarrow> nat list \<Rightarrow> string \<Rightarrow> 'h pathname \<times> nat list" where
  "add_segments root uri remaining =
     (if remaining = [] then (root, uri)
      else
        let k = (case node_at root uri of Some u \<Rightarrow> length (paths u) | None \<Rightarrow> 0) in
        add_segments
          (update_at uri (\<lambda>u. http_add_child_path u (http_create_url_path remaining)) root)
          (uri @ [k]) (next_segment remaining))"
  by pat_completeness auto
termination
  by (relation "measure (\<lambda>(root, uri, s). length s)") (auto simp: next_segment_length)

declare add_segments.simps [simp del]

definition HTTP_GET :: int where "HTTP_GET = 1"
definition HTTP_POST :: int where "HTTP_POST = 2"
definition HTTP_PUT :: int where "HTTP_PUT = 3"
definition HTTP_PATCH :: int where "HTTP_PATCH = 4"
definition HTTP_DELETE :: int where "HTTP_DELETE = 5"

text \<open>The \<open>switch\<close>: \<open>None\<close> is \<open>return -1\<close>; a comparison of an \<open>Undef\<close> slot reads uninitialised
  memory.\<close>

definition claim_slot :: "'h slot \<Rightarrow> 'h \<Rightarrow> 'h slot option res" where
  "claim_slot sl m =
     (case sl of Undef \<Rightarrow> Inl UninitRead | Handler _ \<Rightarrow> Inr None | Null \<Rightarrow> Inr (Some (Handler m)))"

fun set_method :: "'h pathname \<Rightarrow> int \<Rightarrow> 'h \<Rightarrow> 'h pathname option res" where
  "set_method (Pathname g p u a d ps n) type m =
     (if type = HTTP_GET then map_sum id (map_option (\<lambda>x. Pathname x p u a d ps n)) (claim_slot g m)
      else if type = HTTP_POST then map_sum id (map_option (\<lambda>x. Pathname g x u a d ps n)) (claim_slot p m)
      else if type = HTTP_PUT then map_sum id (map_option (\<lambda>x. Pathname g p x a d ps n)) (claim_slot u m)
      else if type = HTTP_PATCH then map_sum id (map_option (\<lambda>x. Pathname g p u x d ps n)) (claim_slot a m)
      else if type = HTTP_DELETE then map_sum id (map_option (\<lambda>x. Pathname g p u a x ps n)) (claim_slot d m)
      else Inr None)"

text \<open>\<open>root\<close> is \<open>None\<close> for a NULL server or a server without a tree.\<close>

definition http_register_method :: "'h pathname option \<Rightarrow> string \<Rightarrow> int \<Rightarrow> 'h \<Rightarrow>
    ('h pathname option \<times> int) res" where
  "http_register_method root p type m =
     (case root of None \<Rightarrow> Inr (None, -1)
      | Some t \<Rightarrow>
          let (route, remaining) = http_resolve_path t p;
              (t', uri) = (case remaining of None \<Rightarrow> (t, route) | Some r \<Rightarrow> add_segments t route r)
          in case node_at t' uri of
               None \<Rightarrow> Inl NullDeref
             | Some u \<Rightarrow>
                 (case set_method u type m of
                    Inl f \<Rightarrow> Inl f
                  | Inr None \<Rightarrow> Inr (Some t', -1)
                  | Inr (Some u') \<Rightarrow> Inr (Some (update_at uri (\<lambda>_. u') t'), 0)))"

subsection \<open>Resolving returns a node of the tree and a suffix of the url\<close>

lemma skip_slashes_suffix: "suffix (skip_slashes s) s"
  by (simp add: skip_slashes_def suffix_dropWhile)

lemma skip_slashes_hd: "skip_slashes s \<noteq> [] \<Longrightarrow> hd (skip_slashes s) \<noteq> CHR ''/''"
  using hd_dropWhile [of "\<lambda>c. c = CHR ''/''" s] by (auto simp: skip_slashes_def)

lemma resolve_node:
  "\<exists>u. node_at t (fst (http_resolve_path t s)) = Some u"
proof (induction t s rule: http_resolve_path.induct)
  case (1 cur s)
  show ?case
  proof (cases "skip_slashes s = [] \<or> paths cur = []")
    case False
    then show ?thesis
      using "1.IH" [OF refl] match_child_bound [of "paths cur" "skip_slashes s" 0]
      by (cases "match_child (paths cur) (skip_slashes s) 0")
         (auto simp: http_resolve_path.simps [of cur s] Let_def split: prod.splits)
  qed (auto simp: http_resolve_path.simps [of cur s] Let_def)
qed

lemma resolve_suffix:
  "snd (http_resolve_path t s) = Some r \<Longrightarrow> suffix r s \<and> r \<noteq> [] \<and> hd r \<noteq> CHR ''/''"
proof (induction t s rule: http_resolve_path.induct)
  case (1 cur s)
  let ?s = "skip_slashes s"
  show ?case
  proof (cases "?s = [] \<or> paths cur = []")
    case True
    with "1.prems" show ?thesis
      using skip_slashes_suffix [of s] skip_slashes_hd [of s]
      by (auto simp: http_resolve_path.simps [of cur s] Let_def split: if_splits)
  next
    case False
    show ?thesis
    proof (cases "match_child (paths cur) ?s 0")
      case (Descend i)
      let ?r = "drop (length (path (paths cur ! i))) ?s"
      have "snd (http_resolve_path (paths cur ! i) ?r) = Some r"
        using "1.prems" False Descend
        by (auto simp: http_resolve_path.simps [of cur s] Let_def split: prod.splits)
      then have "suffix r ?r \<and> r \<noteq> [] \<and> hd r \<noteq> CHR ''/''"
        using "1.IH" [OF refl] False Descend by simp
      moreover have "suffix ?r s"
        using skip_slashes_suffix [of s] suffix_drop suffix_order.trans by blast
      ultimately show ?thesis using suffix_order.trans by blast
    qed (use "1.prems" False skip_slashes_suffix [of s] skip_slashes_hd [of s] in
        \<open>auto simp: http_resolve_path.simps [of cur s] Let_def\<close>)
  qed
qed

subsection \<open>Flat trees: every registered path has one segment\<close>

text \<open>A key names the root (empty) or one segment; the registered path is a slash and the key.\<close>

definition no_slash :: "string \<Rightarrow> bool" where
  "no_slash n \<longleftrightarrow> CHR ''/'' \<notin> set n"

definition flat :: "'h pathname \<Rightarrow> bool" where
  "flat t \<longleftrightarrow> (\<forall>c \<in> set (paths t). paths c = [] \<and> path c \<noteq> [] \<and> no_slash (path c)) \<and>
     distinct (map path (paths t))"

fun child_index :: "'h pathname list \<Rightarrow> string \<Rightarrow> nat option" where
  "child_index [] n = None"
| "child_index (c # cs) n = (if path c = n then Some 0 else map_option Suc (child_index cs n))"

lemma child_index_Some: "child_index cs n = Some i \<Longrightarrow> i < length cs \<and> path (cs ! i) = n"
  by (induction cs arbitrary: i) (auto split: if_splits)

lemma child_index_None: "child_index cs n = None \<longleftrightarrow> n \<notin> path ` set cs"
  by (induction cs) auto

lemma child_index_append:
  "child_index (cs @ [c]) n =
     (case child_index cs n of Some i \<Rightarrow> Some i | None \<Rightarrow> if path c = n then Some (length cs) else None)"
  by (induction cs) (auto split: option.splits)

lemma child_index_update:
  "path c = path (cs ! i) \<Longrightarrow> child_index (cs[i := c]) n = child_index cs n"
  by (induction cs arbitrary: i) (auto split: nat.splits)

lemma seg_cases:
  assumes "no_slash n" "n \<noteq> []" "no_slash seg" "rest = [] \<or> hd rest = CHR ''/''"
  shows "(length n < length (seg @ rest) \<and> take (length n) (seg @ rest) = n \<and>
      (seg @ rest) ! length n = CHR ''/'') \<longleftrightarrow> n = seg \<and> rest \<noteq> []"
proof (cases "length n \<le> length seg")
  case True
  show ?thesis
  proof (cases "length n = length seg")
    case True
    with assms(4) show ?thesis by (cases rest) (auto simp: nth_append)
  next
    case False
    with True have "(seg @ rest) ! length n = seg ! length n" "length n < length seg"
      by (auto simp: nth_append)
    moreover from this have "seg ! length n \<noteq> CHR ''/''"
      using assms(3) nth_mem unfolding no_slash_def by metis
    ultimately show ?thesis using False by auto
  qed
next
  case False
  have "\<not> (length n < length (seg @ rest) \<and> take (length n) (seg @ rest) = n)"
  proof
    assume a: "length n < length (seg @ rest) \<and> take (length n) (seg @ rest) = n"
    with False have "n ! length seg = (seg @ rest) ! length seg"
      by (metis nth_take not_le)
    moreover have "rest \<noteq> []" using a False by auto
    ultimately have "n ! length seg = CHR ''/''" using assms(4) by (cases rest) (auto simp: nth_append)
    moreover have "n ! length seg \<in> set n" using False by simp
    ultimately show False using assms(1) by (simp add: no_slash_def)
  qed
  with False show ?thesis by auto
qed

lemma match_child_flat:
  assumes "\<forall>c \<in> set cs. path c \<noteq> [] \<and> no_slash (path c)" "no_slash seg"
    "rest = [] \<or> hd rest = CHR ''/''"
  shows "match_child cs (seg @ rest) i =
    (case child_index cs seg of None \<Rightarrow> NoChild
     | Some k \<Rightarrow> if rest = [] then Exact (i + k) else Descend (i + k))"
  using assms(1)
proof (induction cs arbitrary: i)
  case Nil
  then show ?case by simp
next
  case (Cons c cs)
  have c: "path c \<noteq> []" "no_slash (path c)" using Cons.prems by auto
  have exact: "path c = seg @ rest \<longleftrightarrow> path c = seg \<and> rest = []"
    using c(2) assms(3) by (cases rest) (auto simp: no_slash_def)
  show ?case
    using Cons seg_cases [OF c(2,1) assms(2,3)] exact
    by (auto split: option.splits)
qed

lemma skip_slashes_Cons: "skip_slashes (CHR ''/'' # s) = skip_slashes s"
  by (simp add: skip_slashes_def)

lemma skip_slashes_id: "s \<noteq> [] \<Longrightarrow> hd s \<noteq> CHR ''/'' \<Longrightarrow> skip_slashes s = s"
  by (cases s) (simp_all add: skip_slashes_def)

lemma no_slash_hd: "no_slash s \<Longrightarrow> s \<noteq> [] \<Longrightarrow> hd s \<noteq> CHR ''/''"
  by (cases s) (auto simp: no_slash_def)

text \<open>The whole url on a flat tree: the first segment picks the child, the rest is returned.\<close>

lemma resolve_flat:
  assumes flat: "flat t" and seg: "no_slash seg" "seg \<noteq> []" and rest: "rest = [] \<or> hd rest = CHR ''/''"
    and s: "skip_slashes s = seg @ rest"
  shows "http_resolve_path t s =
    (case child_index (paths t) seg of
       None \<Rightarrow> ([], Some (seg @ rest))
     | Some i \<Rightarrow> ([i], if skip_slashes rest = [] then None else Some (skip_slashes rest)))"
proof (cases "child_index (paths t) seg")
  case None
  then have "match_child (paths t) (seg @ rest) 0 = NoChild"
    using match_child_flat [of "paths t" seg rest 0] flat seg rest by (simp add: flat_def)
  with None s seg show ?thesis by (simp add: http_resolve_path.simps [of t s] Let_def)
next
  case (Some i)
  then have i: "i < length (paths t)" "path (paths t ! i) = seg" using child_index_Some by auto
  with flat have leaf: "paths (paths t ! i) = []" by (auto simp: flat_def)
  have m: "match_child (paths t) (seg @ rest) 0 = (if rest = [] then Exact i else Descend i)"
    using match_child_flat [of "paths t" seg rest 0] flat seg rest Some by (simp add: flat_def)
  have "paths t \<noteq> []" using i by auto
  with m s seg i leaf Some show ?thesis
    by (auto simp: http_resolve_path.simps [of t s] http_resolve_path.simps [of "paths t ! i"]
        Let_def skip_slashes_def)
qed

lemma resolve_root: "skip_slashes s = [] \<Longrightarrow> http_resolve_path t s = ([], None)"
  by (simp add: http_resolve_path.simps [of t s])

subsection \<open>Registering on a flat tree\<close>

definition slot_of :: "int \<Rightarrow> 'h pathname \<Rightarrow> 'h slot" where
  "slot_of type u =
     (if type = HTTP_GET then get u else if type = HTTP_POST then post u
      else if type = HTTP_PUT then put u else if type = HTTP_PATCH then patch u
      else if type = HTTP_DELETE then delete u else Undef)"

text \<open>The handler the server calls for a url, if there is one.\<close>

definition handler_of :: "'h pathname \<Rightarrow> int \<Rightarrow> string \<Rightarrow> 'h option" where
  "handler_of t type url =
     (case node_at t (fst (http_resolve_path t url)) of
        None \<Rightarrow> None
      | Some u \<Rightarrow> (case slot_of type u of Handler h \<Rightarrow> Some h | _ \<Rightarrow> None))"

text \<open>The handler registered under a key itself, not inherited from the root.\<close>

definition key_handler :: "'h pathname \<Rightarrow> string \<times> int \<Rightarrow> 'h option" where
  "key_handler t k =
     (if snd (http_resolve_path t (CHR ''/'' # fst k)) = None
      then handler_of t (snd k) (CHR ''/'' # fst k) else None)"

lemma resolve_key:
  assumes "flat t" "no_slash seg"
  shows "http_resolve_path t (CHR ''/'' # seg) =
    (if seg = [] then ([], None)
     else case child_index (paths t) seg of None \<Rightarrow> ([], Some seg) | Some i \<Rightarrow> ([i], None))"
proof (cases "seg = []")
  case True
  then show ?thesis by (simp add: resolve_root skip_slashes_def)
next
  case False
  then have "skip_slashes (CHR ''/'' # seg) = seg @ []"
    using no_slash_hd [OF assms(2)] by (simp add: skip_slashes_Cons skip_slashes_id)
  from resolve_flat [OF assms False _ this] False show ?thesis
    by (auto simp: skip_slashes_def split: option.splits)
qed

definition node_of :: "'h pathname \<Rightarrow> string \<Rightarrow> 'h pathname option" where
  "node_of t seg =
     (if seg = [] then Some t
      else map_option (\<lambda>i. paths t ! i) (child_index (paths t) seg))"

lemma key_handler_flat:
  assumes "flat t" "no_slash seg"
  shows "key_handler t (seg, type) =
    (case node_of t seg of
       None \<Rightarrow> None
     | Some u \<Rightarrow> (case slot_of type u of Handler h \<Rightarrow> Some h | _ \<Rightarrow> None))"
  using child_index_Some [of "paths t" seg]
  by (auto simp: key_handler_def handler_of_def resolve_key [OF assms] node_of_def split: option.splits)

lemma next_segment_last: "no_slash seg \<Longrightarrow> next_segment seg = []"
proof -
  assume "no_slash seg"
  then have "dropWhile (\<lambda>c. c \<noteq> CHR ''/'') seg = []"
    by (auto simp: no_slash_def dropWhile_eq_Nil_conv)
  then show ?thesis unfolding next_segment_def skip_slashes_def by (simp only: dropWhile.simps)
qed

lemma add_segments_one:
  assumes "no_slash seg" "seg \<noteq> []"
  shows "add_segments t [] seg =
    (http_add_child_path t (http_create_url_path seg), [length (paths t)])"
  using assms
  by (subst add_segments.simps) (simp add: Let_def next_segment_last add_segments.simps [of _ _ "[]"])

definition http_type :: "int \<Rightarrow> bool" where
  "http_type type \<longleftrightarrow> type \<in> {HTTP_GET, HTTP_POST, HTTP_PUT, HTTP_PATCH, HTTP_DELETE}"

lemmas http_methods = HTTP_GET_def HTTP_POST_def HTTP_PUT_def HTTP_PATCH_def HTTP_DELETE_def

lemma set_method_fault:
  "set_method u type m = Inl f \<longleftrightarrow> f = UninitRead \<and> http_type type \<and> slot_of type u = Undef"
  by (cases u) (auto simp: http_type_def slot_of_def claim_slot_def http_methods split: slot.splits)

lemma set_method_None:
  "set_method u type m = Inr None \<longleftrightarrow> \<not> http_type type \<or> (\<exists>h. slot_of type u = Handler h)"
  by (cases u) (auto simp: http_type_def slot_of_def claim_slot_def http_methods split: slot.splits)

lemma set_method_Some:
  assumes "set_method u type m = Inr (Some u')"
  shows "paths u' = paths u \<and> path u' = path u \<and> slot_of type u' = Handler m \<and>
    slot_of type u = Null \<and> (\<forall>k. k \<noteq> type \<longrightarrow> slot_of k u' = slot_of k u)"
  using assms
  by (cases u) (auto simp: slot_of_def claim_slot_def http_methods split: if_splits slot.splits)

lemma with_paths_simps [simp]:
  "paths (with_paths ps t) = ps" "path (with_paths ps t) = path t"
  "slot_of k (with_paths ps t) = slot_of k t" "with_paths ps (with_paths qs t) = with_paths ps t"
  "with_paths (paths t) t = t"
  by (cases t; simp add: slot_of_def)+

text \<open>The node of a key is created if absent; \<open>put_node\<close> replaces it.\<close>

definition ensure_node :: "'h pathname \<Rightarrow> string \<Rightarrow> 'h pathname" where
  "ensure_node t seg =
     (if node_of t seg = None then http_add_child_path t (http_create_url_path seg) else t)"

definition put_node :: "'h pathname \<Rightarrow> string \<Rightarrow> 'h pathname \<Rightarrow> 'h pathname" where
  "put_node t seg u =
     (if seg = [] then u
      else with_paths ((paths t)[the (child_index (paths t) seg) := u]) t)"

text \<open>The slot of a key, if its node exists: what the laws below are about.\<close>

definition key_slot :: "'h pathname \<Rightarrow> string \<times> int \<Rightarrow> 'h slot option" where
  "key_slot t k = map_option (slot_of (snd k)) (node_of t (fst k))"

lemma node_None:
  "node_of t seg = None \<Longrightarrow> seg \<noteq> [] \<and> child_index (paths t) seg = None \<and> seg \<notin> path ` set (paths t)"
  by (auto simp: node_of_def child_index_None [symmetric] split: if_splits)

lemma ensure_node:
  assumes "flat t" "no_slash seg"
  shows "flat (ensure_node t seg)"
    and "key_slot (ensure_node t seg) k =
      (if fst k = seg \<and> node_of t seg = None then Some (slot_of (snd k) (http_create_url_path seg))
       else key_slot t k)"
    and "node_of (ensure_node t seg) seg \<noteq> None"
proof -
  let ?c = "http_create_url_path seg :: 'a pathname"
  have c: "path ?c = seg" "paths ?c = []" by (simp_all add: http_create_url_path_def)
  show "flat (ensure_node t seg)"
    using assms node_None [of t seg] c by (auto simp: ensure_node_def http_add_child_path_def flat_def)
  show "key_slot (ensure_node t seg) k =
      (if fst k = seg \<and> node_of t seg = None then Some (slot_of (snd k) ?c) else key_slot t k)"
  proof (cases "node_of t seg")
    case None
    then show ?thesis using node_None [OF None] c child_index_Some [of "paths t" "fst k"]
      by (auto simp: key_slot_def ensure_node_def node_of_def http_add_child_path_def
          child_index_append nth_append split: option.splits)
  qed (simp add: ensure_node_def)
  show "node_of (ensure_node t seg) seg \<noteq> None"
    using node_None [of t seg] c
    by (auto simp: ensure_node_def node_of_def http_add_child_path_def child_index_append)
qed

lemma put_node:
  assumes "flat t" "node_of t seg = Some u" "paths u' = paths u" "path u' = path u"
  shows "flat (put_node t seg u')"
    and "key_slot (put_node t seg u') k =
      (if fst k = seg then Some (slot_of (snd k) u') else key_slot t k)"
proof -
  let ?i = "the (child_index (paths t) seg)"
  have i: "seg \<noteq> [] \<Longrightarrow> child_index (paths t) seg = Some ?i \<and> ?i < length (paths t) \<and>
      u = paths t ! ?i \<and> path u = seg"
    using assms(2) child_index_Some [of "paths t" seg] by (auto simp: node_of_def)
  have upd: "seg \<noteq> [] \<Longrightarrow> map path ((paths t)[?i := u']) = map path (paths t)"
    using i assms(4) by (auto simp: map_update list_update_same_conv)
  show "flat (put_node t seg u')"
  proof (cases "seg = []")
    case True
    with assms show ?thesis by (auto simp: put_node_def flat_def node_of_def)
  next
    case False
    have u: "u \<in> set (paths t)" using i [OF False] nth_mem by auto
    have leaf: "paths c = [] \<and> path c \<noteq> [] \<and> no_slash (path c)"
      if "c \<in> set ((paths t)[?i := u'])" for c
    proof -
      have "c \<in> set (paths t) \<or> c = u'" using that set_update_subset_insert by fastforce
      then show ?thesis using u assms(1,3,4) by (auto simp: flat_def)
    qed
    have dist: "distinct (map path ((paths t)[?i := u']))"
      using upd [OF False] assms(1) by (simp only: flat_def)
    have p: "paths (put_node t seg u') = (paths t)[?i := u']" using False by (simp add: put_node_def)
    show ?thesis unfolding flat_def p using leaf dist by blast
  qed
  show "key_slot (put_node t seg u') k =
      (if fst k = seg then Some (slot_of (snd k) u') else key_slot t k)"
  proof (cases "seg = []")
    case True
    with assms show ?thesis by (auto simp: put_node_def key_slot_def node_of_def)
  next
    case False
    have "child_index ((paths t)[?i := u']) n = child_index (paths t) n" for n
      using i [OF False] assms(4) by (simp add: child_index_update)
    with False i child_index_Some [of "paths t" "fst k"] show ?thesis
      by (cases "child_index (paths t) (fst k)")
         (auto simp: put_node_def key_slot_def node_of_def nth_list_update)
  qed
qed

lemma register_flat:
  assumes "flat t" "no_slash seg"
  shows "http_register_method (Some t) (CHR ''/'' # seg) type m =
    (let t1 = ensure_node t seg in
     case set_method (the (node_of t1 seg)) type m of
       Inl f \<Rightarrow> Inl f
     | Inr None \<Rightarrow> Inr (Some t1, -1)
     | Inr (Some u') \<Rightarrow> Inr (Some (put_node t1 seg u'), 0))"
proof (cases "node_of t seg")
  case None
  then have seg: "seg \<noteq> []" "child_index (paths t) seg = None"
    by (auto simp: node_of_def split: if_splits)
  let ?c = "http_create_url_path seg :: 'a pathname"
  have t1: "ensure_node t seg = with_paths (paths t @ [?c]) t"
    using None by (simp add: ensure_node_def http_add_child_path_def)
  have ci: "child_index (paths t @ [?c]) seg = Some (length (paths t))"
    using seg(2) by (simp add: child_index_append http_create_url_path_def)
  show ?thesis using seg ci
    by (auto simp: http_register_method_def resolve_key [OF assms] add_segments_one [OF assms(2) seg(1)]
        t1 http_add_child_path_def node_of_def put_node_def Let_def split: sum.splits option.splits)
next
  case (Some u)
  then show ?thesis using child_index_Some [of "paths t" seg]
    by (auto simp: http_register_method_def resolve_key [OF assms] ensure_node_def node_of_def
        put_node_def Let_def split: sum.splits option.splits if_splits)
qed

subsection \<open>The routing table contract\<close>

text \<open>
  What an application relies on when it registers its handlers: a fresh key is accepted and
  afterwards answers with its handler, no other key changes, and a taken key is refused. The
  client's lemma is the loop that registers a list of routes.
\<close>

fun register_all :: "('t \<Rightarrow> 'k \<Rightarrow> 'h \<Rightarrow> 't option) \<Rightarrow> 't \<Rightarrow> ('k \<times> 'h) list \<Rightarrow> 't option" where
  "register_all reg t [] = Some t"
| "register_all reg t ((k, h) # rs) =
     (case reg t k h of None \<Rightarrow> None | Some t' \<Rightarrow> register_all reg t' rs)"

locale route_table =
  fixes invar :: "'t \<Rightarrow> bool"
    and valid :: "'k \<Rightarrow> bool"
    and lookup :: "'t \<Rightarrow> 'k \<Rightarrow> 'h option"
    and reg :: "'t \<Rightarrow> 'k \<Rightarrow> 'h \<Rightarrow> 't option"
  assumes reg_new: "invar t \<Longrightarrow> valid k \<Longrightarrow> lookup t k = None \<Longrightarrow>
      \<exists>t'. reg t k h = Some t' \<and> invar t' \<and>
        (\<forall>k'. valid k' \<longrightarrow> lookup t' k' = (if k' = k then Some h else lookup t k'))"
    and reg_taken: "invar t \<Longrightarrow> valid k \<Longrightarrow> lookup t k \<noteq> None \<Longrightarrow> reg t k h = None"
begin

lemma register_all_lookup:
  assumes "invar t" "\<forall>(k, h) \<in> set rs. valid k \<and> lookup t k = None" "distinct (map fst rs)"
  shows "\<exists>t'. register_all reg t rs = Some t' \<and> invar t' \<and>
    (\<forall>k. valid k \<longrightarrow> lookup t' k = (case map_of rs k of Some h \<Rightarrow> Some h | None \<Rightarrow> lookup t k))"
  using assms
proof (induction rs arbitrary: t)
  case Nil
  then show ?case by simp
next
  case (Cons r rs)
  obtain k h where r: "r = (k, h)" by (cases r)
  with Cons.prems have k: "valid k" "lookup t k = None" "k \<notin> fst ` set rs" by auto
  from reg_new [OF Cons.prems(1) k(1,2)] obtain t1 where t1: "reg t k h = Some t1" "invar t1"
    "\<forall>k'. valid k' \<longrightarrow> lookup t1 k' = (if k' = k then Some h else lookup t k')" by blast
  have "\<forall>(k', h) \<in> set rs. valid k' \<and> lookup t1 k' = None"
    using Cons.prems(2) t1(3) k(3) r by (force simp: image_iff)
  with Cons.IH [OF t1(2)] Cons.prems(3) obtain t' where t': "register_all reg t1 rs = Some t'"
    "invar t'" "\<forall>k. valid k \<longrightarrow> lookup t' k = (case map_of rs k of Some h \<Rightarrow> Some h | None \<Rightarrow> lookup t1 k)"
    by auto
  have "map_of rs k = None" using k(3) by (simp add: map_of_eq_None_iff)
  with t' t1 r show ?case by (auto split: option.splits)
qed

end

definition valid_key :: "string \<times> int \<Rightarrow> bool" where
  "valid_key k \<longleftrightarrow> no_slash (fst k) \<and> (snd k = HTTP_GET \<or> snd k = HTTP_POST)"

text \<open>A flat tree whose \<open>get\<close> and \<open>post\<close> slots are initialised.\<close>

definition table_ok :: "'h pathname \<Rightarrow> bool" where
  "table_ok t \<longleftrightarrow> flat t \<and>
     (\<forall>k. valid_key k \<longrightarrow> key_slot t k \<noteq> Some Undef)"

definition register_key :: "'h pathname \<Rightarrow> string \<times> int \<Rightarrow> 'h \<Rightarrow> 'h pathname option" where
  "register_key t k h =
     (case http_register_method (Some t) (CHR ''/'' # fst k) (snd k) h of
        Inr (Some t', r) \<Rightarrow> if r = 0 then Some t' else None
      | _ \<Rightarrow> None)"

lemma key_handler_slot:
  assumes "flat t" "no_slash (fst k)"
  shows "key_handler t k = (case key_slot t k of Some (Handler h) \<Rightarrow> Some h | _ \<Rightarrow> None)"
  using key_handler_flat [OF assms, of "snd k"] by (auto simp: key_slot_def split: option.splits)

lemma valid_type: "valid_key k \<Longrightarrow> http_type (snd k) \<and> no_slash (fst k)"
  by (auto simp: valid_key_def http_type_def)

lemma create_slots: "valid_key k \<Longrightarrow> slot_of (snd k) (http_create_url_path seg) = Null"
  by (auto simp: valid_key_def slot_of_def http_create_url_path_def http_methods)

text \<open>What a registration does to a table: the slot of its key changes, and only that.\<close>

lemma register_key_taken:
  assumes ok: "table_ok t" and k: "valid_key k" and taken: "\<exists>h. key_slot t k = Some (Handler h)"
  shows "http_register_method (Some t) (CHR ''/'' # fst k) (snd k) m = Inr (Some t, -1)"
proof -
  have flat: "flat t" and seg: "no_slash (fst k)" "http_type (snd k)"
    using ok valid_type [OF k] by (auto simp: table_ok_def)
  let ?t1 = "ensure_node t (fst k)"
  note e = ensure_node [OF flat seg(1)]
  obtain u where u: "node_of ?t1 (fst k) = Some u" using e(3) by blast
  have slot: "key_slot ?t1 k = Some (slot_of (snd k) u)" using u by (simp add: key_slot_def)
  note reg = register_flat [OF flat seg(1), of "snd k" m]
  from taken have n: "node_of t (fst k) \<noteq> None" and h: "\<exists>h. slot_of (snd k) u = Handler h"
    using slot e(2) [of k] by (auto simp: key_slot_def)
  from n have "?t1 = t" by (auto simp: ensure_node_def)
  moreover have "set_method u (snd k) m = Inr None" using set_method_None [of u "snd k" m] h by simp
  ultimately show ?thesis
    using reg u by (simp add: Let_def)
qed

lemma register_key_free:
  assumes ok: "table_ok t" and k: "valid_key k" and free: "\<not> (\<exists>h. key_slot t k = Some (Handler h))"
  shows "\<exists>t'. http_register_method (Some t) (CHR ''/'' # fst k) (snd k) m = Inr (Some t', 0) \<and>
      table_ok t' \<and> (\<forall>k'. valid_key k' \<longrightarrow>
        key_slot t' k' = (if k' = k then Some (Handler m)
          else if fst k' = fst k \<and> node_of t (fst k) = None then Some Null else key_slot t k'))"
proof -
  have flat: "flat t" and seg: "no_slash (fst k)" "http_type (snd k)"
    using ok valid_type [OF k] by (auto simp: table_ok_def)
  let ?t1 = "ensure_node t (fst k)"
  note e = ensure_node [OF flat seg(1)]
  obtain u where u: "node_of ?t1 (fst k) = Some u" using e(3) by blast
  have slot: "key_slot ?t1 k = Some (slot_of (snd k) u)" using u by (simp add: key_slot_def)
  note reg = register_flat [OF flat seg(1), of "snd k" m]
  have cn: "slot_of (snd k) (http_create_url_path (fst k) :: 'a pathname) = Null"
    by (rule create_slots [OF k])
  have nu: "key_slot t k \<noteq> Some Undef" using ok k unfolding table_ok_def by blast
  have "slot_of (snd k) u \<noteq> Undef \<and> \<not> (\<exists>h. slot_of (snd k) u = Handler h)"
    using slot e(2) [of k] free nu cn by (cases "node_of t (fst k) = None") auto
  then obtain u' where u': "set_method u (snd k) m = Inr (Some u')"
    using set_method_None [of u "snd k" m] set_method_fault [of u "snd k" m] seg(2)
    by (cases "set_method u (snd k) m") auto
  note s = set_method_Some [OF u']
  let ?t' = "put_node ?t1 (fst k) u'"
  note p = put_node [OF e(1) u conjunct1 [OF s] conjunct1 [OF conjunct2 [OF s]]]
  have slots: "key_slot ?t' k' = (if k' = k then Some (Handler m)
      else if fst k' = fst k \<and> node_of t (fst k) = None then Some Null else key_slot t k')"
    if "valid_key k'" for k'
  proof (cases "fst k' = fst k")
    case True
    show ?thesis
    proof (cases "snd k' = snd k")
      case False
      then have "slot_of (snd k') u' = slot_of (snd k') u" using s by simp
      with True False p(2) [of k'] e(2) [of k'] u create_slots [OF that, of "fst k"] show ?thesis
        by (auto simp: key_slot_def)
    qed (use True p(2) [of k'] s in \<open>auto simp: prod_eq_iff\<close>)
  qed (use p(2) [of k'] e(2) [of k'] in auto)
  moreover have "table_ok ?t'" using p(1) slots ok by (auto simp: table_ok_def)
  moreover have "http_register_method (Some t) (CHR ''/'' # fst k) (snd k) m = Inr (Some ?t', 0)"
    using reg u u' by (simp add: Let_def)
  ultimately show ?thesis by blast
qed

lemma register_key_cases:
  assumes ok: "table_ok t" and k: "valid_key k"
  shows "(\<exists>h. key_slot t k = Some (Handler h)) \<longrightarrow>
      http_register_method (Some t) (CHR ''/'' # fst k) (snd k) m = Inr (Some t, -1)"
    and "\<not> (\<exists>h. key_slot t k = Some (Handler h)) \<longrightarrow>
      (\<exists>t'. http_register_method (Some t) (CHR ''/'' # fst k) (snd k) m = Inr (Some t', 0) \<and>
        table_ok t' \<and> (\<forall>k'. valid_key k' \<longrightarrow>
          key_slot t' k' = (if k' = k then Some (Handler m)
            else if fst k' = fst k \<and> node_of t (fst k) = None then Some Null else key_slot t k')))"
  using register_key_taken [OF assms] register_key_free [OF assms] by blast+

lemma key_slot_absent: "node_of t (fst k) = None \<Longrightarrow> key_slot t k = None"
  by (simp add: key_slot_def)

interpretation routes: route_table table_ok valid_key key_handler register_key
proof unfold_locales
  fix t :: "'h pathname" and k :: "string \<times> int" and h :: 'h
  assume t: "table_ok t" and k: "valid_key k" and none: "key_handler t k = None"
  have flat: "flat t" using t by (simp add: table_ok_def)
  have kh: "key_handler t k' = (case key_slot t k' of Some (Handler h) \<Rightarrow> Some h | _ \<Rightarrow> None)"
    if "valid_key k'" for k' using key_handler_slot [OF flat] valid_type [OF that] by blast
  from none kh [OF k] have "\<not> (\<exists>h. key_slot t k = Some (Handler h))" by auto
  with register_key_cases(2) [OF t k, of h] obtain t' where
    r: "http_register_method (Some t) (CHR ''/'' # fst k) (snd k) h = Inr (Some t', 0)" "table_ok t'"
    and s: "\<And>k'. valid_key k' \<Longrightarrow> key_slot t' k' = (if k' = k then Some (Handler h)
        else if fst k' = fst k \<and> node_of t (fst k) = None then Some Null else key_slot t k')"
    by blast
  have "key_handler t' k' = (if k' = k then Some h else key_handler t k')" if v: "valid_key k'" for k'
  proof -
    have flat': "flat t'" using r(2) by (simp add: table_ok_def)
    have absent: "fst k' = fst k \<Longrightarrow> node_of t (fst k) = None \<Longrightarrow> key_slot t k' = None"
      by (simp add: key_slot_def)
    show ?thesis
      using key_handler_slot [OF flat', of k'] valid_type [OF v] s [OF v] kh [OF v] absent
      by (cases "k' = k"; cases "fst k' = fst k \<and> node_of t (fst k) = None") simp_all
  qed
  with r show "\<exists>t'. register_key t k h = Some t' \<and> table_ok t' \<and>
      (\<forall>k'. valid_key k' \<longrightarrow> key_handler t' k' = (if k' = k then Some h else key_handler t k'))"
    by (auto simp: register_key_def)
next
  fix t :: "'h pathname" and k :: "string \<times> int" and h :: 'h
  assume t: "table_ok t" and k: "valid_key k" and some: "key_handler t k \<noteq> None"
  have "key_handler t k = (case key_slot t k of Some (Handler h) \<Rightarrow> Some h | _ \<Rightarrow> None)"
    using key_handler_slot [of t k] t valid_type [OF k] by (simp add: table_ok_def)
  with some have "\<exists>h. key_slot t k = Some (Handler h)" by (auto split: option.splits slot.splits)
  with register_key_cases(1) [OF t k, of h] show "register_key t k h = None"
    by (simp add: register_key_def)
qed

lemma table_ok_init: "table_ok http_init_url_paths"
  by (auto simp: table_ok_def flat_def key_slot_def node_of_def http_init_url_paths_def
      valid_key_def slot_of_def http_methods split: if_splits)

lemma key_handler_init: "valid_key k \<Longrightarrow> key_handler (http_init_url_paths :: 'h pathname) k = None"
proof -
  assume k: "valid_key k"
  have flat: "flat (http_init_url_paths :: 'h pathname)" by (simp add: flat_def http_init_url_paths_def)
  have "key_slot (http_init_url_paths :: 'h pathname) k \<in> {None, Some Null}"
    using k by (auto simp: key_slot_def node_of_def http_init_url_paths_def slot_of_def
        valid_key_def http_methods)
  with key_handler_slot [OF flat] valid_type [OF k] show ?thesis by auto
qed

lemma registered_routes:
  fixes rs :: "((string \<times> int) \<times> 'h) list"
  assumes "\<forall>(k, h) \<in> set rs. valid_key k" "distinct (map fst rs)"
  shows "\<exists>t. register_all register_key http_init_url_paths rs = Some t \<and>
    (\<forall>k. valid_key k \<longrightarrow> key_handler t k = map_of rs k)"
proof -
  have init: "key_handler (http_init_url_paths :: 'h pathname) k = None" if "valid_key k" for k
    using that by (rule key_handler_init)
  have "\<forall>(k, h) \<in> set rs. valid_key k \<and> key_handler (http_init_url_paths :: 'h pathname) k = None"
    using assms(1) init by fast
  from routes.register_all_lookup [OF table_ok_init this assms(2)] obtain t where
    t: "register_all register_key http_init_url_paths rs = Some t"
      "\<And>k. valid_key k \<Longrightarrow> key_handler t k = (case map_of rs k of Some h \<Rightarrow> Some h
        | None \<Rightarrow> key_handler (http_init_url_paths :: 'h pathname) k)" by blast
  have "key_handler t k = map_of rs k" if "valid_key k" for k
    using t(2) [OF that] init [OF that] by (cases "map_of rs k") simp_all
  with t(1) show ?thesis by blast
qed

subsection \<open>Properties\<close>

text \<open>Registering any list of routes with distinct keys (a method, and the root or one
  path segment) on a new server succeeds, and afterwards each of those paths has exactly the
  handler registered for it; no other path of that form has one.\<close>

theorem register_routes:
  fixes rs :: "((string \<times> int) \<times> 'h) list"
  assumes "\<forall>(k, h) \<in> set rs. valid_key k" "distinct (map fst rs)"
  shows "\<exists>t. register_all register_key http_init_url_paths rs = Some t \<and>
    (\<forall>k. valid_key k \<longrightarrow> key_handler t k = map_of rs k)"
  using assms by (rule registered_routes)

theorem register_routes_witness:
  "\<exists>t. register_all register_key http_init_url_paths
      [((''home'', HTTP_GET), 1::nat), (([], HTTP_GET), 2), ((''home'', HTTP_POST), 3)] = Some t \<and>
    key_handler t (''home'', HTTP_POST) = Some 3 \<and> key_handler t (''login'', HTTP_GET) = None"
proof -
  let ?rs = "[((''home'', HTTP_GET), 1::nat), (([], HTTP_GET), 2), ((''home'', HTTP_POST), 3)]"
  have "\<forall>(k, h) \<in> set ?rs. valid_key k" "distinct (map fst ?rs)"
    by (simp_all add: valid_key_def no_slash_def http_methods)
  from register_routes [OF this] obtain t where "register_all register_key http_init_url_paths ?rs = Some t"
    "\<forall>k. valid_key k \<longrightarrow> key_handler t k = map_of ?rs k" by blast
  moreover have "valid_key (''home'', HTTP_POST)" "valid_key (''login'', HTTP_GET)"
    by (simp_all add: valid_key_def no_slash_def)
  ultimately show ?thesis by (auto simp: http_methods)
qed

text \<open>A second registration of a taken path and method returns -1 and leaves the
  tree as it was: the first handler stays.\<close>

theorem register_taken:
  assumes "table_ok t" "valid_key k" "key_handler t k = Some h"
  shows "http_register_method (Some t) (CHR ''/'' # fst k) (snd k) m = Inr (Some t, -1)"
proof -
  have "key_handler t k = (case key_slot t k of Some (Handler h) \<Rightarrow> Some h | _ \<Rightarrow> None)"
    using key_handler_slot [of t k] assms(1) valid_type [OF assms(2)] by (simp add: table_ok_def)
  with assms(3) have "\<exists>h. key_slot t k = Some (Handler h)" by (auto split: option.splits slot.splits)
  with register_key_cases(1) [OF assms(1,2)] show ?thesis by blast
qed

theorem register_taken_witness:
  "\<exists>t. register_key http_init_url_paths (''coin'', HTTP_GET) (7::nat) = Some t \<and>
     http_register_method (Some t) ''/coin'' HTTP_GET 2 = Inr (Some t, -1)"
proof -
  let ?k = "(''coin'', HTTP_GET)"
  have k: "valid_key ?k" by (simp add: valid_key_def no_slash_def)
  from routes.reg_new [OF table_ok_init k key_handler_init [OF k], of "7::nat"] obtain t where
    t: "register_key http_init_url_paths ?k (7::nat) = Some t" "table_ok t"
      "key_handler t ?k = Some 7" using k by fastforce
  from register_taken [OF t(2) k t(3), of 2] t(1) show ?thesis by auto
qed

text \<open>Resolving any url terminates at a node of the tree, and what it reports as
  remaining is a suffix of the url that starts a segment.\<close>

theorem resolve_in_tree:
  "(\<exists>u. node_at t (fst (http_resolve_path t s)) = Some u) \<and>
   (case snd (http_resolve_path t s) of None \<Rightarrow> True
    | Some r \<Rightarrow> suffix r s \<and> r \<noteq> [] \<and> hd r \<noteq> CHR ''/'')"
  using resolve_node [of t s] resolve_suffix [of t s] by (auto split: option.splits)

text \<open>On a tree of one-segment paths the first segment of the url alone picks the
  node: the child of that name, whatever follows, or the root with the whole url remaining.\<close>

theorem resolve_first_segment:
  assumes "flat t" "no_slash seg" "seg \<noteq> []" "rest = [] \<or> hd rest = CHR ''/''"
  shows "http_resolve_path t (CHR ''/'' # seg @ rest) =
    (case child_index (paths t) seg of
       None \<Rightarrow> ([], Some (seg @ rest))
     | Some i \<Rightarrow> ([i], if skip_slashes rest = [] then None else Some (skip_slashes rest)))"
proof (rule resolve_flat [OF assms])
  show "skip_slashes (CHR ''/'' # seg @ rest) = seg @ rest"
    using no_slash_hd [OF assms(2,3)] assms(3) by (simp add: skip_slashes_Cons skip_slashes_id)
qed

theorem resolve_first_segment_witness:
  "http_resolve_path (Pathname Null Null Undef Undef Undef
      [http_create_url_path ''home'' :: nat pathname] []) ''/home/x'' = ([0], Some ''x'')"
  using resolve_first_segment [of "Pathname Null Null Undef Undef Undef
      [http_create_url_path ''home'' :: nat pathname] []" "''home''" "''/x''"]
  by (simp add: flat_def no_slash_def http_create_url_path_def skip_slashes_def)

text \<open>A route of two segments is registered in the wrong place: the first new node is
  named by the whole rest of the path, not by its first segment. So \<open>/a/b\<close> resolves to a node
  without a handler, and the handler answers \<open>/a/b/b\<close>.\<close>

theorem nested_route_misplaced:
  fixes h :: 'h
  assumes "no_slash a" "a \<noteq> []" "no_slash b" "b \<noteq> []"
  shows "\<exists>t. http_register_method (Some http_init_url_paths) (CHR ''/'' # a @ CHR ''/'' # b) HTTP_GET h =
      Inr (Some t, 0) \<and>
    handler_of t HTTP_GET (CHR ''/'' # a @ CHR ''/'' # b) = None \<and>
    handler_of t HTTP_GET (CHR ''/'' # a @ CHR ''/'' # b @ CHR ''/'' # b) = Some h"
proof -
  let ?ab = "a @ CHR ''/'' # b"
  let ?leaf = "Pathname (Handler h) Null Undef Undef Undef [] b"
  let ?t = "Pathname Null Null Undef Undef Undef
    [Pathname Null Null Undef Undef Undef [?leaf] ?ab] []"
  have skip: "skip_slashes (CHR ''/'' # a @ r) = a @ r" "skip_slashes (CHR ''/'' # b) = b"
    "skip_slashes b = b" for r
    using no_slash_hd assms by (auto simp: skip_slashes_Cons skip_slashes_id)
  have "dropWhile (\<lambda>c. c \<noteq> CHR ''/'') ?ab = CHR ''/'' # b"
    using assms(1) by (auto simp: no_slash_def dropWhile_append3 takeWhile_eq_all_conv
        dropWhile_append dropWhile_eq_Nil_conv)
  then have next_ab: "next_segment ?ab = b"
    unfolding next_segment_def using skip(2) by simp
  have "http_resolve_path (http_init_url_paths :: 'h pathname) (CHR ''/'' # ?ab) = ([], Some ?ab)"
    using assms(2) by (simp add: http_resolve_path.simps skip http_init_url_paths_def Let_def)
  moreover have "add_segments (http_init_url_paths :: 'h pathname) [] ?ab =
      (Pathname Null Null Undef Undef Undef [Pathname Null Null Undef Undef Undef
        [http_create_url_path b] ?ab] [], [0, 0])"
    using assms(4) next_segment_last [OF assms(3)] next_ab
    by (simp add: add_segments.simps [of _ _ ?ab] add_segments.simps [of _ _ b]
        add_segments.simps [of _ _ "[]"] Let_def http_init_url_paths_def http_add_child_path_def
        http_create_url_path_def)
  ultimately have reg: "http_register_method (Some http_init_url_paths) (CHR ''/'' # ?ab) HTTP_GET h =
      Inr (Some ?t, 0)"
    by (simp add: http_register_method_def http_create_url_path_def claim_slot_def)
  have "http_resolve_path ?t (CHR ''/'' # ?ab) = ([0], None)"
    using assms(2) by (simp add: http_resolve_path.simps [of ?t] skip Let_def)
  moreover have "http_resolve_path ?t (CHR ''/'' # a @ CHR ''/'' # b @ CHR ''/'' # b) = ([0, 0], None)"
    using assms(2,4) by (simp add: http_resolve_path.simps [of ?t] skip Let_def nth_append
        http_resolve_path.simps [of "Pathname Null Null Undef Undef Undef [?leaf] ?ab"])
  ultimately have "handler_of ?t HTTP_GET (CHR ''/'' # ?ab) = None"
    "handler_of ?t HTTP_GET (CHR ''/'' # a @ CHR ''/'' # b @ CHR ''/'' # b) = Some h"
    by (simp_all add: handler_of_def slot_of_def)
  with reg show ?thesis by auto
qed

theorem nested_route_misplaced_witness:
  "\<exists>t. http_register_method (Some http_init_url_paths) ''/api/coin'' HTTP_GET (1::nat) = Inr (Some t, 0) \<and>
     handler_of t HTTP_GET ''/api/coin'' = None"
  using nested_route_misplaced [of "''api''" "''coin''" "1::nat"] by (auto simp: no_slash_def)

text \<open>The slots for PUT, PATCH and DELETE are never initialised: registering such a
  method on a new path compares memory that \<open>malloc\<close> left undefined.\<close>

theorem register_put_uninitialised:
  assumes "flat t" "no_slash seg" "node_of t seg = None" "type \<in> {HTTP_PUT, HTTP_PATCH, HTTP_DELETE}"
  shows "http_register_method (Some t) (CHR ''/'' # seg) type m = Inl UninitRead"
proof -
  have "key_slot (ensure_node t seg) (seg, type) = Some Undef"
    using ensure_node(2) [OF assms(1,2), of "(seg, type)"] assms(3,4)
    by (auto simp: slot_of_def http_create_url_path_def http_methods)
  then obtain u where u: "node_of (ensure_node t seg) seg = Some u" "slot_of type u = Undef"
    by (auto simp: key_slot_def)
  have "set_method u type m = Inl UninitRead"
    using set_method_fault [of u type m] u(2) assms(4) by (auto simp: http_type_def)
  with register_flat [OF assms(1,2), of type m] u(1) show ?thesis by (simp add: Let_def)
qed

theorem register_put_uninitialised_witness:
  "http_register_method (Some (http_init_url_paths :: nat pathname)) ''/coin'' HTTP_PUT 1 = Inl UninitRead"
  using register_put_uninitialised [of "http_init_url_paths :: nat pathname" "''coin''" HTTP_PUT 1]
  by (simp add: flat_def no_slash_def node_of_def http_init_url_paths_def)

end
