(* ===== verification/Request.thy ===== *)
theory Request
  imports Response PathTree Queue
begin

section \<open>Receiving and serving a request (server/http.c)\<close>

text \<open>
  A received packet is a block of \<open>data_size\<close> cells of which the first \<open>bytes_received\<close> were
  written by \<open>SSL_read\<close>; no NUL is written behind them. What the rest of a block holds is up to
  the allocator: \<open>junk i\<close> is cell \<open>i\<close> of a block that \<open>realloc\<close> has grown. The packets that
  \<open>http_process_request\<close> will \<open>pop\<close> from the connection are a list in order of arrival; the
  result \<open>None\<close> is a call that waits for a packet that never comes.
\<close>

record rcv_data_t =
  data_size :: nat
  bytes_received :: nat
  rcv_payload :: "char list"

definition received :: "rcv_data_t \<Rightarrow> char list" where
  "received d = take (bytes_received d) (rcv_payload d)"

definition header_mark :: string where
  "header_mark = crlf @ crlf"

text \<open>The two tests for the end of the header. The first reads the last four bytes: of fewer than
  four the index wraps around and is out of the block.\<close>

definition find_header_end :: "rcv_data_t \<Rightarrow> nat option res" where
  "find_header_end d =
     (if bytes_received d < 4 then Inl OutOfBounds
      else if take 4 (drop (bytes_received d - 4) (rcv_payload d)) = header_mark
      then Inr (Some (bytes_received d))
      else bind_res (strstr_buf (rcv_payload d) header_mark) (\<lambda>r. Inr (map_option (\<lambda>k. k + 4) r)))"

text \<open>\<open>memcpy\<close> of a popped packet behind the bytes received so far.\<close>

definition append_packet :: "rcv_data_t \<Rightarrow> rcv_data_t \<Rightarrow> rcv_data_t res" where
  "append_packet d p =
     bind_res (put_at (rcv_payload d) (bytes_received d) (received p))
       (\<lambda>b. Inr (d\<lparr>rcv_payload := b, bytes_received := bytes_received d + bytes_received p\<rparr>))"

definition resize :: "(nat \<Rightarrow> char) \<Rightarrow> rcv_data_t \<Rightarrow> nat \<Rightarrow> rcv_data_t" where
  "resize junk d n = d\<lparr>data_size := n, rcv_payload := realloc_buf junk (rcv_payload d) n\<rparr>"

fun http_get_request_header ::
    "(nat \<Rightarrow> char) \<Rightarrow> rcv_data_t \<Rightarrow> rcv_data_t list \<Rightarrow> (rcv_data_t \<times> rcv_data_t list \<times> nat) option res" where
  "http_get_request_header junk d [] =
     bind_res (find_header_end d) (\<lambda>r. case r of
       Some he \<Rightarrow> Inr (Some (d, [], he)) | None \<Rightarrow> Inr None)"
| "http_get_request_header junk d (p # ps) =
     bind_res (find_header_end d) (\<lambda>r. case r of
       Some he \<Rightarrow> Inr (Some (d, p # ps, he))
     | None \<Rightarrow> bind_res (append_packet (resize junk d (2 * data_size d)) p)
         (\<lambda>d'. http_get_request_header junk d' ps))"

text \<open>The loop that receives the rest of the body, up to \<open>lim\<close> bytes.\<close>

fun receive_body :: "rcv_data_t \<Rightarrow> rcv_data_t list \<Rightarrow> nat \<Rightarrow> (rcv_data_t \<times> rcv_data_t list) option res" where
  "receive_body d [] lim = (if bytes_received d < lim then Inr None else Inr (Some (d, [])))"
| "receive_body d (p # ps) lim =
     (if bytes_received d < lim then bind_res (append_packet d p) (\<lambda>d'. receive_body d' ps lim)
      else Inr (Some (d, p # ps)))"

definition size_t :: "int \<Rightarrow> nat" where
  "size_t i = nat (i mod 2 ^ 64)"

definition terminate_at :: "rcv_data_t \<Rightarrow> nat \<Rightarrow> rcv_data_t res" where
  "terminate_at d i = bind_res (put_at (rcv_payload d) i [nul]) (\<lambda>b. Inr (d\<lparr>rcv_payload := b\<rparr>))"

text \<open>Sums are of \<open>size_t\<close>; a \<open>realloc\<close> beyond \<open>PTRDIFF_MAX\<close> returns NULL.\<close>

definition http_get_request_body ::
    "(nat \<Rightarrow> char) \<Rightarrow> rcv_data_t \<Rightarrow> rcv_data_t list \<Rightarrow> nat \<Rightarrow> (rcv_data_t \<times> rcv_data_t list \<times> nat) option res" where
  "http_get_request_body junk d pkts he =
     bind_res (strstr_buf (rcv_payload d) ''Content-Length: '') (\<lambda>r. case r of
       None \<Rightarrow> Inr (Some (d, pkts, 0))
     | Some k \<Rightarrow> bind_res (atoi_buf (drop (k + 16) (rcv_payload d))) (\<lambda>n.
         let content_len = size_t n;
             total = (he + content_len) mod 2 ^ 64;
             new_size = (total + 1) mod 2 ^ 64
         in if bytes_received d = total
            then bind_res (terminate_at (if bytes_received d = data_size d
                   then resize junk d (data_size d + 1) else d) total)
                   (\<lambda>d'. Inr (Some (d', pkts, content_len)))
            else if 2 ^ 63 \<le> new_size then Inl NullDeref
            else bind_res (receive_body (resize junk d new_size) pkts ((new_size + (2 ^ 64 - 1)) mod 2 ^ 64))
              (\<lambda>res. case res of None \<Rightarrow> Inr None
                 | Some (d', ps) \<Rightarrow> bind_res (terminate_at d' total) (\<lambda>d''. Inr (Some (d'', ps, content_len))))))"

subsection \<open>Parsing the request line\<close>

text \<open>The fields are pointers into the block of the request: offsets, \<open>None\<close> for NULL.\<close>

record http_request_t =
  req_method :: "nat option"
  req_url :: "nat option"
  req_url_suffix :: "nat option"
  req_args :: "nat option"
  req_version :: "nat option"
  req_body :: "nat option"
  req_raw :: "nat option"

definition field_str :: "char list \<Rightarrow> nat option \<Rightarrow> string res" where
  "field_str block p = (case p of None \<Rightarrow> Inl NullDeref | Some i \<Rightarrow> c_str (drop i block))"

definition http_parse_header :: "char list \<Rightarrow> (http_request_t \<times> char list) res" where
  "http_parse_header block =
     bind_res (strtok_r block 0 '' '') (\<lambda>(method, b, pos).
     bind_res (strtok_r b pos '' '') (\<lambda>(url, b, pos).
     bind_res (strtok_r b pos ('' '' @ crlf)) (\<lambda>(version, b, pos).
     bind_res (field_str b version) (\<lambda>v.
     bind_res (field_str b url) (\<lambda>u.
       let raw = the version + length v + 1;
           i = length (takeWhile (\<lambda>c. c \<noteq> CHR ''?'') u);
           req = \<lparr>req_method = method, req_url = url, req_url_suffix = None, req_args = None,
             req_version = version, req_body = None, req_raw = Some raw\<rparr>
       in if i < length u
          then Inr (req\<lparr>req_args := Some (the url + i + 1)\<rparr>, b[the url + i := nul])
          else Inr (req, b))))))"

subsection \<open>Dispatch\<close>

type_synonym handler =
  "char list \<Rightarrow> http_request_t \<Rightarrow> http_response_t \<Rightarrow> http_response_t res"

text \<open>The error replies of the server: the status, the type, and \<open>len\<close> bytes of a literal.\<close>

definition error_response :: "int \<Rightarrow> nat \<Rightarrow> string \<Rightarrow> http_response_t res" where
  "error_response c len text =
     bind_res (http_set_response_code new_response c) (\<lambda>r.
     bind_res (http_set_content_type r ''text/html'' True) (\<lambda>r.
     Inr (http_set_body r len (text @ [nul]) False)))"

definition call_slot ::
    "handler slot \<Rightarrow> char list \<Rightarrow> http_request_t \<Rightarrow> nat \<Rightarrow> string \<Rightarrow> http_response_t res" where
  "call_slot sl block req len text =
     (case sl of
        Undef \<Rightarrow> Inl UninitRead
      | Null \<Rightarrow> error_response HTTP_405_NOT_ALLOWED len text
      | Handler h \<Rightarrow> h block req new_response)"

text \<open>The branches of the method: its slot at the node, and length and text of the reply if it is \<open>NULL\<close>.\<close>

definition http_choose :: "'h pathname \<Rightarrow> string \<Rightarrow> ('h slot \<times> nat \<times> string) option" where
  "http_choose node m =
     (if m = ''GET'' then Some (get node, 23, ''Method Get not allowed'')
      else if m = ''POST'' then Some (post node, 24, ''Method Post not allowed'')
      else if m = ''PUT'' then Some (put node, 23, ''Method Put not allowed'')
      else if m = ''PATCH'' then Some (patch node, 25, ''Method Patch not allowed'')
      else if m = ''DELETE'' then Some (delete node, 26, ''Method Delete not allowed'')
      else None)"

definition http_dispatch ::
    "handler pathname \<Rightarrow> char list \<Rightarrow> http_request_t \<Rightarrow> http_response_t res" where
  "http_dispatch node block req =
     bind_res (field_str block (req_method req)) (\<lambda>m.
       case http_choose node m of
         Some (sl, len, text) \<Rightarrow> call_slot sl block req len text
       | None \<Rightarrow> error_response HTTP_400_BAD_REQUEST 12 ''Bad request'')"

text \<open>From the complete request to its node: parse and resolve.\<close>

definition http_route :: "'h pathname \<Rightarrow> rcv_data_t \<Rightarrow> nat \<Rightarrow> ('h pathname \<times> char list \<times> http_request_t) res" where
  "http_route root d header_end =
     bind_res (http_parse_header (rcv_payload d)) (\<lambda>(req, block).
     bind_res (field_str block (req_url req)) (\<lambda>url.
       case http_resolve_path root url of (route, rest) \<Rightarrow>
         (case node_at root route of
            None \<Rightarrow> Inl NullDeref
          | Some node \<Rightarrow> Inr (node, block,
                req\<lparr>req_body := Some header_end,
                   req_url_suffix := map_option (\<lambda>s. the (req_url req) + length url - length s) rest\<rparr>))))"

definition http_serve :: "handler pathname \<Rightarrow> rcv_data_t \<Rightarrow> nat \<Rightarrow> http_response_t res" where
  "http_serve root d header_end =
     bind_res (http_route root d header_end) (\<lambda>(node, block, req). http_dispatch node block req)"

text \<open>One round of the loop: receive, serve, send.\<close>

definition http_process_one :: "(nat \<Rightarrow> char) \<Rightarrow> handler pathname \<Rightarrow> bool \<Rightarrow> rcv_data_t \<Rightarrow> rcv_data_t list \<Rightarrow>
    (char list list \<times> rcv_data_t list) option res" where
  "http_process_one junk root ok d pkts =
     bind_res (http_get_request_header junk d pkts) (\<lambda>h. case h of
       None \<Rightarrow> Inr None
     | Some (d1, ps1, header_end) \<Rightarrow>
         bind_res (http_get_request_body junk d1 ps1 header_end) (\<lambda>b. case b of
           None \<Rightarrow> Inr None
         | Some (d2, ps2, _) \<Rightarrow>
             bind_res (http_serve root d2 header_end) (\<lambda>r.
             bind_res (http_send ok r) (\<lambda>out. Inr (Some (out, ps2))))))"

text \<open>
  The test for pending work, \<open>empty(requests)\<close>, of the queue that \<open>http_open_connection\<close> creates
  for 10 packets. It is the ring's test, so it holds of the full queue as well.
\<close>

definition con_queue_size :: nat where
  "con_queue_size = 10"

definition con_empty :: "'a list \<Rightarrow> bool" where
  "con_empty ps \<longleftrightarrow> ps = [] \<or> length ps = con_queue_size"

lemma con_empty_queue:
  "ring_inv q \<Longrightarrow> qsize q = con_queue_size \<Longrightarrow> queue_empty q = con_empty (contents q)"
  using head_eq_tail [of q] by (auto simp: queue_empty_def con_empty_def)

text \<open>
  The whole task, while no further packet arrives: what it writes, and the packets it leaves
  behind when it ends. \<open>fuel\<close> bounds the rounds; each round but the first takes a packet, so
  \<open>length pkts + 1\<close> rounds are enough.
\<close>

fun http_process_request :: "nat \<Rightarrow> (nat \<Rightarrow> char) \<Rightarrow> handler pathname \<Rightarrow> bool \<Rightarrow> rcv_data_t \<Rightarrow> rcv_data_t list \<Rightarrow>
    (char list list \<times> rcv_data_t list) option res" where
  "http_process_request 0 junk root ok d pkts = Inr None"
| "http_process_request (Suc fuel) junk root ok d pkts =
     bind_res (http_process_one junk root ok d pkts) (\<lambda>r. case r of
       None \<Rightarrow> Inr None
     | Some (out, ps) \<Rightarrow>
         if con_empty ps then Inr (Some (out, ps))
         else bind_res (http_process_request fuel junk root ok (hd ps) (tl ps)) (\<lambda>r'.
                Inr (map_option (\<lambda>(out', ps'). (out @ out', ps')) r')))"

subsection \<open>Receiving the header\<close>

text \<open>What the header loop computes, on the bytes: \<open>ps\<close> are the packets still to come.\<close>

definition header_end_spec :: "string \<Rightarrow> nat option" where
  "header_end_spec data =
     (if suffix header_mark data then Some (length data)
      else map_option (\<lambda>r. length data - length r + 4) (strstr data header_mark))"

fun header_spec :: "string \<Rightarrow> string list \<Rightarrow> (string \<times> string list \<times> nat) option" where
  "header_spec data [] = map_option (\<lambda>he. (data, [], he)) (header_end_spec data)"
| "header_spec data (p # ps) =
     (case header_end_spec data of
        Some he \<Rightarrow> Some (data, p # ps, he) | None \<Rightarrow> header_spec (data @ p) ps)"

text \<open>A block whose unused rest is zero, and a packet without NULs, as the listener makes them.\<close>

definition clean :: "rcv_data_t \<Rightarrow> bool" where
  "clean d \<longleftrightarrow> bytes_received d < data_size d \<and> length (received d) = bytes_received d \<and>
     rcv_payload d = received d @ replicate (data_size d - bytes_received d) nul \<and>
     nul \<notin> set (received d)"

definition packet_ok :: "rcv_data_t \<Rightarrow> bool" where
  "packet_ok p \<longleftrightarrow> 0 < bytes_received p \<and> bytes_received p \<le> 4096 \<and>
     length (received p) = bytes_received p \<and> nul \<notin> set (received p)"

lemma header_mark_simps [simp]: "length header_mark = 4" "nul \<notin> set header_mark" "header_mark \<noteq> []"
  by (simp_all add: header_mark_def crlf_def nul_def)

lemma clean_payload_length: "clean d \<Longrightarrow> length (rcv_payload d) = data_size d"
proof -
  assume "clean d"
  then have "length (rcv_payload d) = length (received d) + (data_size d - bytes_received d)"
    unfolding clean_def by (metis length_append length_replicate)
  with \<open>clean d\<close> show ?thesis by (simp add: clean_def)
qed

lemma clean_terminated:
  "clean d \<Longrightarrow> \<exists>r. rcv_payload d = received d @ nul # r"
  unfolding clean_def by (cases "data_size d - bytes_received d") auto

lemma find_header_end_clean:
  assumes "clean d" "4 \<le> bytes_received d"
  shows "find_header_end d = Inr (header_end_spec (received d))"
proof -
  from clean_terminated [OF assms(1)] obtain r where r: "rcv_payload d = received d @ nul # r" ..
  have len: "length (received d) = bytes_received d" "nul \<notin> set (received d)"
    using assms(1) by (simp_all add: clean_def)
  have "take 4 (drop (bytes_received d - 4) (rcv_payload d)) = drop (length (received d) - 4) (received d)"
    using r len assms(2) by simp
  then have last: "take 4 (drop (bytes_received d - 4) (rcv_payload d)) = header_mark \<longleftrightarrow>
      suffix header_mark (received d)"
    using len assms(2) by (metis header_mark_simps(1) suffix_drop suffix_take suffix_def
        append_eq_conv_conj append_take_drop_id length_drop diff_diff_cancel same_append_eq)
  have "strstr_buf (rcv_payload d) header_mark =
      Inr (map_option (\<lambda>r. length (received d) - length r) (strstr (received d) header_mark))"
    unfolding r using len(2) by (intro strstr_buf_strstr) simp_all
  with last len assms(2) show ?thesis
    by (auto simp: find_header_end_def header_end_spec_def option.map_comp comp_def)
qed

lemma resize_clean:
  assumes "clean d" "data_size d \<le> n"
  shows "clean (resize (\<lambda>_. nul) d n)" "received (resize (\<lambda>_. nul) d n) = received d"
    "bytes_received (resize (\<lambda>_. nul) d n) = bytes_received d" "data_size (resize (\<lambda>_. nul) d n) = n"
proof -
  have l: "length (rcv_payload d) = data_size d" by (rule clean_payload_length [OF assms(1)])
  have b: "bytes_received d < data_size d" using assms(1) by (simp add: clean_def)
  have m: "map (\<lambda>_. nul) [i..<j] = replicate (j - i) nul" for i j by (simp add: map_replicate_const)
  show r: "received (resize (\<lambda>_. nul) d n) = received d"
    using l b assms(2) by (simp add: received_def resize_def realloc_buf_def)
  have "rcv_payload (resize (\<lambda>_. nul) d n) = rcv_payload d @ replicate (n - data_size d) nul"
    using l assms(2) m by (simp add: resize_def realloc_buf_def)
  also have "\<dots> = received d @ replicate (data_size d - bytes_received d) nul @ replicate (n - data_size d) nul"
    using assms(1) by (simp add: clean_def)
  also have "\<dots> = received d @ replicate (n - bytes_received d) nul"
    using b assms(2) by (simp add: replicate_add [symmetric])
  finally show "clean (resize (\<lambda>_. nul) d n)" using assms r by (auto simp: clean_def resize_def)
qed (simp_all add: resize_def)

lemma append_clean:
  assumes "clean d" "packet_ok p" "bytes_received d + bytes_received p < data_size d"
  shows "\<exists>d'. append_packet d p = Inr d' \<and> clean d' \<and> received d' = received d @ received p \<and>
    bytes_received d' = bytes_received d + bytes_received p \<and> data_size d' = data_size d"
proof -
  let ?n = "bytes_received d" and ?k = "bytes_received p"
  have l: "length (rcv_payload d) = data_size d" by (rule clean_payload_length [OF assms(1)])
  have p: "length (received p) = ?k" "nul \<notin> set (received p)" using assms(2) by (simp_all add: packet_ok_def)
  have d: "length (received d) = ?n" "rcv_payload d = received d @ replicate (data_size d - ?n) nul"
    "nul \<notin> set (received d)" using assms(1) by (simp_all add: clean_def)
  let ?d' = "d\<lparr>rcv_payload := received d @ received p @ replicate (data_size d - ?n - ?k) nul,
    bytes_received := ?n + ?k\<rparr>"
  have "take ?n (rcv_payload d) = received d" by (simp add: received_def)
  moreover have "drop (?n + ?k) (rcv_payload d) = replicate (data_size d - ?n - ?k) nul"
    by (subst d(2)) (simp add: d(1))
  ultimately have "put_at (rcv_payload d) ?n (received p) =
      Inr (received d @ received p @ replicate (data_size d - ?n - ?k) nul)"
    using l p assms(3) by (simp add: put_at_ok)
  then have "append_packet d p = Inr ?d'" by (simp add: append_packet_def)
  moreover have "received ?d' = received d @ received p" using d(1) p(1) by (simp add: received_def)
  moreover from this have "clean ?d'" using d(1,3) p assms(3) by (simp add: clean_def diff_diff_left)
  ultimately show ?thesis by auto
qed

lemma header_loop:
  assumes "clean d" "4 \<le> bytes_received d" "4096 \<le> data_size d" "\<forall>p \<in> set ps. packet_ok p"
  shows "case header_spec (received d) (map received ps) of
      None \<Rightarrow> http_get_request_header (\<lambda>_. nul) d ps = Inr None
    | Some (data, rest, he) \<Rightarrow> \<exists>d' ps'. http_get_request_header (\<lambda>_. nul) d ps = Inr (Some (d', ps', he)) \<and>
        clean d' \<and> received d' = data \<and> map received ps' = rest"
  using assms
proof (induction ps arbitrary: d)
  case Nil
  then show ?case
    using find_header_end_clean [OF Nil.prems(1,2)] by (cases "header_end_spec (received d)") auto
next
  case (Cons p ps)
  show ?case
  proof (cases "header_end_spec (received d)")
    case None
    let ?d = "resize (\<lambda>_. nul) d (2 * data_size d)"
    have b: "bytes_received d < data_size d" using Cons.prems(1) by (simp add: clean_def)
    have "data_size d \<le> 2 * data_size d" by simp
    note r = resize_clean [OF Cons.prems(1) this]
    have p: "packet_ok p" "bytes_received p \<le> 4096" using Cons.prems(4) by (auto simp: packet_ok_def)
    have "bytes_received ?d + bytes_received p < data_size ?d" using r b p(2) Cons.prems(3) by linarith
    from append_clean [OF r(1) p(1) this] obtain d' where d': "append_packet ?d p = Inr d'" "clean d'"
      "received d' = received d @ received p" "bytes_received d' = bytes_received d + bytes_received p"
      "data_size d' = 2 * data_size d" using r by auto
    have eq: "http_get_request_header (\<lambda>_. nul) d (p # ps) = http_get_request_header (\<lambda>_. nul) d' ps"
      using find_header_end_clean [OF Cons.prems(1,2)] None d'(1) by simp
    have spec: "header_spec (received d) (map received (p # ps)) = header_spec (received d') (map received ps)"
      using None d'(3) by simp
    have "4 \<le> bytes_received d'" "4096 \<le> data_size d'" using d' Cons.prems by simp_all
    from Cons.IH [OF d'(2) this] Cons.prems(4) show ?thesis unfolding eq spec by simp
  next
    case (Some he)
    then show ?thesis using find_header_end_clean [OF Cons.prems(1,2)] Cons.prems(1) by auto
  qed
qed

subsection \<open>Receiving the body\<close>

text \<open>The block holds exactly the length that the header announces, found in the received part.\<close>

lemma append_packet_exact:
  assumes "length (received d) = bytes_received d" "length (received p) = bytes_received p"
    "bytes_received d + bytes_received p \<le> length (rcv_payload d)"
  shows "\<exists>d'. append_packet d p = Inr d' \<and> received d' = received d @ received p \<and>
    bytes_received d' = bytes_received d + bytes_received p \<and>
    length (rcv_payload d') = length (rcv_payload d)"
proof -
  let ?b = "take (bytes_received d) (rcv_payload d) @ received p @
    drop (bytes_received d + bytes_received p) (rcv_payload d)"
  have "append_packet d p =
      Inr (d\<lparr>rcv_payload := ?b, bytes_received := bytes_received d + bytes_received p\<rparr>)"
    using assms by (simp add: append_packet_def put_at_ok)
  moreover have "take (bytes_received d + bytes_received p) ?b = received d @ received p"
    using assms by (simp add: received_def)
  moreover have "length ?b = length (rcv_payload d)" using assms by simp
  ultimately show ?thesis by (auto simp: received_def)
qed

lemma receive_body_exact:
  assumes "\<forall>p \<in> set ps. packet_ok p" "length (received d) = bytes_received d"
    "length (rcv_payload d) = Suc lim" "bytes_received d + length (concat (map received ps)) = lim"
  shows "\<exists>d'. receive_body d ps lim = Inr (Some (d', [])) \<and>
    received d' = received d @ concat (map received ps) \<and> bytes_received d' = lim \<and>
    length (rcv_payload d') = Suc lim"
  using assms
proof (induction ps arbitrary: d)
  case Nil
  then show ?case by auto
next
  case (Cons p ps)
  have p: "length (received p) = bytes_received p" "0 < bytes_received p"
    using Cons.prems(1) by (auto simp: packet_ok_def)
  then have lt: "bytes_received d < lim" "bytes_received d + bytes_received p \<le> length (rcv_payload d)"
    using Cons.prems(3,4) by auto
  from append_packet_exact [OF Cons.prems(2) p(1) lt(2)] obtain d' where d': "append_packet d p = Inr d'"
    "received d' = received d @ received p" "bytes_received d' = bytes_received d + bytes_received p"
    "length (rcv_payload d') = length (rcv_payload d)" by blast
  have "length (received d') = bytes_received d'" using d'(2,3) p(1) Cons.prems(2) by simp
  moreover have "bytes_received d' + length (concat (map received ps)) = lim"
    using d'(3) Cons.prems(4) p(1) by simp
  ultimately have "\<exists>d''. receive_body d' ps lim = Inr (Some (d'', [])) \<and>
      received d'' = received d' @ concat (map received ps) \<and> bytes_received d'' = lim \<and>
      length (rcv_payload d'') = Suc lim"
    using Cons.IH [of d'] Cons.prems(1,3) d'(4) by simp
  then show ?case using lt(1) d'(1,2) by simp
qed

lemma content_length_found:
  assumes "clean d" "strstr (received d) ''Content-Length: '' = Some (''Content-Length: '' @ dec n @ r)"
    "n < 2 ^ 31" "r \<noteq> []" "\<not> isdigit (hd r)"
  shows "\<exists>k. strstr_buf (rcv_payload d) ''Content-Length: '' = Inr (Some k) \<and>
    atoi_buf (drop (k + 16) (rcv_payload d)) = Inr (int n)"
proof -
  let ?m = "''Content-Length: '' @ dec n @ r"
  from clean_terminated [OF assms(1)] obtain z where z: "rcv_payload d = received d @ nul # z" ..
  obtain pre where pre: "received d = pre @ ?m" using strstr_Some [OF assms(2)] by blast
  have "strstr_buf (rcv_payload d) ''Content-Length: '' = Inr (Some (length pre))"
  proof -
    have "nul \<notin> set (received d)" using assms(1) by (simp add: clean_def)
    moreover have "nul \<notin> set ''Content-Length: ''" by (simp add: nul_def)
    ultimately have "strstr_buf (rcv_payload d) ''Content-Length: '' =
        Inr (Some (length (received d) - length ?m))"
      using strstr_buf_strstr [of "received d" "''Content-Length: ''" z] assms(2) z by simp
    moreover have "length (received d) - length ?m = length pre" by (simp add: pre)
    ultimately show ?thesis by (simp only:)
  qed
  moreover have "drop (length pre + 16) (rcv_payload d) = dec n @ r @ nul # z" by (simp add: z pre)
  moreover have "atoi_buf (dec n @ r @ nul # z) = Inr (int n)"
    using assms(3-5) by (intro atoi_buf_dec) auto
  ultimately show ?thesis by auto
qed

lemma size_t_small: "n < 2 ^ 64 \<Longrightarrow> size_t (int n) = n"
  by (simp add: size_t_def)

text \<open>What the body function does once it has read a plausible length.\<close>

lemma body_step:
  assumes "strstr_buf (rcv_payload d) ''Content-Length: '' = Inr (Some k)"
    "atoi_buf (drop (k + 16) (rcv_payload d)) = Inr (int n)" "he + n + 1 < 2 ^ 63"
  shows "http_get_request_body junk d pkts he =
    (if bytes_received d = he + n
     then bind_res (terminate_at (if bytes_received d = data_size d
            then resize junk d (data_size d + 1) else d) (he + n)) (\<lambda>d'. Inr (Some (d', pkts, n)))
     else bind_res (receive_body (resize junk d (he + n + 1)) pkts (he + n))
       (\<lambda>res. case res of None \<Rightarrow> Inr None
          | Some (d', ps) \<Rightarrow> bind_res (terminate_at d' (he + n)) (\<lambda>d''. Inr (Some (d'', ps, n)))))"
proof -
  have "(he + n) mod 2 ^ 64 = he + n" "(he + n + 1) mod 2 ^ 64 = he + n + 1" "\<not> 2 ^ 63 \<le> he + n + 1"
    "size_t (int n) = n" using assms(3) size_t_small [of n] by simp_all
  moreover have "(he + n + 1 + (2 ^ 64 - 1)) mod 2 ^ 64 = he + n"
  proof -
    have "he + n + 1 + (2 ^ 64 - 1) = he + n + 2 ^ 64" by simp
    then show ?thesis using assms(3) by (simp only: mod_add_self2) simp
  qed
  ultimately show ?thesis using assms(1,2)
    by (simp only: http_get_request_body_def bind_res_simps option.case Let_def if_False)
qed

lemma terminate_full:
  assumes "length (rcv_payload d) = Suc i"
  shows "terminate_at d i = Inr (d\<lparr>rcv_payload := take i (rcv_payload d) @ [nul]\<rparr>)"
  using assms by (simp add: terminate_at_def put_at_def)

lemma body_complete:
  assumes d: "clean d" and he: "he \<le> bytes_received d"
    and len: "strstr (received d) ''Content-Length: '' = Some (''Content-Length: '' @ dec n @ r)"
      "n < 2 ^ 31" "r \<noteq> []" "\<not> isdigit (hd r)"
    and small: "he + n + 1 < 2 ^ 63"
    and ps: "\<forall>p \<in> set ps. packet_ok p"
    and all: "received d @ concat (map received ps) = hdr @ body" "length hdr = he" "length body = n"
  shows "\<exists>d' z. http_get_request_body junk d ps he = Inr (Some (d', [], n)) \<and>
    rcv_payload d' = hdr @ body @ nul # z"
proof -
  from content_length_found [OF d len] obtain k where
    k: "strstr_buf (rcv_payload d) ''Content-Length: '' = Inr (Some k)"
      "atoi_buf (drop (k + 16) (rcv_payload d)) = Inr (int n)" by blast
  note step = body_step [OF k small, of junk ps]
  have l: "length (received d) = bytes_received d" "length (rcv_payload d) = data_size d"
    "bytes_received d < data_size d"
    using d clean_payload_length [OF d] by (simp_all add: clean_def)
  have tot: "bytes_received d + length (concat (map received ps)) = he + n"
    using arg_cong [OF all(1), of length] all(2,3) l(1) by simp
  show ?thesis
  proof (cases "bytes_received d = he + n")
    case True
    then have "concat (map received ps) = []" using tot by simp
    then have "ps = []" using ps by (cases ps) (auto simp: packet_ok_def)
    moreover have "terminate_at d (he + n) = Inr (d\<lparr>rcv_payload := received d @ nul # drop (he + n + 1) (rcv_payload d)\<rparr>)"
      using l True by (simp add: terminate_at_def put_at_ok received_def)
    ultimately show ?thesis using step True l(3) all(1) by auto
  next
    case False
    let ?d = "resize junk d (he + n + 1)"
    have b: "bytes_received d \<le> he + n" using tot by simp
    have r: "received ?d = received d" "length (rcv_payload ?d) = Suc (he + n)" "bytes_received ?d = bytes_received d"
      using l b by (simp_all add: resize_def received_def realloc_take)
    from receive_body_exact [OF ps, of ?d "he + n"] r l(1) tot obtain d' where
      d': "receive_body ?d ps (he + n) = Inr (Some (d', []))"
        "received d' = hdr @ body" "bytes_received d' = he + n" "length (rcv_payload d') = Suc (he + n)"
      using all(1) by auto
    have "take (he + n) (rcv_payload d') = hdr @ body" using d'(2,3) by (simp add: received_def)
    with step False d'(1) terminate_full [OF d'(4)] show ?thesis by auto
  qed
qed

lemma body_too_long:
  assumes d: "clean d"
    and len: "strstr (received d) ''Content-Length: '' = Some (''Content-Length: '' @ dec n @ r)"
      "n < 2 ^ 31" "r \<noteq> []" "\<not> isdigit (hd r)"
    and small: "he + n + 1 < 2 ^ 63" and p: "packet_ok p"
    and short: "bytes_received d < he + n" and long: "he + n + 1 < bytes_received d + bytes_received p"
  shows "http_get_request_body junk d (p # ps) he = Inl OutOfBounds"
proof -
  from content_length_found [OF d len] obtain k where
    k: "strstr_buf (rcv_payload d) ''Content-Length: '' = Inr (Some k)"
      "atoi_buf (drop (k + 16) (rcv_payload d)) = Inr (int n)" by blast
  have "append_packet (resize junk d (he + n + 1)) p = Inl OutOfBounds"
    using long p by (simp add: append_packet_def resize_def put_at_def packet_ok_def)
  with body_step [OF k small, of junk "p # ps"] short show ?thesis by (simp add: resize_def)
qed

subsection \<open>The request line\<close>

definition token :: "string \<Rightarrow> bool" where
  "token s \<longleftrightarrow> s \<noteq> [] \<and> set s \<inter> {CHR '' '', CHR 0x0D, CHR 0x0A, nul} = {}"

lemma token_next:
  assumes "block = xs @ tok @ d # rest" "token tok" "d \<in> set delims" "d \<noteq> nul" "nul \<in> set rest"
    "set delims \<subseteq> {CHR '' '', CHR 0x0D, CHR 0x0A}"
  shows "strtok_r block (length xs) delims =
    Inr (Some (length xs), (xs @ tok) @ nul # rest, Suc (length (xs @ tok)))"
proof -
  have "block[length xs + length [] + length tok := nul] = (xs @ tok) @ nul # rest"
    unfolding assms(1) using list_update_length [of "xs @ tok" d rest nul] by simp
  moreover have "set tok \<inter> set delims = {}" "nul \<notin> set ([] @ tok @ [d])"
    using assms(2,4,6) by (auto simp: token_def)
  ultimately show ?thesis
    using strtok_token [of "length xs" block "[]" tok d rest delims] assms by (simp add: token_def)
qed

lemma crlf_set: "set crlf = {CHR 0x0D, CHR 0x0A}"
  by (auto simp: crlf_def)

lemma parse_line:
  assumes block: "block = m @ CHR '' '' # u @ CHR '' '' # v @ CHR 0x0D # rest"
    and t: "token m" "token u" "token v" "nul \<in> set rest"
  defines "b \<equiv> m @ nul # u @ nul # v @ nul # rest"
    and "i \<equiv> length (takeWhile (\<lambda>c. c \<noteq> CHR ''?'') u)"
    and "pu \<equiv> length m + 1"
    and "pv \<equiv> length m + length u + 2"
  shows "http_parse_header block = Inr (\<lparr>req_method = Some 0, req_url = Some pu,
    req_url_suffix = None, req_args = (if i < length u then Some (pu + i + 1) else None),
    req_version = Some pv, req_body = None, req_raw = Some (pv + length v + 1)\<rparr>,
    if i < length u then b[pu + i := nul] else b)"
proof -
  have n: "CHR '' '' \<noteq> nul" "CHR 0x0D \<noteq> nul" by (simp_all add: nul_def)
  let ?r1 = "u @ CHR '' '' # v @ CHR 0x0D # rest" and ?r2 = "v @ CHR 0x0D # rest"
  have s1: "strtok_r block 0 '' '' = Inr (Some 0, m @ nul # ?r1, length m + 1)"
    using token_next [of block "[]" m "CHR '' ''" ?r1 "'' ''"] block t n by simp
  have s2: "strtok_r (m @ nul # ?r1) (length m + 1) '' '' =
      Inr (Some pu, m @ nul # u @ nul # ?r2, pv)"
    using token_next [of "m @ nul # ?r1" "m @ [nul]" u "CHR '' ''" ?r2 "'' ''"] t n
    by (simp add: pu_def pv_def)
  have s3: "strtok_r (m @ nul # u @ nul # ?r2) pv ('' '' @ crlf) = Inr (Some pv, b, pv + length v + 1)"
    using token_next [of "m @ nul # u @ nul # ?r2" "m @ nul # u @ [nul]" v "CHR 0x0D" rest "'' '' @ crlf"] t n
    by (simp add: pv_def b_def crlf_set)
  have "drop pv b = v @ nul # rest" "drop pu b = u @ nul # v @ nul # rest"
    by (simp_all add: pv_def pu_def b_def)
  then have f: "field_str b (Some pv) = Inr v" "field_str b (Some pu) = Inr u"
    using t(2,3) by (simp_all add: field_str_def c_str_text token_def)
  show ?thesis
    unfolding http_parse_header_def s1 bind_res_simps prod.case s2 s3 f Let_def option.sel i_def [symmetric]
    by simp
qed

text \<open>The strings behind those pointers.\<close>

lemma parse_no_args:
  assumes "block = m @ CHR '' '' # u @ CHR '' '' # v @ CHR 0x0D # rest"
    "token m" "token u" "token v" "nul \<in> set rest" "CHR ''?'' \<notin> set u"
  shows "\<exists>req b. http_parse_header block = Inr (req, b) \<and>
    field_str b (req_method req) = Inr m \<and>
    field_str b (req_url req) = Inr u \<and>
    field_str b (req_version req) = Inr v \<and>
    drop (the (req_raw req)) b = rest \<and> req_args req = None"
proof -
  let ?b = "m @ nul # u @ nul # v @ nul # rest"
  note parse = parse_line [OF assms(1-5)]
  have nn: "nul \<notin> set m" "nul \<notin> set u" "nul \<notin> set v" using assms(2-4) by (auto simp: token_def)
  from assms(6) have tw: "takeWhile (\<lambda>c. c \<noteq> CHR ''?'') u = u" by (auto simp: takeWhile_eq_all_conv)
  have "\<not> length (takeWhile (\<lambda>c. c \<noteq> CHR ''?'') u) < length u" unfolding tw by simp
  with parse have req: "http_parse_header block = Inr (\<lparr>req_method = Some 0,
      req_url = Some (length m + 1), req_url_suffix = None, req_args = None,
      req_version = Some (length m + length u + 2),
      req_body = None, req_raw = Some (length m + length u + 2 + length v + 1)\<rparr>, ?b)"
    by simp
  have d: "drop 0 ?b = m @ nul # u @ nul # v @ nul # rest"
    "drop (length m + 1) ?b = u @ nul # v @ nul # rest"
    "drop (length m + length u + 2) ?b = v @ nul # rest"
    "drop (length m + length u + 2 + length v + 1) ?b = rest"
    by (simp_all add: numeral_eq_Suc)
  from d nn have "field_str ?b (Some 0) = Inr m" "field_str ?b (Some (length m + 1)) = Inr u"
    "field_str ?b (Some (length m + length u + 2)) = Inr v"
    by (simp_all only: field_str_def option.case c_str_text not_False_eq_True)
  note f = this
  show ?thesis
    by (intro exI conjI, rule req) (simp_all only: http_request_t.simps f d option.sel)
qed

lemma parse_args:
  assumes "block = m @ CHR '' '' # u @ CHR '' '' # v @ CHR 0x0D # rest"
    "token m" "token u" "token v" "nul \<in> set rest" "u = p @ CHR ''?'' # a" "CHR ''?'' \<notin> set p"
  shows "\<exists>req b. http_parse_header block = Inr (req, b) \<and>
    field_str b (req_method req) = Inr m \<and>
    field_str b (req_url req) = Inr p \<and>
    field_str b (req_version req) = Inr v \<and>
    drop (the (req_raw req)) b = rest \<and> field_str b (req_args req) = Inr a"
proof -
  let ?b = "m @ nul # u @ nul # v @ nul # rest"
  note parse = parse_line [OF assms(1-5)]
  have nn: "nul \<notin> set m" "nul \<notin> set u" "nul \<notin> set v" using assms(2-4) by (auto simp: token_def)
  note u = assms(6,7)
  have "\<forall>c \<in> set p. c \<noteq> CHR ''?''" using u(2) by blast
  then have p: "takeWhile (\<lambda>c. c \<noteq> CHR ''?'') u = p" "dropWhile (\<lambda>c. c \<noteq> CHR ''?'') u = CHR ''?'' # a"
    by (simp_all add: u(1) takeWhile_append2 dropWhile_append2)
  define bb where "bb = m @ nul # p @ nul # a @ nul # v @ nul # rest"
  have "?b[length m + 1 + length p := nul] = bb"
    using list_update_length [of "m @ nul # p" "CHR ''?''" "a @ nul # v @ nul # rest" nul]
    by (simp add: bb_def u(1))
  with parse p(1) have req: "http_parse_header block = Inr (\<lparr>req_method = Some 0,
      req_url = Some (length m + 1), req_url_suffix = None,
      req_args = Some (length m + 1 + length p + 1), req_version = Some (length m + length u + 2),
      req_body = None, req_raw = Some (length m + length u + 2 + length v + 1)\<rparr>, bb)"
    by (simp add: u(1))
  have d: "drop 0 bb = m @ nul # p @ nul # a @ nul # v @ nul # rest"
    "drop (length m + 1) bb = p @ nul # a @ nul # v @ nul # rest"
    "drop (length m + 1 + length p + 1) bb = a @ nul # v @ nul # rest"
    "drop (length m + length u + 2) bb = v @ nul # rest"
    "drop (length m + length u + 2 + length v + 1) bb = rest"
    by (simp_all add: bb_def u(1) numeral_eq_Suc)
  have na: "nul \<notin> set p" "nul \<notin> set a" using nn(2) by (simp_all add: u(1))
  from d na nn have "field_str bb (Some 0) = Inr m" "field_str bb (Some (length m + 1)) = Inr p"
    "field_str bb (Some (length m + 1 + length p + 1)) = Inr a"
    "field_str bb (Some (length m + length u + 2)) = Inr v"
    by (simp_all only: field_str_def option.case c_str_text not_False_eq_True)
  note f = this
  show ?thesis
    by (intro exI conjI, rule req)
      (simp_all only: http_request_t.simps f d option.sel)
qed

lemma parse_fields:
  assumes "block = m @ CHR '' '' # u @ CHR '' '' # v @ CHR 0x0D # rest"
    "token m" "token u" "token v" "nul \<in> set rest"
  shows "\<exists>req b. http_parse_header block = Inr (req, b) \<and>
    field_str b (req_method req) = Inr m \<and>
    field_str b (req_url req) = Inr (takeWhile (\<lambda>c. c \<noteq> CHR ''?'') u) \<and>
    field_str b (req_version req) = Inr v \<and>
    drop (the (req_raw req)) b = rest \<and>
    (if CHR ''?'' \<in> set u then field_str b (req_args req) = Inr (tl (dropWhile (\<lambda>c. c \<noteq> CHR ''?'') u))
     else req_args req = None)"
proof (cases "CHR ''?'' \<in> set u")
  case False
  then have tw: "takeWhile (\<lambda>c. c \<noteq> CHR ''?'') u = u" by (auto simp: takeWhile_eq_all_conv)
  from parse_no_args [OF assms False] False show ?thesis unfolding tw by simp
next
  case True
  then obtain p a where u: "u = p @ CHR ''?'' # a" "CHR ''?'' \<notin> set p" using split_list_first by metis
  then have "\<forall>c \<in> set p. c \<noteq> CHR ''?''" by blast
  then have "takeWhile (\<lambda>c. c \<noteq> CHR ''?'') u = p" "dropWhile (\<lambda>c. c \<noteq> CHR ''?'') u = CHR ''?'' # a"
    by (simp_all add: u(1) takeWhile_append2 dropWhile_append2)
  with parse_args [OF assms u] True show ?thesis by simp
qed

lemma strtok_empty: "c_str (drop pos buf) = Inr [] \<Longrightarrow> strtok_r buf pos delims = Inr (None, buf, pos)"
  by (simp add: strtok_r_def)

text \<open>A request without a space: there is no url and no version.\<close>

lemma parse_no_space:
  assumes "nul \<notin> set s" "CHR '' '' \<notin> set s"
  shows "http_parse_header (s @ nul # z) = Inl NullDeref"
proof -
  let ?b = "s @ nul # z"
  have cs: "c_str ?b = Inr s" "c_str (drop (length s) ?b) = Inr []"
    using assms(1) c_str_text [of "[]" z] by (simp_all add: c_str_text)
  have tw: "takeWhile (\<lambda>c. c \<in> set '' '') s = []" using assms(2) by (cases s) auto
  have tn: "takeWhile (\<lambda>c. c \<notin> set '' '') s = s" using assms(2) by (auto simp: takeWhile_eq_all_conv)
  obtain m where s1: "strtok_r ?b 0 '' '' = Inr (m, ?b, length s)"
    using cs(1) tw tn by (cases s) (auto simp: strtok_r_def)
  have s2: "strtok_r ?b (length s) d = Inr (None, ?b, length s)" for d
    using cs(2) by (rule strtok_empty)
  show ?thesis
    unfolding http_parse_header_def s1 s2 bind_res_simps prod.case by (simp add: field_str_def)
qed

subsection \<open>Trees built by registrations\<close>

text \<open>The \<open>put\<close>, \<open>patch\<close> and \<open>delete\<close> slots of such a tree were never written.\<close>

inductive registered :: "'h pathname \<Rightarrow> bool" where
  start: "registered http_init_url_paths"
| more: "registered t \<Longrightarrow> http_register_method (Some t) p ty h = Inr (Some t', r) \<Longrightarrow> registered t'"

fun no_extra :: "'h pathname \<Rightarrow> bool" where
  "no_extra (Pathname g p u a d ps n) \<longleftrightarrow>
     u = Undef \<and> a = Undef \<and> d = Undef \<and> (\<forall>c \<in> set ps. no_extra c)"

lemma no_extra_iff:
  "no_extra t \<longleftrightarrow> put t = Undef \<and> patch t = Undef \<and> delete t = Undef \<and> (\<forall>c \<in> set (paths t). no_extra c)"
  by (cases t) simp

lemma no_extra_with_paths: "no_extra t \<Longrightarrow> (\<forall>c \<in> set ps. no_extra c) \<Longrightarrow> no_extra (with_paths ps t)"
  by (cases t) simp

lemma no_extra_child: "no_extra t \<Longrightarrow> no_extra c \<Longrightarrow> no_extra (http_add_child_path t c)"
  unfolding http_add_child_path_def by (rule no_extra_with_paths) (auto simp: no_extra_iff [of t])

lemma no_extra_create [simp]: "no_extra (http_create_url_path n)"
  by (simp add: http_create_url_path_def)

lemma no_extra_node: "no_extra t \<Longrightarrow> node_at t r = Some u \<Longrightarrow> no_extra u"
proof (induction r arbitrary: t)
  case (Cons i r)
  then have i: "i < length (paths t)" "node_at (paths t ! i) r = Some u" by (auto split: if_splits)
  with Cons.prems(1) have "no_extra (paths t ! i)" using no_extra_iff [of t] nth_mem by blast
  with Cons.IH i(2) show ?case by blast
qed simp

lemma no_extra_update:
  "no_extra t \<Longrightarrow> (\<And>u. no_extra u \<Longrightarrow> no_extra (f u)) \<Longrightarrow> no_extra (update_at r f t)"
proof (induction r arbitrary: t)
  case (Cons i r)
  have ps: "\<forall>c \<in> set (paths t). no_extra c" using Cons.prems(1) no_extra_iff [of t] by blast
  have "\<forall>c \<in> set ((paths t)[i := update_at r f (paths t ! i)]). no_extra c"
  proof (cases "i < length (paths t)")
    case True
    then have "no_extra (update_at r f (paths t ! i))" using Cons ps by auto
    with ps show ?thesis using set_update_subset_insert [of "paths t" i] by blast
  qed (use ps in \<open>simp add: list_update_beyond\<close>)
  with Cons.prems(1) show ?case by (simp add: no_extra_with_paths)
qed simp

lemma no_extra_segments: "no_extra root \<Longrightarrow> no_extra (fst (add_segments root uri s))"
proof (induction root uri s rule: add_segments.induct)
  case (1 root uri s)
  show ?case
  proof (cases "s = []")
    case False
    have "no_extra (update_at uri (\<lambda>u. http_add_child_path u (http_create_url_path s)) root)"
      by (rule no_extra_update [OF "1.prems"]) (simp add: no_extra_child)
    from "1.IH" [OF False refl this] False show ?thesis
      by (simp add: add_segments.simps [of root uri s] Let_def)
  qed (use "1.prems" in \<open>simp add: add_segments.simps [of root uri "[]"]\<close>)
qed

lemma no_extra_method: "no_extra u \<Longrightarrow> set_method u ty m = Inr (Some u') \<Longrightarrow> no_extra u'"
  by (cases u) (auto simp: claim_slot_def split: if_splits slot.splits)

lemma registered_no_extra: "registered t \<Longrightarrow> no_extra t"
proof (induction rule: registered.induct)
  case start
  then show ?case by (simp add: http_init_url_paths_def)
next
  case (more t p ty h t' r)
  obtain route rest where res: "http_resolve_path t p = (route, rest)" by (cases "http_resolve_path t p")
  obtain t1 uri where t1: "(case rest of None \<Rightarrow> (t, route) | Some s \<Rightarrow> add_segments t route s) = (t1, uri)"
    by (cases "case rest of None \<Rightarrow> (t, route) | Some s \<Rightarrow> add_segments t route s")
  have ok: "no_extra t1" using t1 more.IH no_extra_segments [of t route]
    by (cases rest) (auto, metis fst_conv)
  from more.hyps(2) res t1 obtain u where u: "node_at t1 uri = Some u"
    by (auto simp: http_register_method_def Let_def split: option.splits)
  have nu: "no_extra u" by (rule no_extra_node [OF ok u])
  show ?case
  proof (cases "set_method u ty h")
    case (Inr x)
    then show ?thesis using more.hyps(2) res t1 u ok no_extra_method [OF nu, of ty h]
      by (cases x) (auto simp: http_register_method_def Let_def intro!: no_extra_update)
  qed (use more.hyps(2) res t1 u in \<open>auto simp: http_register_method_def Let_def\<close>)
qed

subsection \<open>Whole rounds\<close>

lemma header_now:
  "find_header_end d = Inr (Some he) \<Longrightarrow> http_get_request_header junk d ps = Inr (Some (d, ps, he))"
  by (cases ps) simp_all

lemma set_sublist: "sublist xs ys \<Longrightarrow> set xs \<subseteq> set ys"
  by (auto simp: sublist_def)

text \<open>A complete header without a \<open>Content-Length\<close>, in a block whose rest is zero.\<close>

lemma no_body:
  assumes "clean d" "\<not> sublist ''Content-Length: '' (received d)"
  shows "http_get_request_body junk d ps he = Inr (Some (d, ps, 0))"
proof -
  from clean_terminated [OF assms(1)] obtain z where z: "rcv_payload d = received d @ nul # z" ..
  have "strstr (received d) ''Content-Length: '' = None" using assms(2) by (simp add: strstr_None_iff)
  moreover have "nul \<notin> set (received d)" using assms(1) by (simp add: clean_def)
  ultimately have "strstr_buf (rcv_payload d) ''Content-Length: '' = Inr None"
    using strstr_buf_strstr [of "received d" "''Content-Length: ''" z] z by (simp add: nul_def)
  then show ?thesis by (simp add: http_get_request_body_def)
qed

lemma process_no_body:
  assumes "clean d" "4 \<le> bytes_received d" "header_end_spec (received d) = Some he"
    "\<not> sublist ''Content-Length: '' (received d)"
  shows "http_process_one junk root ok d ps =
    bind_res (http_serve root d he) (\<lambda>r. bind_res (http_send ok r) (\<lambda>out. Inr (Some (out, ps))))"
proof -
  have "find_header_end d = Inr (Some he)" using find_header_end_clean [OF assms(1,2)] assms(3) by simp
  from header_now [OF this] no_body [OF assms(1,4)] show ?thesis
    by (simp add: http_process_one_def)
qed

lemma process_waits:
  assumes d: "rcv_payload d = data @ ''Content-Length: '' @ dec n @ nul # z" "bytes_received d = length data"
    and data: "suffix header_mark data" "nul \<notin> set data" "\<not> sublist ''Content-Length: '' data"
    and n: "0 < n" "n < 2 ^ 31" and small: "length data < 2 ^ 31"
  shows "http_process_one junk root ok d [] = Inr None"
proof -
  obtain d0 where d0: "data = d0 @ header_mark" using data(1) by (auto simp: suffix_def)
  let ?stale = "''Content-Length: '' @ dec n @ nul # z"
  have "find_header_end d = Inr (Some (length data))"
    using d d0 by (simp add: find_header_end_def)
  note hdr = header_now [OF this, of junk "[]"]
  have no: "\<not> prefix ''Content-Length: '' (drop j (data @ ?stale))" if "j < length data" for j
  proof
    assume p: "prefix ''Content-Length: '' (drop j (data @ ?stale))"
    let ?d1 = "d0 @ [CHR 0x0D, CHR 0x0A, CHR 0x0D]"
    have e: "data @ ?stale = ?d1 @ CHR 0x0A # ?stale" by (simp add: d0 header_mark_def crlf_def)
    have jle: "j \<le> length ?d1" using that by (simp add: d0 header_mark_def crlf_def)
    have pj: "prefix ''Content-Length: '' (drop j (?d1 @ CHR 0x0A # ?stale))" using p by (simp only: e)
    have "CHR 0x0A \<notin> set ''Content-Length: ''" by simp
    from prefix_in_text [OF pj this jle] have "prefix ''Content-Length: '' (drop j ?d1)" .
    then have "sublist ''Content-Length: '' (drop j ?d1)" by (rule prefix_imp_sublist)
    moreover have "sublist (drop j ?d1) ?d1" by (rule sublist_drop)
    moreover have "sublist ?d1 data" by (rule prefix_imp_sublist) (simp add: d0 header_mark_def crlf_def)
    ultimately show False using data(3) by (meson sublist_order.order_trans)
  qed
  have "strstr_buf (rcv_payload d) ''Content-Length: '' = Inr (Some (length data))"
    unfolding d(1) using data(2) no by (subst strstr_buf_skip) (simp_all del: drop_append)
  moreover have "atoi_buf (drop (length data + 16) (rcv_payload d)) = Inr (int n)"
    using n atoi_buf_dec [of n "nul # z"] by (simp add: d(1) isdigit_def nul_def)
  moreover have "length data + n + 1 < 2 ^ 63" using n small by simp
  ultimately have "http_get_request_body junk d [] (length data) = Inr None"
    using body_step [of d "length data" n "length data" junk "[]"] n(1) d(2) by (simp add: resize_def)
  with hdr show ?thesis by (simp add: http_process_one_def)
qed

text \<open>Every response of the server itself is complete: its body is a literal with its NUL.\<close>

definition error_reply :: "int \<Rightarrow> string \<Rightarrow> http_response_t \<Rightarrow> bool" where
  "error_reply c text r \<longleftrightarrow> code r = c \<and> status_line r \<noteq> None \<and> response_ok r \<and>
     payload r = text @ [nul] \<and> payload_size r = length text + 1"

lemma error_response_ok:
  assumes "c \<in> {HTTP_405_NOT_ALLOWED, HTTP_400_BAD_REQUEST}" "len = length text + 1"
  shows "\<exists>r. error_response c len text = Inr r \<and>
    error_reply (if c = HTTP_405_NOT_ALLOWED then 405 else 400) text r"
proof -
  obtain r1 where r1: "http_set_response_code new_response c = Inr r1"
    "r1 = new_response\<lparr>code := if c = HTTP_405_NOT_ALLOWED then 405 else 400, status_line := status_line r1\<rparr>"
    "status_line r1 \<noteq> None"
    using assms(1) by (auto simp: http_set_response_code_def HTTP_405_NOT_ALLOWED_def
        HTTP_400_BAD_REQUEST_def HttpResponses_def)
  have "http_set_content_type r1 ''text/html'' True =
      Inr (r1\<lparr>content_type := crlf @ ''Content-Type: text/html; charset=utf-8''\<rparr>)"
  proof -
    have "nul \<notin> set (crlf @ ''Content-Type: text/html; charset=utf-8'')" using crlf_no_nul by (simp add: nul_def)
    then show ?thesis
      using read_str_text [of "crlf @ ''Content-Type: text/html; charset=utf-8''"]
      by (simp add: http_set_content_type_def sprintf_at_start crlf_def)
  qed
  with r1 assms(2) show ?thesis
    by (auto simp: error_response_def error_reply_def http_set_body_def response_ok_def
        new_response_def header_text_def)
qed

lemma send_error_reply:
  assumes "error_reply c text r" "c = 405 \<or> c = 400"
  shows "\<exists>reply. http_send True r = Inr [reply, text @ [nul]]"
proof -
  obtain st where "status_line r = Some st" using assms(1) by (auto simp: error_reply_def)
  moreover have "response_ok r" "- (2 ^ 31) \<le> code r" "code r < 2 ^ 31"
    using assms by (auto simp: error_reply_def)
  ultimately obtain hdr where "http_reply r = Inr (reply_text r st hdr)" using reply_of_ok by blast
  with assms(1) show ?thesis by (auto simp: http_send_def error_reply_def)
qed

definition slot_for :: "string \<Rightarrow> 'h pathname \<Rightarrow> 'h slot option" where
  "slot_for m node =
     (if m = ''GET'' then Some (get node) else if m = ''POST'' then Some (post node)
      else if m = ''PUT'' then Some (put node) else if m = ''PATCH'' then Some (patch node)
      else if m = ''DELETE'' then Some (delete node) else None)"

text \<open>The body of the 405 reply to a method.\<close>

definition not_allowed_text :: "string \<Rightarrow> string" where
  "not_allowed_text m =
     ''Method '' @ (if m = ''GET'' then ''Get'' else if m = ''POST'' then ''Post''
       else if m = ''PUT'' then ''Put'' else if m = ''PATCH'' then ''Patch'' else ''Delete'') @ '' not allowed''"

lemma dispatch_slot:
  assumes "field_str block (req_method req) = Inr m"
  shows "case slot_for m node of
      None \<Rightarrow> \<exists>r. http_dispatch node block req = Inr r \<and> error_reply 400 ''Bad request'' r
    | Some Undef \<Rightarrow> http_dispatch node block req = Inl UninitRead
    | Some Null \<Rightarrow> \<exists>r. http_dispatch node block req = Inr r \<and> error_reply 405 (not_allowed_text m) r
    | Some (Handler h) \<Rightarrow> http_dispatch node block req = h block req new_response"
proof (cases "slot_for m node")
  case None
  then have "http_dispatch node block req = error_response HTTP_400_BAD_REQUEST 12 ''Bad request''"
    using assms by (auto simp: http_dispatch_def http_choose_def slot_for_def split: if_splits)
  with None error_response_ok [of HTTP_400_BAD_REQUEST 12 "''Bad request''"] show ?thesis
    by (simp add: HTTP_405_NOT_ALLOWED_def HTTP_400_BAD_REQUEST_def)
next
  case (Some sl)
  let ?t = "not_allowed_text m"
  have "http_dispatch node block req = call_slot sl block req (length ?t + 1) ?t"
    using assms Some unfolding http_dispatch_def http_choose_def slot_for_def not_allowed_text_def
    by (auto simp: eval_nat_numeral split: if_splits)
  with Some error_response_ok [of HTTP_405_NOT_ALLOWED "length ?t + 1" ?t] show ?thesis
    by (cases sl) (auto simp: call_slot_def)
qed

text \<open>Serving a well-formed request line comes down to the slot of the resolved node.\<close>

lemma serve_line:
  assumes "rcv_payload d = m @ CHR '' '' # u @ CHR '' '' # v @ CHR 0x0D # rest"
    "token m" "token u" "token v" "nul \<in> set rest"
  shows "\<exists>node block req. http_serve root d he = http_dispatch node block req \<and>
    node_at root (fst (http_resolve_path root (takeWhile (\<lambda>c. c \<noteq> CHR ''?'') u))) = Some node \<and>
    field_str block (req_method req) = Inr m"
proof -
  obtain req b where p: "http_parse_header (rcv_payload d) = Inr (req, b)"
    "field_str b (req_method req) = Inr m"
    "field_str b (req_url req) = Inr (takeWhile (\<lambda>c. c \<noteq> CHR ''?'') u)"
    using parse_fields [OF assms] by blast
  let ?u = "takeWhile (\<lambda>c. c \<noteq> CHR ''?'') u"
  obtain node where "node_at root (fst (http_resolve_path root ?u)) = Some node"
    using resolve_node by blast
  with p show ?thesis
    by (intro exI [of _ node] exI [of _ b] exI [of _ "req\<lparr>req_body := Some he, req_url_suffix :=
          map_option (\<lambda>s. the (req_url req) + length ?u - length s) (snd (http_resolve_path root ?u))\<rparr>"])
      (cases "http_resolve_path root ?u", simp add: http_serve_def http_route_def)
qed

definition self_contained ::
    "(nat \<Rightarrow> char) \<Rightarrow> handler pathname \<Rightarrow> bool \<Rightarrow> rcv_data_t \<Rightarrow> char list list \<Rightarrow> bool" where
  "self_contained junk root ok p out \<longleftrightarrow> (\<forall>ps. http_process_one junk root ok p ps = Inr (Some (out, ps)))"

lemma process_all:
  assumes "\<forall>p \<in> set (d # ps). self_contained junk root ok p (out p)" "length ps < con_queue_size"
  shows "http_process_request (Suc (length ps)) junk root ok d ps = Inr (Some (concat (map out (d # ps)), []))"
  using assms
proof (induction ps arbitrary: d)
  case Nil
  then show ?case by (simp add: self_contained_def con_empty_def)
next
  case (Cons p ps)
  have "http_process_request (Suc (length ps)) junk root ok p ps = Inr (Some (concat (map out (p # ps)), []))"
    using Cons.prems by (intro Cons.IH) auto
  moreover have "http_process_one junk root ok d (p # ps) = Inr (Some (out d, p # ps))" "\<not> con_empty (p # ps)"
    using Cons.prems by (simp_all add: self_contained_def con_empty_def)
  ultimately show ?case by (simp only: http_process_request.simps list.size bind_res_simps option.case
      prod.case list.sel if_False) simp
qed

subsection \<open>Properties\<close>





text \<open>A packet that brings more of the body than \<open>Content-Length\<close> announced is copied
  past the end of the block: the block was cut to the announced length, and the copy is of the
  whole packet.\<close>

theorem body_overflow:
  assumes "clean d"
    and "strstr (received d) ''Content-Length: '' = Some (''Content-Length: '' @ dec n @ r)"
      "n < 2 ^ 31" "r \<noteq> []" "\<not> isdigit (hd r)"
    and "he + n + 1 < 2 ^ 63" and "packet_ok p"
    and "bytes_received d < he + n" and "he + n + 1 < bytes_received d + bytes_received p"
  shows "http_get_request_body junk d (p # ps) he = Inl OutOfBounds"
  using assms by (rule body_too_long)

theorem body_overflow_witness:
  "http_get_request_body (\<lambda>_. nul)
      \<lparr>data_size = 64, bytes_received = 21, rcv_payload = ''Content-Length: 3'' @ crlf @ crlf @ replicate 43 nul\<rparr>
      [\<lparr>data_size = 100, bytes_received = 100, rcv_payload = replicate 100 CHR ''x''\<rparr>] 21 = Inl OutOfBounds"
proof -
  let ?d = "\<lparr>data_size = 64, bytes_received = 21, rcv_payload = ''Content-Length: 3'' @ crlf @ crlf @ replicate 43 nul\<rparr>"
  let ?p = "\<lparr>data_size = 100, bytes_received = 100, rcv_payload = replicate 100 CHR ''x''\<rparr>"
  have r: "received ?d = ''Content-Length: 3'' @ crlf @ crlf" by (simp add: received_def crlf_def)
  have ok: "clean ?d" using r by (simp add: clean_def nul_def crlf_def)
  have p: "packet_ok ?p" by (simp add: packet_ok_def received_def nul_def)
  have "dec 3 = ''3''" by code_simp
  then have "strstr (received ?d) ''Content-Length: '' = Some (''Content-Length: '' @ dec 3 @ crlf @ crlf)"
    unfolding r by simp
  from body_overflow [OF ok this _ _ _ _ p, of 21] show ?thesis by (simp add: crlf_def isdigit_def)
qed

text \<open>The search for \<open>Content-Length\<close> runs on into the unused rest of the block: a
  request without that header, received into a recycled block that still holds one, waits for a
  body that was never announced.\<close>

theorem stale_length_waits:
  assumes "rcv_payload d = data @ ''Content-Length: '' @ dec n @ nul # z" "bytes_received d = length data"
    and "suffix header_mark data" "nul \<notin> set data" "\<not> sublist ''Content-Length: '' data"
    and "0 < n" "n < 2 ^ 31" and "length data < 2 ^ 31"
  shows "http_process_one junk root ok d [] = Inr None"
  using assms by (rule process_waits)

theorem stale_length_waits_witness:
  "http_process_one (\<lambda>_. nul) http_init_url_paths True
      \<lparr>data_size = 64, bytes_received = 18,
       rcv_payload = (''GET / HTTP/1.1'' @ crlf @ crlf) @ ''Content-Length: '' @ dec 9 @ nul # replicate 28 nul\<rparr> [] = Inr None"
proof -
  have "\<not> sublist ''Content-Length: '' (''GET / HTTP/1.1'' @ crlf @ crlf)"
    by (simp add: crlf_def sublist_Cons_right)
  then show ?thesis
    using stale_length_waits [of "\<lparr>data_size = 64, bytes_received = 18,
       rcv_payload = (''GET / HTTP/1.1'' @ crlf @ crlf) @ ''Content-Length: '' @ dec 9 @ nul # replicate 28 nul\<rparr>"
       "''GET / HTTP/1.1'' @ crlf @ crlf" 9 "replicate 28 nul"]
    by (simp add: header_mark_def crlf_def suffix_def nul_def)
qed

text \<open>A well-formed request line is parsed into its method, its url up to the question
  mark, the arguments behind it, and the version; \<open>raw\<close> is the rest of the request.\<close>

theorem request_line_parsed:
  assumes "block = m @ CHR '' '' # u @ CHR '' '' # v @ CHR 0x0D # rest"
    "token m" "token u" "token v" "nul \<in> set rest"
  shows "\<exists>req b. http_parse_header block = Inr (req, b) \<and>
    field_str b (req_method req) = Inr m \<and>
    field_str b (req_url req) = Inr (takeWhile (\<lambda>c. c \<noteq> CHR ''?'') u) \<and>
    field_str b (req_version req) = Inr v \<and>
    drop (the (req_raw req)) b = rest \<and>
    (if CHR ''?'' \<in> set u then field_str b (req_args req) = Inr (tl (dropWhile (\<lambda>c. c \<noteq> CHR ''?'') u))
     else req_args req = None)"
  using assms by (rule parse_fields)

theorem request_line_parsed_witness:
  "\<exists>req b. http_parse_header (''GET /coin?id=7 HTTP/1.1'' @ crlf @ crlf @ [nul]) = Inr (req, b) \<and>
    field_str b (req_url req) = Inr ''/coin'' \<and> field_str b (req_args req) = Inr ''id=7''"
  using request_line_parsed [of "''GET /coin?id=7 HTTP/1.1'' @ crlf @ crlf @ [nul]" "''GET''" "''/coin?id=7''"
      "''HTTP/1.1''" "CHR 0x0A # crlf @ [nul]"]
  by (auto simp: crlf_def token_def nul_def)

text \<open>A complete request without a space in it crashes the server: there is no version,
  and \<open>strlen\<close> is called on NULL.\<close>

theorem request_without_space:
  assumes "clean d" "4 \<le> bytes_received d" "suffix header_mark (received d)" "CHR '' '' \<notin> set (received d)"
  shows "http_process_one junk root ok d ps = Inl NullDeref"
proof -
  have no: "\<not> sublist ''Content-Length: '' (received d)"
    using assms(4) set_sublist [of "''Content-Length: ''" "received d"] by auto
  have "header_end_spec (received d) = Some (length (received d))" using assms(3) by (simp add: header_end_spec_def)
  note one = process_no_body [OF assms(1,2) this no, of junk root ok ps]
  from clean_terminated [OF assms(1)] obtain z where z: "rcv_payload d = received d @ nul # z" ..
  have "nul \<notin> set (received d)" using assms(1) by (simp add: clean_def)
  from parse_no_space [OF this assms(4), of z] z one show ?thesis by (simp add: http_serve_def http_route_def)
qed

theorem request_without_space_witness:
  "http_process_one (\<lambda>_. nul) http_init_url_paths True
     \<lparr>data_size = 8, bytes_received = 4, rcv_payload = crlf @ crlf @ replicate 4 nul\<rparr> [] = Inl NullDeref"
proof -
  let ?d = "\<lparr>data_size = 8, bytes_received = 4, rcv_payload = crlf @ crlf @ replicate 4 nul\<rparr>"
  have r: "received ?d = crlf @ crlf" by (simp add: received_def crlf_def)
  then have "clean ?d" by (simp add: clean_def crlf_def nul_def)
  with request_without_space [of ?d] r show ?thesis by (simp add: header_mark_def crlf_def)
qed

text \<open>Property C10. Any well-formed request is answered by the slot of its method at the node its url
  resolves to: 400 for an unknown method, 405 with its text for a slot without a handler, and
  else what the handler does. The bodies of the error replies are sent in full, with their NUL.\<close>

theorem request_dispatched:
  assumes "rcv_payload d = m @ CHR '' '' # u @ CHR '' '' # v @ CHR 0x0D # rest"
    "token m" "token u" "token v" "nul \<in> set rest"
  shows "\<exists>node block req.
    node_at root (fst (http_resolve_path root (takeWhile (\<lambda>c. c \<noteq> CHR ''?'') u))) = Some node \<and>
    field_str block (req_method req) = Inr m \<and>
    (case slot_for m node of
       None \<Rightarrow> \<exists>r. http_serve root d he = Inr r \<and> error_reply 400 ''Bad request'' r
     | Some Undef \<Rightarrow> http_serve root d he = Inl UninitRead
     | Some Null \<Rightarrow> \<exists>r. http_serve root d he = Inr r \<and> error_reply 405 (not_allowed_text m) r
     | Some (Handler h) \<Rightarrow> http_serve root d he = h block req new_response)"
proof -
  from serve_line [OF assms, of root he] obtain node block req where
    n: "http_serve root d he = http_dispatch node block req"
      "node_at root (fst (http_resolve_path root (takeWhile (\<lambda>c. c \<noteq> CHR ''?'') u))) = Some node"
      "field_str block (req_method req) = Inr m" by blast
  from dispatch_slot [OF n(3), of node] n show ?thesis
    by (intro exI [of _ node] exI [of _ block] exI [of _ req]) (simp only: simp_thms)
qed

theorem request_dispatched_witness:
  "\<exists>r. http_serve http_init_url_paths
      \<lparr>data_size = 20, bytes_received = 19, rcv_payload = ''BREW / HTTP/1.1'' @ crlf @ crlf @ [nul]\<rparr> 19 = Inr r \<and>
    error_reply 400 ''Bad request'' r"
  using request_dispatched [of "\<lparr>data_size = 20, bytes_received = 19,
        rcv_payload = ''BREW / HTTP/1.1'' @ crlf @ crlf @ [nul]\<rparr>" "''BREW''" "''/''" "''HTTP/1.1''"
      "CHR 0x0A # crlf @ [nul]" http_init_url_paths 19]
  by (auto simp: crlf_def token_def nul_def slot_for_def)

text \<open>Whatever routes the application has registered, a well-formed request with the
  method PUT, PATCH or DELETE makes the server branch on an uninitialised function pointer, and
  call it when it is not NULL by chance.\<close>

theorem put_requests_fault:
  assumes "registered root" "m \<in> {''PUT'', ''PATCH'', ''DELETE''}"
    and "rcv_payload d = m @ CHR '' '' # u @ CHR '' '' # v @ CHR 0x0D # rest"
      "token u" "token v" "nul \<in> set rest"
  shows "http_serve root d he = Inl UninitRead"
proof -
  have "token m" using assms(2) by (auto simp: token_def nul_def)
  from serve_line [OF assms(3) this assms(4-6), of root he] obtain node block req where
    n: "http_serve root d he = http_dispatch node block req"
      "node_at root (fst (http_resolve_path root (takeWhile (\<lambda>c. c \<noteq> CHR ''?'') u))) = Some node"
      "field_str block (req_method req) = Inr m" by blast
  have "no_extra node" by (rule no_extra_node [OF registered_no_extra [OF assms(1)] n(2)])
  then have "slot_for m node = Some Undef" using assms(2) by (auto simp: slot_for_def no_extra_iff [of node])
  with dispatch_slot [OF n(3), of node] n(1) show ?thesis by simp
qed

theorem put_requests_fault_witness:
  "http_serve http_init_url_paths
     \<lparr>data_size = 19, bytes_received = 18, rcv_payload = ''PUT / HTTP/1.1'' @ crlf @ crlf @ [nul]\<rparr> 18 =
   Inl UninitRead"
  using put_requests_fault [OF registered.start, of "''PUT''" "\<lparr>data_size = 19, bytes_received = 18,
        rcv_payload = ''PUT / HTTP/1.1'' @ crlf @ crlf @ [nul]\<rparr>" "''/''" "''HTTP/1.1''"
      "CHR 0x0A # crlf @ [nul]" 18]
  by (simp add: crlf_def token_def nul_def)

text \<open>Property C11. Requests that wait in the connection's queue are answered one after the other, in
  order, by one task, unless the queue is full when it is tested: then the task ends after the
  first and leaves the ten others unanswered, because a full queue tests as empty.\<close>

theorem requests_in_order:
  assumes "\<forall>p \<in> set (d # ps). self_contained junk root ok p (out p)" "length ps \<le> con_queue_size"
  shows "http_process_request (Suc (length ps)) junk root ok d ps =
    Inr (Some (if length ps = con_queue_size then (out d, ps) else (concat (map out (d # ps)), [])))"
proof (cases "length ps = con_queue_size")
  case True
  have "http_process_one junk root ok d ps = Inr (Some (out d, ps))"
    using assms(1) by (simp add: self_contained_def)
  with True show ?thesis by (simp add: con_empty_def)
next
  case False
  with assms process_all [of d ps junk root ok out] show ?thesis by simp
qed

theorem requests_in_order_witness:
  "\<exists>reply. http_process_request 2 (\<lambda>_. nul) http_init_url_paths True
      \<lparr>data_size = 19, bytes_received = 18, rcv_payload = ''GET / HTTP/1.1'' @ crlf @ crlf @ [nul]\<rparr>
      [\<lparr>data_size = 19, bytes_received = 18, rcv_payload = ''GET / HTTP/1.1'' @ crlf @ crlf @ [nul]\<rparr>] =
    Inr (Some ([reply, ''Method Get not allowed'' @ [nul], reply, ''Method Get not allowed'' @ [nul]], []))"
proof -
  let ?d = "\<lparr>data_size = 19, bytes_received = 18, rcv_payload = ''GET / HTTP/1.1'' @ crlf @ crlf @ [nul]\<rparr>"
  let ?root = "http_init_url_paths :: handler pathname"
  have r: "received ?d = ''GET / HTTP/1.1'' @ crlf @ crlf" by (simp add: received_def crlf_def)
  have ok: "clean ?d" "header_end_spec (received ?d) = Some 18"
    "\<not> sublist ''Content-Length: '' (received ?d)"
    unfolding clean_def r by (simp_all add: nul_def crlf_def header_end_spec_def header_mark_def
        suffix_def sublist_Cons_right)
  obtain r where s: "http_serve ?root ?d 18 = Inr r" "error_reply 405 ''Method Get not allowed'' r"
  proof -
    have "\<exists>node block req. http_serve ?root ?d 18 = http_dispatch node block req \<and>
        node_at ?root (fst (http_resolve_path ?root (takeWhile (\<lambda>c. c \<noteq> CHR ''?'') ''/''))) = Some node \<and>
        field_str block (req_method req) = Inr ''GET''"
      using serve_line [of ?d "''GET''" "''/''" "''HTTP/1.1''" "CHR 0x0A # crlf @ [nul]" ?root 18]
      by (simp add: crlf_def token_def nul_def)
    then obtain node block req where n: "http_serve ?root ?d 18 = http_dispatch node block req"
      "node = ?root" "field_str block (req_method req) = Inr ''GET''"
      by (auto simp: resolve_root skip_slashes_def)
    have "slot_for ''GET'' node = Some Null" by (simp add: n(2) slot_for_def http_init_url_paths_def)
    with dispatch_slot [OF n(3), of node] n(1) that show thesis by (auto simp: not_allowed_text_def)
  qed
  from send_error_reply [OF s(2)] obtain reply where
    send: "http_send True r = Inr [reply, ''Method Get not allowed'' @ [nul]]" by blast
  have "self_contained (\<lambda>_. nul) ?root True ?d [reply, ''Method Get not allowed'' @ [nul]]"
    using process_no_body [OF ok(1) _ ok(2,3)] s(1) send by (simp add: self_contained_def)
  then have "\<forall>p \<in> set [?d, ?d]. self_contained (\<lambda>_. nul) ?root True p [reply, ''Method Get not allowed'' @ [nul]]"
    by (simp only: list.set ball_simps simp_thms insert_iff)
  from requests_in_order [OF this] show ?thesis
    by (intro exI [of _ reply]) (simp add: con_queue_size_def numeral_2_eq_2 del: http_process_request.simps)
qed

subsection \<open>The rounds of a task\<close>

lemma header_takes: "http_get_request_header junk d ps = Inr (Some (d', ps', he)) \<Longrightarrow> length ps' \<le> length ps"
  by (induction junk d ps arbitrary: d' ps' he rule: http_get_request_header.induct)
    (auto simp: bind_res_Inr split: option.splits if_splits intro: le_SucI)

lemma body_takes: "receive_body d ps lim = Inr (Some (d', ps')) \<Longrightarrow> length ps' \<le> length ps"
  by (induction d ps lim arbitrary: d' ps' rule: receive_body.induct)
    (auto simp: bind_res_Inr split: if_splits intro: le_SucI)

lemma let_elim: "(let x = a in f x) = y \<Longrightarrow> (\<And>x. f x = y \<Longrightarrow> P) \<Longrightarrow> P"
  by simp

lemma request_body_takes: "http_get_request_body junk d ps he = Inr (Some (d', ps', n)) \<Longrightarrow> length ps' \<le> length ps"
  unfolding http_get_request_body_def bind_res_Inr
  apply (elim exE conjE)
  apply (split option.split_asm)
  apply simp
  apply (simp only: bind_res_Inr)
  apply (elim exE conjE let_elim)
  apply (split if_split_asm)
  apply (auto simp: bind_res_Inr)[1]
  apply (split if_split_asm)
  apply simp
  apply (auto simp: bind_res_Inr split: option.splits dest: body_takes)
  done

lemma process_takes: "http_process_one junk root ok d ps = Inr (Some (out, ps')) \<Longrightarrow> length ps' \<le> length ps"
  unfolding http_process_one_def
  by (auto simp: bind_res_Inr split: option.splits dest!: header_takes request_body_takes)



end
