(* ===== verification/Worker.thy ===== *)
theory Worker
  imports Request
begin

section \<open>The listener (server/http.c)\<close>

text \<open>
  The table of connections, the rounds of \<open>http_server_worker\<close> over it, and what the tasks that
  serve the requests do to a connection. Slot 0 is the listening socket. A TLS session is a number. What the
  system calls return is the input of a round: the result of \<open>poll\<close>, per readable slot the results of
  \<open>SSL_read\<close> with the block they filled, and the accepted descriptor with its session, if the handshake
  succeeds. A turn of the listener is done, or it waits in a call for ever or until another
  thread acts. Of the lock of a connection the model keeps whether the listener holds it while it waits.
  A task records the slot and the session it was started for.
\<close>

datatype task_pc = Serving | Popping

record http_task =
  t_slot :: nat
  t_ssl :: "nat option"
  t_pc :: task_pc
  t_data :: rcv_data_t

record connection_t =
  con_fd :: int
  con_ssl :: "nat option"
  con_timeout :: int
  con_locked :: bool
  con_running :: bool
  con_requests :: "rcv_data_t queue_t option"

record http_server_t =
  sv_timeout :: int
  sv_fd :: int
  sv_active :: bool
  maxConnections :: nat
  nfds :: nat
  pfds :: "int list"
  connections :: "connection_t list"
  sv_tasks :: "http_task list"

subsection \<open>Opening and closing\<close>

definition http_open_connection :: "int \<Rightarrow> int \<Rightarrow> nat \<Rightarrow> connection_t \<Rightarrow> connection_t" where
  "http_open_connection fd timeout ssl con =
     con\<lparr>con_fd := fd, con_timeout := (10 * 1000) div timeout, con_ssl := Some ssl,
       con_requests := Some (queue_create con_queue_size), con_locked := False, con_running := False\<rparr>"

definition http_close_connection :: "connection_t \<Rightarrow> connection_t res" where
  "http_close_connection con =
     (if con_requests con = None then Inl NullDeref
      else Inr (con\<lparr>con_fd := -1, con_timeout := -1, con_ssl := None, con_requests := None\<rparr>))"

definition set_con :: "nat \<Rightarrow> connection_t \<Rightarrow> http_server_t \<Rightarrow> http_server_t" where
  "set_con i c s = s\<lparr>connections := (connections s)[i := c]\<rparr>"

definition close_slot :: "nat \<Rightarrow> http_server_t \<Rightarrow> http_server_t res" where
  "close_slot i s =
     bind_res (http_close_connection (connections s ! i)) (\<lambda>c.
       Inr ((set_con i c s)\<lparr>pfds := (pfds s)[i := -1], nfds := (if i = nfds s - 1 then nfds s - 1 else nfds s)\<rparr>))"

subsection \<open>A round of the listener\<close>

datatype turn = Done http_server_t | Waits http_server_t

fun turn_state :: "turn \<Rightarrow> http_server_t" where
  "turn_state (Done s) = s"
| "turn_state (Waits s) = s"

definition and_then :: "turn res \<Rightarrow> (http_server_t \<Rightarrow> turn res) \<Rightarrow> turn res" where
  "and_then m k = (case m of Inr (Done s) \<Rightarrow> k s | _ \<Rightarrow> m)"

text \<open>The loops over the slots from \<open>i\<close>; \<open>nfds\<close>, which only falls in them, is read anew in every turn, so
  that as many turns as it has at the start are enough.\<close>

fun for_slots :: "(nat \<Rightarrow> http_server_t \<Rightarrow> turn res) \<Rightarrow> nat \<Rightarrow> nat \<Rightarrow> http_server_t \<Rightarrow> turn res" where
  "for_slots f 0 i s = Inr (Done s)"
| "for_slots f (Suc k) i s =
     (if i < nfds s then and_then (f i s) (for_slots f k (Suc i)) else Inr (Done s))"

definition timeout_slot :: "nat \<Rightarrow> http_server_t \<Rightarrow> turn res" where
  "timeout_slot i s =
     (let c = connections s ! i in
      if con_timeout c = -1 then Inr (Done s)
      else let s1 = set_con i (c\<lparr>con_timeout := con_timeout c - 1\<rparr>) s in
        if con_timeout c - 1 = 0 then bind_res (close_slot i s1) (\<lambda>s2. Inr (Done s2)) else Inr (Done s1))"

record ssl_read =
  rd_result :: int
  rd_block :: "char list"
  rd_pending :: bool

definition DEFAULT_BUFFER_SIZE :: nat where
  "DEFAULT_BUFFER_SIZE = 4096"

text \<open>\<open>read_more\<close>: the result of \<open>SSL_read\<close> is stored as a \<open>size_t\<close> and then tested. A push
  into a full queue waits with the lock of the connection held. Without a further result \<open>SSL_read\<close> waits.\<close>

fun read_more :: "nat \<Rightarrow> ssl_read list \<Rightarrow> http_server_t \<Rightarrow> turn res" where
  "read_more i [] s = Inr (Waits s)"
| "read_more i (r # rs) s =
     (let c = connections s ! i;
          d = \<lparr>data_size = DEFAULT_BUFFER_SIZE, bytes_received = size_t (rd_result r), rcv_payload = rd_block r\<rparr>
      in if bytes_received d > 0 then
           and_then
             (if con_running c then
                (case con_requests c of
                   None \<Rightarrow> Inl NullDeref
                 | Some q \<Rightarrow> (case queue_push q (Some d) of
                     None \<Rightarrow> Inr (Waits (set_con i (c\<lparr>con_locked := True\<rparr>) s))
                   | Some q' \<Rightarrow> Inr (Done (set_con i (c\<lparr>con_requests := Some q'\<rparr>) s))))
              else Inr (Done ((set_con i (c\<lparr>con_running := True\<rparr>) s)\<lparr>sv_tasks :=
                     sv_tasks s @ [\<lparr>t_slot = i, t_ssl = con_ssl c, t_pc = Serving, t_data = d\<rparr>]\<rparr>)))
             (\<lambda>s1. if rd_pending r then read_more i rs s1
                else Inr (Done (set_con i ((connections s1 ! i)\<lparr>con_timeout := (10 * 1000) div sv_timeout s1\<rparr>) s1)))
         else if \<not> con_running c then bind_res (close_slot i s) (\<lambda>s1. Inr (Done s1)) else Inr (Done s))"

datatype poll_event = NoEvent | PollIn "ssl_read list" | PollErr

definition event_slot :: "(nat \<Rightarrow> poll_event) \<Rightarrow> nat \<Rightarrow> http_server_t \<Rightarrow> turn res" where
  "event_slot revents i s =
     (case revents i of
        NoEvent \<Rightarrow> Inr (Done s)
      | PollIn rs \<Rightarrow> read_more i rs s
      | PollErr \<Rightarrow> bind_res (close_slot i s) (\<lambda>s1. Inr (Done s1)))"

text \<open>The accepted descriptor, and its session if the handshake succeeds.\<close>

definition accept_one :: "int \<times> nat option \<Rightarrow> http_server_t \<Rightarrow> http_server_t" where
  "accept_one a s =
     (let i = Suc (first_index (\<lambda>fd. fd = -1) (tl (pfds s))) in
      if fst a = 0 \<or> \<not> i < maxConnections s then s
      else case snd a of
        None \<Rightarrow> s
      | Some ssl \<Rightarrow>
          (set_con i (http_open_connection (fst a) (sv_timeout s) ssl (connections s ! i)) s)
            \<lparr>pfds := (pfds s)[i := fst a], nfds := (if nfds s \<le> i then nfds s + 1 else nfds s)\<rparr>)"

datatype poll_result =
    PollFailed
  | PollQuiet
  | PollReady "nat \<Rightarrow> poll_event" "(int \<times> nat option) option"

definition worker_round :: "poll_result \<Rightarrow> http_server_t \<Rightarrow> turn res" where
  "worker_round p s =
     (case p of
        PollFailed \<Rightarrow> Inr (Done s)
      | PollQuiet \<Rightarrow> for_slots timeout_slot (nfds s) 1 s
      | PollReady revents acc \<Rightarrow>
          and_then (for_slots (event_slot revents) (nfds s) 1 s) (\<lambda>s1.
            Inr (Done (case acc of None \<Rightarrow> s1 | Some a \<Rightarrow> accept_one a s1))))"

subsection \<open>A task and its connection\<close>

text \<open>The end of \<open>http_process_request\<close> for the task \<open>k\<close>, which has served its request: under the lock
  it gives up the connection, or it goes on to take the next packet. \<open>None\<close>: it waits for the lock or a packet.\<close>

definition task_step :: "nat \<Rightarrow> http_server_t \<Rightarrow> http_server_t option res" where
  "task_step k s =
     (let t = sv_tasks s ! k; c = connections s ! t_slot t in
      case t_pc t of
        Serving \<Rightarrow>
          if con_locked c then Inr None
          else (case con_requests c of
             None \<Rightarrow> Inl NullDeref
           | Some q \<Rightarrow> if queue_empty q
               then Inr (Some ((set_con (t_slot t) (c\<lparr>con_running := False\<rparr>) s)
                      \<lparr>sv_tasks := take k (sv_tasks s) @ drop (Suc k) (sv_tasks s)\<rparr>))
               else Inr (Some (s\<lparr>sv_tasks := (sv_tasks s)[k := t\<lparr>t_pc := Popping\<rparr>]\<rparr>)))
      | Popping \<Rightarrow>
          (case con_requests c of
             None \<Rightarrow> Inl NullDeref
           | Some q \<Rightarrow> (case queue_pop q of
               Some (Some d, q') \<Rightarrow> Inr (Some ((set_con (t_slot t) (c\<lparr>con_requests := Some q'\<rparr>) s)
                    \<lparr>sv_tasks := (sv_tasks s)[k := t\<lparr>t_pc := Serving, t_data := d\<rparr>]\<rparr>))
             | _ \<Rightarrow> Inr None)))"

subsection \<open>Starting and stopping\<close>

definition http_server_init :: http_server_t where
  "http_server_init = \<lparr>sv_timeout = 100, sv_fd = -1, sv_active = False, maxConnections = 0, nfds = 0,
     pfds = [], connections = [], sv_tasks = []\<rparr>"

definition no_connection :: connection_t where
  "no_connection = \<lparr>con_fd = -1, con_ssl = None, con_timeout = -1, con_locked = False, con_running = False,
     con_requests = None\<rparr>"

text \<open>The descriptor of the socket, and whether the calls after it succeed.\<close>

definition http_server_start :: "int \<Rightarrow> bool \<Rightarrow> nat \<Rightarrow> http_server_t \<Rightarrow> http_server_t \<times> int" where
  "http_server_start fd bound max_connections s =
     (let n = (if max_connections = 0 then 1 else max_connections) in
      if fd < 0 \<or> \<not> bound then (s\<lparr>sv_fd := fd\<rparr>, -1)
      else (s\<lparr>sv_fd := fd, maxConnections := n, nfds := 1, pfds := fd # replicate (n - 1) (-1),
             connections := no_connection\<lparr>con_fd := fd\<rparr> # replicate (n - 1) no_connection, sv_active := True\<rparr>, 0))"

definition stop_slot :: "nat \<Rightarrow> http_server_t \<Rightarrow> turn res" where
  "stop_slot i s =
     (if con_ssl (connections s ! i) = None then Inr (Done s)
      else bind_res (http_close_connection (connections s ! i)) (\<lambda>c. Inr (Done (set_con i c s))))"

definition http_server_stop :: "http_server_t \<Rightarrow> turn res" where
  "http_server_stop s =
     and_then (for_slots stop_slot (nfds s) 1 (s\<lparr>sv_active := False\<rparr>)) (\<lambda>s1. Inr (Done (s1\<lparr>sv_fd := -1\<rparr>)))"


subsection \<open>The invariant of the table\<close>

text \<open>A slot is free, or it has a descriptor, a session, a running countdown and a queue.\<close>

definition slot_free :: "int \<Rightarrow> connection_t \<Rightarrow> bool" where
  "slot_free fd c \<longleftrightarrow> fd = -1 \<and> con_ssl c = None \<and> con_timeout c = -1 \<and> con_requests c = None"

definition slot_open :: "int \<Rightarrow> int \<Rightarrow> connection_t \<Rightarrow> bool" where
  "slot_open timeout fd c \<longleftrightarrow> 0 \<le> fd \<and> con_fd c = fd \<and> con_ssl c \<noteq> None \<and>
     0 < con_timeout c \<and> con_timeout c \<le> (10 * 1000) div timeout \<and>
     (\<exists>q. con_requests c = Some q \<and> queue_ok q \<and> qsize q = con_queue_size)"

definition slot_ok :: "int \<Rightarrow> int \<Rightarrow> connection_t \<Rightarrow> bool" where
  "slot_ok timeout fd c \<longleftrightarrow> slot_free fd c \<or> slot_open timeout fd c"

definition table_inv :: "http_server_t \<Rightarrow> bool" where
  "table_inv s \<longleftrightarrow> 0 < sv_timeout s \<and> sv_timeout s \<le> 10 * 1000 \<and> 1 \<le> nfds s \<and> nfds s \<le> maxConnections s \<and>
     length (pfds s) = maxConnections s \<and> length (connections s) = maxConnections s \<and>
     (\<forall>i. 1 \<le> i \<and> i < maxConnections s \<longrightarrow> slot_ok (sv_timeout s) (pfds s ! i) (connections s ! i)) \<and>
     (\<forall>i. nfds s \<le> i \<and> i < maxConnections s \<longrightarrow> slot_free (pfds s ! i) (connections s ! i))"

lemma set_con_simps [simp]:
  "sv_timeout (set_con i c s) = sv_timeout s" "nfds (set_con i c s) = nfds s" "pfds (set_con i c s) = pfds s"
  "maxConnections (set_con i c s) = maxConnections s" "connections (set_con i c s) = (connections s)[i := c]"
  "sv_tasks (set_con i c s) = sv_tasks s"
  by (simp_all add: set_con_def)

lemma table_inv_tasks [simp]: "table_inv (s\<lparr>sv_tasks := ts\<rparr>) = table_inv s"
  by (simp add: table_inv_def)

text \<open>An open slot stays open under an update of its connection that keeps what \<open>slot_open\<close> says.\<close>

lemma set_con_inv:
  assumes "table_inv s" "1 \<le> i" "i < nfds s" "slot_open (sv_timeout s) (pfds s ! i) c"
  shows "table_inv (set_con i c s)"
  using assms unfolding table_inv_def slot_ok_def by (auto simp: nth_list_update)

lemma open_below: "table_inv s \<Longrightarrow> 1 \<le> i \<Longrightarrow> i < maxConnections s \<Longrightarrow>
    slot_open (sv_timeout s) (pfds s ! i) (connections s ! i) \<Longrightarrow> i < nfds s"
  unfolding table_inv_def slot_free_def slot_open_def by (metis not_less option.distinct(1))

definition frame :: "nat \<Rightarrow> http_server_t \<Rightarrow> http_server_t \<Rightarrow> bool" where
  "frame i s s' \<longleftrightarrow> maxConnections s' = maxConnections s \<and> sv_timeout s' = sv_timeout s \<and> nfds s' \<le> nfds s \<and>
     (\<forall>j. j \<noteq> i \<longrightarrow> pfds s' ! j = pfds s ! j \<and> connections s' ! j = connections s ! j) \<and>
     (\<forall>t \<in> set (sv_tasks s'). t \<in> set (sv_tasks s) \<or> t_slot t = i)"

lemma frame_refl [simp]: "frame i s s"
  by (simp add: frame_def)

lemma frame_trans: "frame i s s1 \<Longrightarrow> frame i s1 s2 \<Longrightarrow> frame i s s2"
  by (auto simp: frame_def)

lemma frame_set_con [simp]: "frame i s (set_con i c s)"
  "t_slot x = i \<Longrightarrow> frame i s ((set_con i c s)\<lparr>sv_tasks := sv_tasks s @ [x]\<rparr>)"
  by (simp_all add: frame_def)

lemma close_slot_spec:
  assumes "table_inv s" "1 \<le> i" "i < nfds s" "con_requests (connections s ! i) \<noteq> None"
  shows "\<exists>s'. close_slot i s = Inr s' \<and> table_inv s' \<and> frame i s s' \<and> slot_free (pfds s' ! i) (connections s' ! i) \<and>
    sv_tasks s' = sv_tasks s"
proof -
  let ?c = "(connections s ! i)\<lparr>con_fd := -1, con_timeout := -1, con_ssl := None, con_requests := None\<rparr>"
  let ?s = "(set_con i ?c s)\<lparr>pfds := (pfds s)[i := -1], nfds := (if i = nfds s - 1 then nfds s - 1 else nfds s)\<rparr>"
  have run: "close_slot i s = Inr ?s" using assms(4) by (simp add: close_slot_def http_close_connection_def)
  have l: "i < length (pfds s)" "i < length (connections s)" using assms by (auto simp: table_inv_def)
  then have at: "pfds ?s ! j = (if j = i then -1 else pfds s ! j)"
    "connections ?s ! j = (if j = i then ?c else connections s ! j)" for j by (auto simp: nth_list_update)
  have free: "slot_free (-1) ?c" by (simp add: slot_free_def)
  have "slot_ok (sv_timeout s) (pfds ?s ! j) (connections ?s ! j)" if "1 \<le> j" "j < maxConnections s" for j
    using assms(1) that free unfolding at table_inv_def by (auto simp: slot_ok_def)
  moreover have "slot_free (pfds ?s ! j) (connections ?s ! j)" if "nfds ?s \<le> j" "j < maxConnections s" for j
  proof (cases "j = i")
    case False
    then have "nfds s \<le> j" using that(1) by (auto split: if_splits)
    with assms(1) that(2) False show ?thesis unfolding at table_inv_def by simp
  qed (use free at in simp)
  moreover have "1 \<le> nfds ?s" "nfds ?s \<le> maxConnections s" using assms by (auto simp: table_inv_def)
  ultimately have "table_inv ?s" using assms(1) l unfolding table_inv_def by simp
  moreover have "frame i s ?s" by (simp add: frame_def)
  moreover have "slot_free (pfds ?s ! i) (connections ?s ! i)" using free unfolding at by simp
  ultimately show ?thesis using run by (intro exI [of _ ?s]) simp
qed

lemma slot_cases:
  assumes "table_inv s" "1 \<le> i" "i < nfds s"
  shows "slot_free (pfds s ! i) (connections s ! i) \<or> slot_open (sv_timeout s) (pfds s ! i) (connections s ! i)"
  using assms unfolding table_inv_def slot_ok_def by auto

lemma timeout_slot_spec:
  assumes inv: "table_inv s" and i: "1 \<le> i" "i < nfds s"
  shows "\<exists>s'. timeout_slot i s = Inr (Done s') \<and> table_inv s' \<and> frame i s s' \<and> sv_tasks s' = sv_tasks s \<and>
    (if con_timeout (connections s ! i) = 1 then slot_free (pfds s' ! i) (connections s' ! i)
     else pfds s' ! i = pfds s ! i \<and> connections s' ! i = (if con_timeout (connections s ! i) = -1 then connections s ! i
       else (connections s ! i)\<lparr>con_timeout := con_timeout (connections s ! i) - 1\<rparr>))"
proof (cases "con_timeout (connections s ! i) = -1")
  case False
  let ?c = "connections s ! i"
  have l: "i < length (connections s)" using inv i by (auto simp: table_inv_def)
  have op: "slot_open (sv_timeout s) (pfds s ! i) ?c" using slot_cases [OF assms] False by (auto simp: slot_free_def)
  let ?s1 = "set_con i (?c\<lparr>con_timeout := con_timeout ?c - 1\<rparr>) s"
  show ?thesis
  proof (cases "con_timeout ?c = 1")
    case one: True
    have "table_inv (set_con i ?c s)" using set_con_inv [OF inv i op] .
    have "con_requests (connections ?s1 ! i) \<noteq> None" using op l by (auto simp: slot_open_def)
    from op have "con_requests ?c \<noteq> None" by (auto simp: slot_open_def)
    from close_slot_spec [OF inv i this] obtain s' where s': "close_slot i s = Inr s'" "table_inv s'" "frame i s s'"
      "slot_free (pfds s' ! i) (connections s' ! i)" "sv_tasks s' = sv_tasks s" by blast
    have "close_slot i ?s1 = close_slot i s"
      using l \<open>con_requests ?c \<noteq> None\<close> by (simp add: close_slot_def http_close_connection_def set_con_def)
    with s' one show ?thesis by (intro exI [of _ s']) (simp add: timeout_slot_def Let_def)
  next
    case more: False
    with op have "slot_open (sv_timeout s) (pfds s ! i) (?c\<lparr>con_timeout := con_timeout ?c - 1\<rparr>)" by (auto simp: slot_open_def)
    from set_con_inv [OF inv i this] more False l show ?thesis
      by (intro exI [of _ ?s1]) (simp add: timeout_slot_def Let_def)
  qed
qed (use inv in \<open>simp add: timeout_slot_def\<close>)


text \<open>What a quiet round does to a slot.\<close>

definition ticked :: "int \<Rightarrow> connection_t \<Rightarrow> int \<Rightarrow> connection_t \<Rightarrow> bool" where
  "ticked fd c fd' c' \<longleftrightarrow>
     (if con_timeout c = 1 then slot_free fd' c'
      else fd' = fd \<and> c' = (if con_timeout c = -1 then c else c\<lparr>con_timeout := con_timeout c - 1\<rparr>))"

lemma ticked_free: "slot_free fd c \<Longrightarrow> ticked fd c fd' c' \<longleftrightarrow> fd' = fd \<and> c' = c"
  by (simp add: ticked_def slot_free_def)

lemma timeout_round:
  assumes "table_inv s" "1 \<le> i" "nfds s \<le> i + k"
  shows "\<exists>s'. for_slots timeout_slot k i s = Inr (Done s') \<and> table_inv s' \<and> sv_tasks s' = sv_tasks s \<and>
    maxConnections s' = maxConnections s \<and> sv_timeout s' = sv_timeout s \<and>
    (\<forall>j < maxConnections s. if i \<le> j then ticked (pfds s ! j) (connections s ! j) (pfds s' ! j) (connections s' ! j)
       else pfds s' ! j = pfds s ! j \<and> connections s' ! j = connections s ! j)"
  using assms
proof (induction k arbitrary: i s)
  case 0
  then have "\<forall>j < maxConnections s. i \<le> j \<longrightarrow> slot_free (pfds s ! j) (connections s ! j)" by (simp add: table_inv_def)
  with 0 show ?case by (auto simp: ticked_free)
next
  case (Suc k)
  show ?case
  proof (cases "i < nfds s")
    case True
    from timeout_slot_spec [OF Suc.prems(1,2) True] obtain s1 where s1: "timeout_slot i s = Inr (Done s1)" "table_inv s1"
      "frame i s s1" "sv_tasks s1 = sv_tasks s"
      "ticked (pfds s ! i) (connections s ! i) (pfds s1 ! i) (connections s1 ! i)" unfolding ticked_def by blast
    have "nfds s1 \<le> Suc i + k" using Suc.prems(3) s1(3) by (auto simp: frame_def)
    with Suc.IH [OF s1(2), of "Suc i"] obtain s' where s': "for_slots timeout_slot k (Suc i) s1 = Inr (Done s')" "table_inv s'"
      "sv_tasks s' = sv_tasks s1" "maxConnections s' = maxConnections s1" "sv_timeout s' = sv_timeout s1"
      "\<forall>j < maxConnections s1. if Suc i \<le> j then ticked (pfds s1 ! j) (connections s1 ! j) (pfds s' ! j) (connections s' ! j)
         else pfds s' ! j = pfds s1 ! j \<and> connections s' ! j = connections s1 ! j" by auto
    have "if i \<le> j then ticked (pfds s ! j) (connections s ! j) (pfds s' ! j) (connections s' ! j)
        else pfds s' ! j = pfds s ! j \<and> connections s' ! j = connections s ! j" if "j < maxConnections s" for j
    proof (cases "j = i")
      case False
      then have "pfds s1 ! j = pfds s ! j" "connections s1 ! j = connections s ! j" "j < maxConnections s1"
        using s1(3) that by (simp_all add: frame_def)
      moreover have "Suc i \<le> j \<longleftrightarrow> i \<le> j" using False by auto
      ultimately show ?thesis using s'(6) by metis
    qed (use s'(6) s1(3,5) that in \<open>auto simp: frame_def\<close>)
    moreover have "for_slots timeout_slot (Suc k) i s = Inr (Done s')" using True s1(1) s'(1) by (simp add: and_then_def)
    ultimately show ?thesis using s' s1 by (intro exI [of _ s']) (simp add: frame_def)
  next
    case False
    then have "\<forall>j < maxConnections s. i \<le> j \<longrightarrow> slot_free (pfds s ! j) (connections s ! j)"
      using Suc.prems(1) by (simp add: table_inv_def)
    with False Suc.prems show ?thesis by (auto simp: ticked_free)
  qed
qed

text \<open>Reading from an open slot. The turn does not fault, and it does not wait unless a push does.\<close>

lemma push_ok:
  assumes "queue_ok q" "queue_push q (Some d) = Some q'"
  shows "queue_ok q' \<and> qsize q' = qsize q"
proof -
  have inv: "ring_inv q" "alive q" using assms(1) by (simp_all add: queue_ok_def)
  with assms(2) have "q' = push_put q (Some d)" "\<not> push_blocked q" by (auto simp: queue_push_def split: if_splits)
  moreover have "length (contents q) < qsize q"
    using push_blocked_iff [OF inv(1)] contents_le_qsize [OF inv(1)] \<open>\<not> push_blocked q\<close> by simp
  ultimately show ?thesis using push_put_spec [OF inv(1)] inv by (simp add: queue_ok_def)
qed

text \<open>A packet that was read, handed to the task or to its queue.\<close>

definition hand_over :: "nat \<Rightarrow> rcv_data_t \<Rightarrow> http_server_t \<Rightarrow> turn res" where
  "hand_over i d s =
     (let c = connections s ! i in
      if con_running c then
        (case con_requests c of
           None \<Rightarrow> Inl NullDeref
         | Some q \<Rightarrow> (case queue_push q (Some d) of
             None \<Rightarrow> Inr (Waits (set_con i (c\<lparr>con_locked := True\<rparr>) s))
           | Some q' \<Rightarrow> Inr (Done (set_con i (c\<lparr>con_requests := Some q'\<rparr>) s))))
      else Inr (Done ((set_con i (c\<lparr>con_running := True\<rparr>) s)\<lparr>sv_tasks :=
             sv_tasks s @ [\<lparr>t_slot = i, t_ssl = con_ssl c, t_pc = Serving, t_data = d\<rparr>]\<rparr>)))"

definition packet_of :: "ssl_read \<Rightarrow> rcv_data_t" where
  "packet_of r = \<lparr>data_size = DEFAULT_BUFFER_SIZE, bytes_received = size_t (rd_result r), rcv_payload = rd_block r\<rparr>"

lemma read_more_packet:
  "0 < bytes_received (packet_of r) \<Longrightarrow> read_more i (r # rs) s = and_then (hand_over i (packet_of r) s) (\<lambda>s1.
     if rd_pending r then read_more i rs s1
     else Inr (Done (set_con i ((connections s1 ! i)\<lparr>con_timeout := (10 * 1000) div sv_timeout s1\<rparr>) s1)))"
  by (simp add: hand_over_def packet_of_def Let_def)

lemma hand_over_spec:
  assumes "table_inv s" "1 \<le> i" "i < nfds s" "slot_open (sv_timeout s) (pfds s ! i) (connections s ! i)"
  shows "\<exists>t. hand_over i d s = Inr t \<and> table_inv (turn_state t) \<and> frame i s (turn_state t) \<and> nfds (turn_state t) = nfds s \<and>
    slot_open (sv_timeout (turn_state t)) (pfds (turn_state t) ! i) (connections (turn_state t) ! i)"
proof -
  let ?c = "connections s ! i"
  have l: "i < length (connections s)" using assms by (auto simp: table_inv_def)
  from assms(4) obtain q where q: "con_requests ?c = Some q" "queue_ok q" "qsize q = con_queue_size"
    by (auto simp: slot_open_def)
  have keep: "table_inv (set_con i c s) \<and> slot_open (sv_timeout s) (pfds s ! i) (connections (set_con i c s) ! i)"
    if "slot_open (sv_timeout s) (pfds s ! i) c" for c
    using set_con_inv [OF assms(1-3) that] that l by simp
  show ?thesis
  proof (cases "con_running ?c")
    case True
    show ?thesis
    proof (cases "queue_push q (Some d)")
      case None
      have "slot_open (sv_timeout s) (pfds s ! i) (?c\<lparr>con_locked := True\<rparr>)" using assms(4) by (simp add: slot_open_def)
      from keep [OF this] True None q(1) show ?thesis by (simp add: hand_over_def Let_def)
    next
      case (Some q')
      have "slot_open (sv_timeout s) (pfds s ! i) (?c\<lparr>con_requests := Some q'\<rparr>)"
        using assms(4) push_ok [OF q(2) Some] q(3) by (simp add: slot_open_def)
      from keep [OF this] True Some q(1) show ?thesis by (simp add: hand_over_def Let_def)
    qed
  next
    case False
    have "slot_open (sv_timeout s) (pfds s ! i) (?c\<lparr>con_running := True\<rparr>)" using assms(4) by (simp add: slot_open_def)
    from keep [OF this] False show ?thesis by (simp add: hand_over_def Let_def)
  qed
qed

lemma timeout_reset:
  assumes "table_inv s" "1 \<le> i" "i < nfds s" "slot_open (sv_timeout s) (pfds s ! i) (connections s ! i)"
  shows "table_inv (set_con i ((connections s ! i)\<lparr>con_timeout := (10 * 1000) div sv_timeout s\<rparr>) s)"
proof -
  have "0 < sv_timeout s" "sv_timeout s \<le> 10 * 1000" using assms(1) by (simp_all add: table_inv_def)
  then have "0 < (10 * 1000) div sv_timeout s" by (simp add: pos_imp_zdiv_pos_iff)
  with assms(4) have "slot_open (sv_timeout s) (pfds s ! i) ((connections s ! i)\<lparr>con_timeout := (10 * 1000) div sv_timeout s\<rparr>)"
    by (simp add: slot_open_def)
  from set_con_inv [OF assms(1-3) this] show ?thesis .
qed

lemma read_more_spec:
  assumes "table_inv s" "1 \<le> i" "i < nfds s" "slot_open (sv_timeout s) (pfds s ! i) (connections s ! i)"
  shows "\<exists>t. read_more i rs s = Inr t \<and> table_inv (turn_state t) \<and> frame i s (turn_state t)"
  using assms
proof (induction rs arbitrary: s)
  case Nil
  then show ?case by simp
next
  case (Cons r rs)
  show ?case
  proof (cases "0 < bytes_received (packet_of r)")
    case True
    from hand_over_spec [OF Cons.prems] obtain t1 where t1: "hand_over i (packet_of r) s = Inr t1" "table_inv (turn_state t1)"
      "frame i s (turn_state t1)" "nfds (turn_state t1) = nfds s"
      "slot_open (sv_timeout (turn_state t1)) (pfds (turn_state t1) ! i) (connections (turn_state t1) ! i)" by blast
    note run = read_more_packet [OF True, of i rs s]
    show ?thesis
    proof (cases t1)
      case (Waits s1)
      with run t1 show ?thesis by (simp add: and_then_def)
    next
      case (Done s1)
      then have s1: "table_inv s1" "frame i s s1" "i < nfds s1" "slot_open (sv_timeout s1) (pfds s1 ! i) (connections s1 ! i)"
        using t1 Cons.prems(3) by simp_all
      from Cons.IH [OF s1(1) Cons.prems(2) s1(3,4)] frame_trans [OF s1(2)] timeout_reset [OF s1(1) Cons.prems(2) s1(3,4)]
        frame_trans [OF s1(2) frame_set_con(1)] show ?thesis
        using run t1(1) Done by (auto simp: and_then_def)
    qed
  next
    case False
    have "con_requests (connections s ! i) \<noteq> None" using Cons.prems(4) by (auto simp: slot_open_def)
    from close_slot_spec [OF Cons.prems(1-3) this] False Cons.prems(1) show ?thesis by (auto simp: packet_of_def)
  qed
qed

lemma event_slot_spec:
  assumes "table_inv s" "1 \<le> i" "i < nfds s" "pfds s ! i = -1 \<longrightarrow> revents i = NoEvent"
  shows "\<exists>t. event_slot revents i s = Inr t \<and> table_inv (turn_state t) \<and> frame i s (turn_state t)"
proof (cases "revents i = NoEvent")
  case False
  with slot_cases [OF assms(1-3)] assms(4) have op: "slot_open (sv_timeout s) (pfds s ! i) (connections s ! i)"
    by (auto simp: slot_free_def)
  then have "con_requests (connections s ! i) \<noteq> None" by (auto simp: slot_open_def)
  from close_slot_spec [OF assms(1-3) this] read_more_spec [OF assms(1-3) op] False show ?thesis
    by (cases "revents i") (auto simp: event_slot_def)
qed (use assms in \<open>simp add: event_slot_def\<close>)

lemma event_round:
  assumes "table_inv s" "1 \<le> i" "\<forall>j \<ge> i. j < nfds s \<and> pfds s ! j = -1 \<longrightarrow> revents j = NoEvent"
  shows "\<exists>t. for_slots (event_slot revents) k i s = Inr t \<and> table_inv (turn_state t) \<and>
    maxConnections (turn_state t) = maxConnections s \<and>
    (\<forall>x \<in> set (sv_tasks (turn_state t)). x \<in> set (sv_tasks s) \<or> 1 \<le> t_slot x \<and> t_slot x < maxConnections s)"
  using assms
proof (induction k arbitrary: i s)
  case (Suc k)
  show ?case
  proof (cases "i < nfds s")
    case True
    with event_slot_spec [OF Suc.prems(1,2) True, of revents] Suc.prems(3) obtain t where t: "event_slot revents i s = Inr t"
      "table_inv (turn_state t)" "frame i s (turn_state t)" by auto
    have i: "i < maxConnections s" using Suc.prems(1) True by (simp add: table_inv_def)
    show ?thesis
    proof (cases t)
      case (Done s1)
      have "\<forall>j \<ge> Suc i. j < nfds s1 \<and> pfds s1 ! j = -1 \<longrightarrow> revents j = NoEvent"
        using Suc.prems(3) t(3) Done by (auto simp: frame_def)
      with Suc.IH [of s1 "Suc i"] t(2) Done obtain u where u: "for_slots (event_slot revents) k (Suc i) s1 = Inr u"
        "table_inv (turn_state u)" "maxConnections (turn_state u) = maxConnections s1"
        "\<forall>x \<in> set (sv_tasks (turn_state u)). x \<in> set (sv_tasks s1) \<or> 1 \<le> t_slot x \<and> t_slot x < maxConnections s1" by auto
      have "for_slots (event_slot revents) (Suc k) i s = Inr u" using True t(1) Done u(1) by (simp add: and_then_def)
      moreover have "\<forall>x \<in> set (sv_tasks s1). x \<in> set (sv_tasks s) \<or> t_slot x = i" "maxConnections s1 = maxConnections s"
        using t(3) Done by (simp_all add: frame_def)
      ultimately show ?thesis using u(2-4) i Suc.prems(2) by (intro exI [of _ u]) fastforce
    qed (use t True i Suc.prems(2) in \<open>auto simp: and_then_def frame_def\<close>)
  qed (use Suc.prems in simp)
qed simp


lemma accept_inv:
  assumes "table_inv s" "snd a \<noteq> None \<longrightarrow> 0 \<le> fst a"
  shows "table_inv (accept_one a s) \<and> sv_tasks (accept_one a s) = sv_tasks s \<and>
    maxConnections (accept_one a s) = maxConnections s"
proof -
  let ?k = "first_index (\<lambda>fd. fd = -1) (tl (pfds s))"
  let ?i = "Suc ?k"
  show ?thesis
  proof (cases "fst a = 0 \<or> \<not> ?i < maxConnections s \<or> snd a = None")
    case False
    then obtain ssl where ssl: "snd a = Some ssl" by blast
    let ?c = "http_open_connection (fst a) (sv_timeout s) ssl (connections s ! ?i)"
    let ?s = "(set_con ?i ?c s)\<lparr>pfds := (pfds s)[?i := fst a], nfds := (if nfds s \<le> ?i then nfds s + 1 else nfds s)\<rparr>"
    have run: "accept_one a s = ?s" using False ssl by (auto simp: accept_one_def Let_def)
    have l: "length (pfds s) = maxConnections s" "length (connections s) = maxConnections s" "?i < maxConnections s"
      using assms(1) False by (auto simp: table_inv_def)
    have below: "?i \<le> nfds s"
    proof (rule ccontr)
      assume "\<not> ?i \<le> nfds s"
      then have n: "nfds s - 1 < ?k" "nfds s < maxConnections s" "1 \<le> nfds s" using l(3) assms(1) by (auto simp: table_inv_def)
      have "nfds s - 1 < length (takeWhile (\<lambda>fd. fd \<noteq> -1) (tl (pfds s)))" using n(1) by (simp add: first_index_def)
      from nth_mem [OF this] have "tl (pfds s) ! (nfds s - 1) \<noteq> -1"
        using \<open>nfds s - 1 < length _\<close> by (metis (mono_tags, lifting) set_takeWhileD takeWhile_nth)
      moreover have "tl (pfds s) ! (nfds s - 1) = pfds s ! nfds s" using n l(1) by (subst nth_tl) auto
      moreover have "pfds s ! nfds s = -1" using assms(1) n(2) unfolding table_inv_def slot_free_def by blast
      ultimately show False by simp
    qed
    have "0 < (10 * 1000) div sv_timeout s" using assms(1) by (simp add: table_inv_def pos_imp_zdiv_pos_iff)
    then have op: "slot_open (sv_timeout s) (fst a) ?c"
      using assms(2) ssl by (simp add: slot_open_def http_open_connection_def con_queue_size_def)
    have "table_inv ?s" using assms(1) l below op unfolding table_inv_def
      by (auto simp: nth_list_update slot_ok_def)
    with run show ?thesis by simp
  qed (use assms in \<open>auto simp: accept_one_def Let_def split: option.splits\<close>)
qed

subsection \<open>Reachable servers\<close>

text \<open>\<open>poll\<close> reports nothing for a negative descriptor, and a handshake needs a valid one.\<close>

definition env_ok :: "poll_result \<Rightarrow> http_server_t \<Rightarrow> bool" where
  "env_ok p s \<longleftrightarrow> (case p of
      PollReady revents acc \<Rightarrow>
        (\<forall>i < nfds s. 1 \<le> i \<and> pfds s ! i = -1 \<longrightarrow> revents i = NoEvent) \<and>
        (case acc of None \<Rightarrow> True | Some a \<Rightarrow> snd a \<noteq> None \<longrightarrow> 0 \<le> fst a)
    | _ \<Rightarrow> True)"

inductive server_reachable :: "http_server_t \<Rightarrow> bool" where
  start: "http_server_start fd True n http_server_init = (s, 0) \<Longrightarrow> server_reachable s"
| round: "server_reachable s \<Longrightarrow> env_ok p s \<Longrightarrow> worker_round p s = Inr (Done s') \<Longrightarrow> server_reachable s'"
| task: "server_reachable s \<Longrightarrow> k < length (sv_tasks s) \<Longrightarrow> task_step k s = Inr (Some s') \<Longrightarrow> server_reachable s'"

definition server_inv :: "http_server_t \<Rightarrow> bool" where
  "server_inv s \<longleftrightarrow> table_inv s \<and> (\<forall>t \<in> set (sv_tasks s). 1 \<le> t_slot t \<and> t_slot t < maxConnections s)"

lemma server_start_inv:
  assumes "http_server_start fd True n http_server_init = (s, 0)"
  shows "server_inv s"
proof -
  have s: "0 \<le> fd" "s = http_server_init\<lparr>sv_fd := fd, maxConnections := max 1 n, nfds := 1, pfds := fd # replicate (max 1 n - 1) (-1),
      connections := no_connection\<lparr>con_fd := fd\<rparr> # replicate (max 1 n - 1) no_connection, sv_active := True\<rparr>"
    using assms by (auto simp: http_server_start_def Let_def split: if_splits)
  show ?thesis unfolding s(2)
    by (auto simp: server_inv_def table_inv_def http_server_init_def slot_ok_def slot_free_def no_connection_def nth_Cons
        split: nat.splits)
qed

lemma round_inv:
  assumes "server_inv s" "env_ok p s"
  shows "\<exists>t. worker_round p s = Inr t \<and> server_inv (turn_state t)"
proof (cases p)
  case PollFailed
  with assms show ?thesis by (simp add: worker_round_def)
next
  case PollQuiet
  have "table_inv s" using assms(1) by (simp add: server_inv_def)
  from timeout_round [OF this, of 1 "nfds s"] assms(1) PollQuiet show ?thesis
    by (auto simp: worker_round_def server_inv_def)
next
  case (PollReady revents acc)
  have "table_inv s" "\<forall>j \<ge> 1. j < nfds s \<and> pfds s ! j = -1 \<longrightarrow> revents j = NoEvent"
    using assms PollReady by (auto simp: server_inv_def env_ok_def)
  from event_round [OF this(1) _ this(2), of "nfds s"] obtain t where t:
    "for_slots (event_slot revents) (nfds s) 1 s = Inr t" "table_inv (turn_state t)"
    "maxConnections (turn_state t) = maxConnections s"
    "\<forall>x \<in> set (sv_tasks (turn_state t)). x \<in> set (sv_tasks s) \<or> 1 \<le> t_slot x \<and> t_slot x < maxConnections s" by auto
  have inv: "server_inv (turn_state t)" using t assms(1) by (auto simp: server_inv_def)
  show ?thesis
  proof (cases t)
    case (Done s1)
    show ?thesis
    proof (cases acc)
      case (Some a)
      have "snd a \<noteq> None \<longrightarrow> 0 \<le> fst a" using assms(2) PollReady Some by (simp add: env_ok_def)
      with accept_inv [of s1 a] inv Done Some t(1) PollReady show ?thesis
        by (simp add: worker_round_def and_then_def server_inv_def)
    qed (use inv Done t(1) PollReady in \<open>simp add: worker_round_def and_then_def\<close>)
  qed (use inv t(1) PollReady in \<open>simp add: worker_round_def and_then_def\<close>)
qed

lemma pop_ok:
  assumes "queue_ok q" "queue_pop q = Some (Some d, q')"
  shows "queue_ok q' \<and> qsize q' = qsize q"
proof -
  have inv: "ring_inv q" "alive q" using assms(1) by (simp_all add: queue_ok_def)
  with assms(2) have q: "pop_take q = (Some d, q')" "\<not> pop_blocked q" by (auto simp: queue_pop_def split: if_splits)
  then obtain x xs where "contents q = x # xs" using pop_blocked_iff [OF inv(1)] by (cases "contents q") auto
  from pop_take_spec(2) [OF inv(1) this] put_take_frame(4,5) [of q] q(1) inv(2) show ?thesis by (simp add: queue_ok_def)
qed

lemma task_inv:
  assumes inv: "server_inv s" and k: "k < length (sv_tasks s)" and run: "task_step k s = Inr (Some s')"
  shows "server_inv s'"
proof -
  let ?t = "sv_tasks s ! k"
  let ?i = "t_slot ?t"
  let ?c = "connections s ! ?i"
  have i: "1 \<le> ?i" "?i < maxConnections s" and tb: "table_inv s" using inv k by (auto simp: server_inv_def)
  from run obtain q where q: "con_requests ?c = Some q"
    by (cases "con_requests ?c") (auto simp: task_step_def Let_def split: task_pc.splits if_splits)
  then have op: "slot_open (sv_timeout s) (pfds s ! ?i) ?c"
    using tb i unfolding table_inv_def slot_ok_def by (auto simp: slot_free_def)
  have below: "?i < nfds s" by (rule open_below [OF tb i op])
  have keep: "table_inv (set_con ?i c s)" if "slot_open (sv_timeout s) (pfds s ! ?i) c" for c
    by (rule set_con_inv [OF tb i(1) below that])
  have off: "table_inv (set_con ?i (?c\<lparr>con_running := False\<rparr>) s)" using op by (intro keep) (simp add: slot_open_def)
  have pop: "table_inv (set_con ?i (?c\<lparr>con_requests := Some q'\<rparr>) s)" if "queue_pop q = Some (Some d, q')" for d q'
    using op pop_ok [OF _ that] q by (intro keep) (auto simp: slot_open_def)
  have sub: "x \<in> set (sv_tasks s)" if "x \<in> set (take k (sv_tasks s) @ drop (Suc k) (sv_tasks s))" for x
    using that by (auto dest: in_set_takeD in_set_dropD)
  have upd: "x \<in> set (sv_tasks s) \<or> t_slot x = ?i" if "x \<in> set ((sv_tasks s)[k := y])" "t_slot y = ?i" for x y
    using that set_update_subset_insert by fastforce
  show ?thesis
  proof (cases "t_pc ?t")
    case Serving
    with run q have s': "s' = (if queue_empty q
        then (set_con ?i (?c\<lparr>con_running := False\<rparr>) s)\<lparr>sv_tasks := take k (sv_tasks s) @ drop (Suc k) (sv_tasks s)\<rparr>
        else s\<lparr>sv_tasks := (sv_tasks s)[k := ?t\<lparr>t_pc := Popping\<rparr>]\<rparr>)"
      by (auto simp: task_step_def Let_def split: if_splits)
    have "\<forall>x \<in> set (sv_tasks s'). x \<in> set (sv_tasks s) \<or> t_slot x = ?i" using sub upd unfolding s' by simp
    with inv i off show ?thesis unfolding s' server_inv_def by auto
  next
    case Popping
    with run q obtain d q' where d: "queue_pop q = Some (Some d, q')"
      "s' = (set_con ?i (?c\<lparr>con_requests := Some q'\<rparr>) s)\<lparr>sv_tasks := (sv_tasks s)[k := ?t\<lparr>t_pc := Serving, t_data := d\<rparr>]\<rparr>"
      by (auto simp: task_step_def Let_def split: option.splits prod.splits)
    have "\<forall>x \<in> set (sv_tasks s'). x \<in> set (sv_tasks s) \<or> t_slot x = ?i" using upd unfolding d(2) by simp
    with pop [OF d(1)] inv i show ?thesis unfolding d(2) server_inv_def by auto
  qed
qed

lemma server_reachable_inv: "server_reachable s \<Longrightarrow> server_inv s"
proof (induction rule: server_reachable.induct)
  case (start fd n s)
  then show ?case by (rule server_start_inv)
next
  case (round s p s')
  with round_inv [of s p] show ?case by auto
next
  case (task s k s')
  then show ?case by (blast intro: task_inv)
qed


lemma stop_round:
  assumes "\<forall>j. i \<le> j \<and> j < nfds s \<longrightarrow> con_ssl (connections s ! j) = None \<or> con_requests (connections s ! j) \<noteq> None"
    "nfds s \<le> length (connections s)" "nfds s \<le> i + k"
  shows "\<exists>s'. for_slots stop_slot k i s = Inr (Done s') \<and> sv_active s' = sv_active s \<and>
    (\<forall>j. if i \<le> j \<and> j < nfds s then con_ssl (connections s' ! j) = None
       else connections s' ! j = connections s ! j)"
  using assms
proof (induction k arbitrary: i s)
  case (Suc k)
  show ?case
  proof (cases "i < nfds s")
    case True
    have "\<exists>s1. stop_slot i s = Inr (Done s1) \<and> con_ssl (connections s1 ! i) = None \<and> nfds s1 = nfds s \<and>
        length (connections s1) = length (connections s) \<and> sv_active s1 = sv_active s \<and>
        (\<forall>j. j \<noteq> i \<longrightarrow> connections s1 ! j = connections s ! j)"
      using Suc.prems(1,2) True by (auto simp: stop_slot_def http_close_connection_def set_con_def)
    then obtain s1 where s1: "stop_slot i s = Inr (Done s1)" "con_ssl (connections s1 ! i) = None" "nfds s1 = nfds s"
      "length (connections s1) = length (connections s)" "sv_active s1 = sv_active s"
      "\<forall>j. j \<noteq> i \<longrightarrow> connections s1 ! j = connections s ! j" by blast
    have "\<forall>j. Suc i \<le> j \<and> j < nfds s1 \<longrightarrow> con_ssl (connections s1 ! j) = None \<or> con_requests (connections s1 ! j) \<noteq> None"
      using Suc.prems(1) s1(3,6) by simp
    with Suc.IH [of "Suc i" s1] Suc.prems(2,3) s1(3,4) obtain s' where s': "for_slots stop_slot k (Suc i) s1 = Inr (Done s')"
      "sv_active s' = sv_active s1" "\<forall>j. if Suc i \<le> j \<and> j < nfds s1 then con_ssl (connections s' ! j) = None
       else connections s' ! j = connections s1 ! j" by auto
    have "if i \<le> j \<and> j < nfds s then con_ssl (connections s' ! j) = None
       else connections s' ! j = connections s ! j" for j
      using s'(3) s1(2,3,6) True by (cases "j = i") (auto simp: le_Suc_eq Suc_le_eq dest: spec [of _ j])
    with s' s1 True show ?thesis by (auto simp: and_then_def)
  qed (use Suc.prems in auto)
qed auto

text \<open>Rounds in which nothing happens.\<close>

fun quiet_rounds :: "nat \<Rightarrow> http_server_t \<Rightarrow> turn res" where
  "quiet_rounds 0 s = Inr (Done s)"
| "quiet_rounds (Suc n) s = and_then (worker_round PollQuiet s) (quiet_rounds n)"

lemma quiet_round:
  assumes "table_inv s"
  shows "\<exists>s'. worker_round PollQuiet s = Inr (Done s') \<and> table_inv s' \<and> maxConnections s' = maxConnections s \<and>
    (\<forall>j. 1 \<le> j \<and> j < maxConnections s \<longrightarrow> ticked (pfds s ! j) (connections s ! j) (pfds s' ! j) (connections s' ! j))"
  using timeout_round [OF assms, of 1 "nfds s"] by (auto simp: worker_round_def)

lemma quiet_rounds_free:
  "table_inv s \<Longrightarrow> 1 \<le> i \<Longrightarrow> i < maxConnections s \<Longrightarrow> slot_free (pfds s ! i) (connections s ! i) \<Longrightarrow>
    \<exists>s'. quiet_rounds n s = Inr (Done s') \<and> slot_free (pfds s' ! i) (connections s' ! i)"
proof (induction n arbitrary: s)
  case (Suc n)
  from quiet_round [OF Suc.prems(1)] obtain s1 where s1: "worker_round PollQuiet s = Inr (Done s1)" "table_inv s1"
    "maxConnections s1 = maxConnections s" "ticked (pfds s ! i) (connections s ! i) (pfds s1 ! i) (connections s1 ! i)"
    using Suc.prems(2,3) by blast
  then have "slot_free (pfds s1 ! i) (connections s1 ! i)" using Suc.prems(4) by (simp add: ticked_free)
  with Suc.IH [OF s1(2)] Suc.prems s1 show ?case by (simp add: and_then_def)
qed simp

lemma quiet_rounds_open:
  "table_inv s \<Longrightarrow> 1 \<le> i \<Longrightarrow> i < maxConnections s \<Longrightarrow> 0 < con_timeout (connections s ! i) \<Longrightarrow>
    \<exists>s'. quiet_rounds n s = Inr (Done s') \<and>
      (if int n < con_timeout (connections s ! i)
       then pfds s' ! i = pfds s ! i \<and>
         connections s' ! i = (connections s ! i)\<lparr>con_timeout := con_timeout (connections s ! i) - int n\<rparr>
       else slot_free (pfds s' ! i) (connections s' ! i))"
proof (induction n arbitrary: s)
  case (Suc n)
  let ?c = "connections s ! i"
  from quiet_round [OF Suc.prems(1)] obtain s1 where s1: "worker_round PollQuiet s = Inr (Done s1)" "table_inv s1"
    "maxConnections s1 = maxConnections s" "ticked (pfds s ! i) ?c (pfds s1 ! i) (connections s1 ! i)"
    using Suc.prems(2,3) by blast
  show ?case
  proof (cases "con_timeout ?c = 1")
    case True
    with s1(4) have "slot_free (pfds s1 ! i) (connections s1 ! i)" by (simp add: ticked_def)
    from quiet_rounds_free [OF s1(2) Suc.prems(2) _ this, of n] True Suc.prems(3) s1(1,3) show ?thesis
      by (auto simp: and_then_def)
  next
    case False
    with s1(4) Suc.prems(4) have at: "pfds s1 ! i = pfds s ! i" "connections s1 ! i = ?c\<lparr>con_timeout := con_timeout ?c - 1\<rparr>"
      by (auto simp: ticked_def)
    with Suc.IH [OF s1(2) Suc.prems(2)] Suc.prems(3,4) False s1(1,3) show ?thesis
      by (auto simp: and_then_def algebra_simps)
  qed
qed simp


subsection \<open>A server with one client slot\<close>

text \<open>States for the witnesses: the slot 1 opens for a first client, its request starts a task, the client hangs up,
  and the slot opens for a second client.\<close>

definition demo :: "nat \<Rightarrow> int \<Rightarrow> connection_t \<Rightarrow> http_task list \<Rightarrow> http_server_t" where
  "demo n fd c ts = \<lparr>sv_timeout = 100, sv_fd = 3, sv_active = True, maxConnections = 2, nfds = n,
     pfds = [3, fd], connections = [no_connection\<lparr>con_fd := 3\<rparr>, c], sv_tasks = ts\<rparr>"

definition demo_con :: "int \<Rightarrow> nat \<Rightarrow> bool \<Rightarrow> connection_t" where
  "demo_con fd ssl busy = \<lparr>con_fd = fd, con_ssl = Some ssl, con_timeout = 100, con_locked = False, con_running = busy,
     con_requests = Some (queue_create con_queue_size)\<rparr>"

definition demo_read :: "int \<Rightarrow> ssl_read" where
  "demo_read n = \<lparr>rd_result = n, rd_block = replicate DEFAULT_BUFFER_SIZE nul, rd_pending = False\<rparr>"

definition demo_task :: "http_task" where
  "demo_task = \<lparr>t_slot = 1, t_ssl = Some 7, t_pc = Serving, t_data =
     \<lparr>data_size = DEFAULT_BUFFER_SIZE, bytes_received = 4, rcv_payload = replicate DEFAULT_BUFFER_SIZE nul\<rparr>\<rparr>"

definition gone_con :: connection_t where
  "gone_con = (demo_con 5 7 True)\<lparr>con_fd := -1, con_timeout := -1, con_ssl := None, con_requests := None\<rparr>"

lemma demo_start: "server_reachable (demo 1 (-1) no_connection [])"
  by (rule server_reachable.start [of 3 2])
    (simp add: http_server_start_def http_server_init_def demo_def no_connection_def numeral_2_eq_2)

lemma demo_open:
  assumes "server_reachable (demo 1 (-1) c ts)" "con_locked c = False"
  shows "0 < fd \<Longrightarrow> server_reachable (demo 2 fd (demo_con fd ssl False) ts)"
  by (rule server_reachable.round [OF assms(1), of "PollReady (\<lambda>_. NoEvent) (Some (fd, Some ssl))"])
    (use assms(2) in \<open>simp_all add: demo_def env_ok_def worker_round_def and_then_def accept_one_def first_index_def
      http_open_connection_def set_con_def demo_con_def numeral_2_eq_2\<close>)

lemma demo_busy: "server_reachable (demo 2 5 (demo_con 5 7 True) [demo_task])"
proof -
  have r: "server_reachable (demo 2 5 (demo_con 5 7 False) [])" using demo_open [OF demo_start] by (simp add: no_connection_def)
  show ?thesis
    by (rule server_reachable.round [OF r, of "PollReady (\<lambda>_. PollIn [demo_read 4]) None"])
      (simp_all add: demo_def env_ok_def worker_round_def and_then_def event_slot_def demo_read_def demo_con_def set_con_def
        demo_task_def size_t_def numeral_2_eq_2)
qed

lemma demo_gone: "server_reachable (demo 1 (-1) gone_con [demo_task])"
  by (rule server_reachable.round [OF demo_busy, of "PollReady (\<lambda>_. PollErr) None"])
    (simp_all add: demo_def env_ok_def worker_round_def and_then_def event_slot_def close_slot_def http_close_connection_def
      set_con_def demo_con_def gone_con_def numeral_2_eq_2)

lemma demo_taken: "server_reachable (demo 2 6 (demo_con 6 8 False) [demo_task])"
  using demo_open [OF demo_gone, of 6 8] by (simp add: gone_con_def demo_con_def)

lemma demo_fill:
  "n \<le> 10 \<Longrightarrow> \<exists>q. server_reachable (demo 2 5 ((demo_con 5 7 True)\<lparr>con_requests := Some q\<rparr>) [demo_task]) \<and>
     queue_ok q \<and> qsize q = 10 \<and> length (contents q) = n"
proof (induction n)
  case 0
  have "demo 2 5 ((demo_con 5 7 True)\<lparr>con_requests := Some (queue_create 10)\<rparr>) [demo_task] =
      demo 2 5 (demo_con 5 7 True) [demo_task]" by (simp add: demo_con_def con_queue_size_def)
  with demo_busy show ?case by (intro exI [of _ "queue_create 10"]) simp
next
  case (Suc n)
  then obtain q where q: "server_reachable (demo 2 5 ((demo_con 5 7 True)\<lparr>con_requests := Some q\<rparr>) [demo_task])"
    "queue_ok q" "qsize q = 10" "length (contents q) = n" by auto
  let ?d = "t_data demo_task"
  have inv: "ring_inv q" "alive q" using q(2) by (simp_all add: queue_ok_def)
  have "length (contents q) < qsize q" using q(3,4) Suc.prems by simp
  note put = push_put_spec [OF inv(1) this, of ?d]
  have push: "queue_push q (Some ?d) = Some (push_put q (Some ?d))"
    using push_blocked_iff [OF inv(1)] inv(2) q(3,4) Suc.prems by (simp add: queue_push_def)
  have "server_reachable (demo 2 5 ((demo_con 5 7 True)\<lparr>con_requests := Some (push_put q (Some ?d))\<rparr>) [demo_task])"
    by (rule server_reachable.round [OF q(1), of "PollReady (\<lambda>_. PollIn [demo_read 4]) None"])
      (use push in \<open>simp_all add: demo_def env_ok_def worker_round_def and_then_def event_slot_def demo_read_def demo_con_def
        set_con_def demo_task_def size_t_def Let_def numeral_2_eq_2\<close>)
  moreover have "queue_ok (push_put q (Some ?d))" "qsize (push_put q (Some ?d)) = 10"
    "length (contents (push_put q (Some ?d))) = Suc n" using put inv q(3,4) by (simp_all add: queue_ok_def)
  ultimately show ?case by blast
qed

subsection \<open>Properties\<close>

text \<open>Stopping closes every connection.\<close>

lemma server_stops:
  assumes "server_reachable s"
  shows "\<exists>s'. http_server_stop s = Inr (Done s') \<and> \<not> sv_active s' \<and>
    (\<forall>i. 1 \<le> i \<and> i < maxConnections s \<longrightarrow> con_ssl (connections s' ! i) = None)"
proof -
  have tb: "table_inv s" using server_reachable_inv [OF assms] by (simp add: server_inv_def)
  have "\<forall>j. 1 \<le> j \<and> j < nfds s \<longrightarrow> con_ssl (connections s ! j) = None \<or> con_requests (connections s ! j) \<noteq> None"
    using slot_cases [OF tb] by (auto simp: slot_free_def slot_open_def)
  with stop_round [of 1 "s\<lparr>sv_active := False\<rparr>" "nfds s"] tb obtain s' where s':
    "for_slots stop_slot (nfds s) 1 (s\<lparr>sv_active := False\<rparr>) = Inr (Done s')" "\<not> sv_active s'"
    "\<forall>j. if 1 \<le> j \<and> j < nfds s then con_ssl (connections s' ! j) = None else connections s' ! j = connections s ! j"
    by (auto simp: table_inv_def)
  have "con_ssl (connections s' ! i) = None" if "1 \<le> i" "i < maxConnections s" for i
    using s'(3) tb that by (cases "i < nfds s") (auto simp: table_inv_def slot_free_def dest: spec [of _ i])
  with s' show ?thesis
    by (auto simp: http_server_stop_def and_then_def)
qed

text \<open>Property C20. Whatever clients connect, send, fall silent and hang up, and whatever the tasks do, the table of connections
  stays consistent: every slot is free or has a descriptor, a session, a running countdown and a live queue,
  and no slot at or above \<open>nfds\<close>, which \<open>poll\<close> does not look at, is open. So no round of the listener
  follows a NULL pointer or leaves the table, and stopping the server closes every connection.\<close>

theorem connection_table:
  assumes "server_reachable s"
  shows "table_inv s \<and> (env_ok p s \<longrightarrow> (\<exists>t. worker_round p s = Inr t)) \<and>
    (\<exists>s'. http_server_stop s = Inr (Done s') \<and> \<not> sv_active s' \<and>
       (\<forall>i. 1 \<le> i \<and> i < maxConnections s \<longrightarrow> con_ssl (connections s' ! i) = None))"
proof (intro conjI)
  note inv = server_reachable_inv [OF assms]
  then show tb: "table_inv s" by (simp add: server_inv_def)
  show "env_ok p s \<longrightarrow> (\<exists>t. worker_round p s = Inr t)" using round_inv [OF inv] by blast
  show "\<exists>s'. http_server_stop s = Inr (Done s') \<and> \<not> sv_active s' \<and>
       (\<forall>i. 1 \<le> i \<and> i < maxConnections s \<longrightarrow> con_ssl (connections s' ! i) = None)"
    by (rule server_stops [OF assms])
qed

theorem connection_table_witness: "table_inv (demo 2 5 (demo_con 5 7 True) [demo_task])"
  using connection_table [OF demo_busy] by blast

text \<open>A connection with \<open>k\<close> left on its countdown survives fewer than \<open>k\<close> quiet rounds, unchanged but for the
  countdown, and is closed by the \<open>k\<close>-th; \<open>k\<close> starts at ten seconds' worth of rounds.\<close>

theorem idle_connection_closed:
  assumes "server_reachable s" "1 \<le> i" "i < maxConnections s" "pfds s ! i \<noteq> -1"
  shows "0 < con_timeout (connections s ! i) \<and> con_timeout (connections s ! i) \<le> 10000 div sv_timeout s \<and>
    (\<exists>s'. quiet_rounds n s = Inr (Done s') \<and>
      (if int n < con_timeout (connections s ! i)
       then pfds s' ! i = pfds s ! i \<and>
         connections s' ! i = (connections s ! i)\<lparr>con_timeout := con_timeout (connections s ! i) - int n\<rparr>
       else pfds s' ! i = -1 \<and> con_ssl (connections s' ! i) = None))"
proof -
  have tb: "table_inv s" using server_reachable_inv [OF assms(1)] by (simp add: server_inv_def)
  then have t: "0 < con_timeout (connections s ! i)" "con_timeout (connections s ! i) \<le> 10000 div sv_timeout s"
    using assms(2-4) unfolding table_inv_def slot_ok_def slot_free_def slot_open_def by auto
  from quiet_rounds_open [OF tb assms(2,3) t(1), of n] t show ?thesis by (auto simp: slot_free_def)
qed

theorem idle_connection_closed_witness:
  "\<exists>s'. quiet_rounds 100 (demo 2 5 (demo_con 5 7 True) [demo_task]) = Inr (Done s') \<and> pfds s' ! 1 = -1"
  using idle_connection_closed [OF demo_busy, of 1 100] by (auto simp: demo_def demo_con_def)

text \<open>The result of \<open>SSL_read\<close> is tested as a \<open>size_t\<close>: only 0 closes the connection. An error,
  which is negative, passes for data: it starts a task with a packet of more bytes than the block has.\<close>

theorem read_error_taken_for_data:
  assumes "server_reachable s" "1 \<le> i" "i < maxConnections s" "pfds s ! i \<noteq> -1" "\<not> con_running (connections s ! i)"
    "rd_result r < 0" "-(2 ^ 31) \<le> rd_result r" "\<not> rd_pending r"
  shows "(\<exists>s' t. read_more i [r] s = Inr (Done s') \<and> pfds s' ! i = pfds s ! i \<and> sv_tasks s' = sv_tasks s @ [t] \<and>
      t_slot t = i \<and> bytes_received (t_data t) = nat (2 ^ 64 + rd_result r) \<and> data_size (t_data t) = 4096) \<and>
    (\<exists>s'. read_more i [r\<lparr>rd_result := 0\<rparr>] s = Inr (Done s') \<and> pfds s' ! i = -1 \<and> sv_tasks s' = sv_tasks s)"
proof
  have tb: "table_inv s" using server_reachable_inv [OF assms(1)] by (simp add: server_inv_def)
  then have op: "slot_open (sv_timeout s) (pfds s ! i) (connections s ! i)"
    using assms(2-4) unfolding table_inv_def slot_ok_def slot_free_def by blast
  have "(2 ^ 64 + rd_result r) mod 2 ^ 64 = 2 ^ 64 + rd_result r"
    using assms(6,7) by (intro mod_pos_pos_trivial) simp_all
  then have "rd_result r mod 2 ^ 64 = 2 ^ 64 + rd_result r" by simp
  then have n: "size_t (rd_result r) = nat (2 ^ 64 + rd_result r)" by (simp add: size_t_def)
  then have pos: "0 < size_t (rd_result r)" using assms(7) by simp
  with assms(5,8) n show "\<exists>s' t. read_more i [r] s = Inr (Done s') \<and> pfds s' ! i = pfds s ! i \<and> sv_tasks s' = sv_tasks s @ [t] \<and>
      t_slot t = i \<and> bytes_received (t_data t) = nat (2 ^ 64 + rd_result r) \<and> data_size (t_data t) = 4096"
    by (simp add: and_then_def Let_def DEFAULT_BUFFER_SIZE_def)
  have "con_requests (connections s ! i) \<noteq> None" using op by (auto simp: slot_open_def)
  from close_slot_spec [OF tb assms(2) open_below [OF tb assms(2,3) op] this] assms(5)
  show "\<exists>s'. read_more i [r\<lparr>rd_result := 0\<rparr>] s = Inr (Done s') \<and> pfds s' ! i = -1 \<and> sv_tasks s' = sv_tasks s"
    by (auto simp: size_t_def slot_free_def)
qed

theorem read_error_taken_for_data_witness:
  "\<exists>s' t. read_more 1 [demo_read (-1)] (demo 2 5 (demo_con 5 7 False) []) = Inr (Done s') \<and> sv_tasks s' = [t] \<and>
     bytes_received (t_data t) = 2 ^ 64 - 1"
proof -
  have "server_reachable (demo 2 5 (demo_con 5 7 False) [])" using demo_open [OF demo_start] by (simp add: no_connection_def)
  from read_error_taken_for_data [OF this, of 1 "demo_read (-1)"] show ?thesis
    by (auto simp: demo_def demo_con_def demo_read_def simp del: read_more.simps)
qed


text \<open>Property C21. A client that sends an eleventh packet while its first is served stops the whole server: the listener waits in
  \<open>push\<close> with the lock of the connection held, and the task that serves the connection, which would make
  room, waits for that lock.\<close>

theorem listener_deadlock:
  assumes "server_reachable s" "1 \<le> i" "i < maxConnections s" "con_running (connections s ! i)"
    "con_requests (connections s ! i) = Some q" "length (contents q) = 10" "0 < rd_result r" "rd_result r < 2 ^ 31"
  shows "\<exists>s'. read_more i (r # rs) s = Inr (Waits s') \<and> sv_tasks s' = sv_tasks s \<and>
    (\<forall>k < length (sv_tasks s). t_slot (sv_tasks s ! k) = i \<and> t_pc (sv_tasks s ! k) = Serving \<longrightarrow> task_step k s' = Inr None)"
proof -
  have tb: "table_inv s" using server_reachable_inv [OF assms(1)] by (simp add: server_inv_def)
  then have "slot_open (sv_timeout s) (pfds s ! i) (connections s ! i)"
    using assms(2,3,5) unfolding table_inv_def slot_ok_def slot_free_def by fastforce
  then have q: "queue_ok q" "qsize q = 10" using assms(5) by (auto simp: slot_open_def con_queue_size_def)
  then have full: "queue_push q (Some d) = None" for d
    using push_blocked_iff [of q] assms(6) by (simp add: queue_ok_def queue_push_def)
  have pos: "0 < size_t (rd_result r)" using assms(7,8) by (simp add: size_t_def)
  have l: "i < length (connections s)" using tb assms(3) by (simp add: table_inv_def)
  let ?s = "set_con i ((connections s ! i)\<lparr>con_locked := True\<rparr>) s"
  have "read_more i (r # rs) s = Inr (Waits ?s)" using pos assms(4,5) full by (simp add: and_then_def Let_def)
  moreover have "task_step k ?s = Inr None" if "t_slot (sv_tasks s ! k) = i" "t_pc (sv_tasks s ! k) = Serving" for k
    using that l by (simp add: task_step_def Let_def)
  ultimately show ?thesis by (intro exI [of _ ?s]) simp
qed

theorem listener_deadlock_witness:
  "\<exists>s s'. server_reachable s \<and> read_more 1 [demo_read 4] s = Inr (Waits s') \<and> sv_tasks s = [demo_task] \<and>
     task_step 0 s' = Inr None"
proof -
  obtain q where q: "server_reachable (demo 2 5 ((demo_con 5 7 True)\<lparr>con_requests := Some q\<rparr>) [demo_task])"
    "length (contents q) = 10" using demo_fill [of 10] by auto
  from listener_deadlock [OF q(1), of 1 q "demo_read 4" "[]"] q show ?thesis
    by (auto simp: demo_def demo_con_def demo_read_def demo_task_def simp del: read_more.simps)
qed

end
