(* ===== verification/Session.thy ===== *)
theory Session
  imports Response Queue
begin

section \<open>Users and sessions (http_libs/http_session.c)\<close>

text \<open>
  The two managers of the file are one record \<open>engine\<close>. Calls are whole critical sections; of the
  locks only \<open>um_locked\<close> is kept, the write lock of the users that one path never releases: a later
  call on another thread waits for it for ever (\<open>DeadLock\<close>). A user id in the queue \<open>work\<close> is a pointer, so the
  id 0 is NULL. The result \<open>None\<close> of \<open>http_session_register_user\<close> is a push that waits for room.
  Parameters: \<open>junk\<close>, what \<open>realloc\<close> leaves in a new user, and \<open>uuid\<close>, the text of a fresh uuid.
\<close>

record user_t =
  u_name :: "char list"
  u_password :: "char list"
  refs :: nat

record http_session_t =
  sid :: "char list"
  expire_s :: nat
  user_ref :: "nat option"

record engine =
  um_locked :: bool
  um_capacity :: nat
  um_entries :: nat
  um_last :: nat
  users :: "user_t list"
  work :: "nat queue_t"
  meta_file :: nat
  db_file :: "user_t list"
  user_entries :: nat
  session_timeout :: nat
  sm_capacity :: nat
  sm_entries :: nat
  sm_last :: nat
  sessions :: "http_session_t list"

definition name_size :: nat where "name_size = 126"
definition id_size :: nat where "id_size = 37"

definition zero_user :: user_t where
  "zero_user = \<lparr>u_name = replicate name_size nul, u_password = replicate name_size nul, refs = 0\<rparr>"

definition free_session :: http_session_t where
  "free_session = \<lparr>sid = replicate id_size nul, expire_s = 0, user_ref = None\<rparr>"

definition dec_size :: "nat \<Rightarrow> nat" where
  "dec_size n = (n + (2 ^ 64 - 1)) mod 2 ^ 64"

subsection \<open>Starting\<close>

text \<open>\<open>load_user_db\<close>: without a data directory, or from the count in the meta file and the records of
  the database.\<close>

definition load_user_db :: "(nat \<times> user_t list) option \<Rightarrow> nat \<Rightarrow> engine \<Rightarrow> engine" where
  "load_user_db data default_capacity e =
     (case data of
        None \<Rightarrow> e\<lparr>um_capacity := default_capacity, users := replicate default_capacity zero_user,
                meta_file := 0, db_file := []\<rparr>
      | Some (n, db) \<Rightarrow>
          e\<lparr>um_entries := n, um_last := n, um_capacity := n + default_capacity,
            users := take n db @ replicate (n + default_capacity - length (take n db)) zero_user,
            meta_file := n, db_file := (if n = 0 then [] else db)\<rparr>)"

definition http_session_engine_start :: "nat \<Rightarrow> (nat \<times> user_t list) option \<Rightarrow> nat \<Rightarrow> engine" where
  "http_session_engine_start base_capacity data timeout_s =
     (let cap = (if base_capacity = 0 then 10 else base_capacity);
          e = load_user_db data cap
            \<lparr>um_locked = False, um_capacity = 0, um_entries = 0, um_last = 0, users = [],
             work = queue_create (cap * 2), meta_file = 0, db_file = [], user_entries = 0,
             session_timeout = (if timeout_s = 0 then 60 * 60 else timeout_s),
             sm_capacity = cap, sm_entries = 0, sm_last = 0, sessions = replicate cap free_session\<rparr>
      in e\<lparr>user_entries := um_entries e\<rparr>)"

subsection \<open>Users\<close>

text \<open>The scan of \<open>user_get\<close> over the first \<open>last\<close> users, from \<open>i\<close>.\<close>

fun scan_users :: "user_t list \<Rightarrow> string \<Rightarrow> nat \<Rightarrow> nat option res" where
  "scan_users [] nm i = Inr None"
| "scan_users (u # us) nm i =
     bind_res (c_str (u_name u)) (\<lambda>s. if s = nm then Inr (Some i) else scan_users us nm (Suc i))"

definition user_get :: "engine \<Rightarrow> string \<Rightarrow> bool \<Rightarrow> nat option res" where
  "user_get e nm lck =
     (if lck \<and> um_locked e then Inl DeadLock else scan_users (take (um_last e) (users e)) nm 0)"

definition strncpy :: "nat \<Rightarrow> string \<Rightarrow> char list" where
  "strncpy n s = take n (s @ replicate n nul)"

text \<open>The array doubled; the \<open>memset\<close> starts at the last user but counts from the last session.\<close>

definition expand_users :: "user_t \<Rightarrow> engine \<Rightarrow> engine res" where
  "expand_users junk e =
     (let cap = um_capacity e * 2;
          arr = users e @ replicate (cap - length (users e)) junk
      in if cap < sm_last e then Inl OutOfBounds
         else bind_res (put_at arr (um_last e) (replicate (cap - sm_last e) zero_user))
                (\<lambda>us. Inr (e\<lparr>um_capacity := cap, users := us\<rparr>)))"

definition user_ptr :: "nat \<Rightarrow> nat option" where
  "user_ptr i = (if i = 0 then None else Some i)"

definition http_session_register_user ::
    "user_t \<Rightarrow> engine \<Rightarrow> string \<Rightarrow> string \<Rightarrow> (engine \<times> bool) option res" where
  "http_session_register_user junk e nm pw =
     (if um_locked e then Inl DeadLock
      else bind_res (user_get e nm False) (\<lambda>found.
        if found \<noteq> None then Inr (Some (e\<lparr>um_locked := True\<rparr>, False))
        else bind_res
          (if um_entries e < um_capacity e
           then Inr (e, first_index (\<lambda>u. u_name u ! 0 = nul) (take (um_last e) (users e)))
           else bind_res (expand_users junk e) (\<lambda>e1. Inr (e1, um_last e1)))
          (\<lambda>(e1, entry).
             if length (users e1) \<le> entry then Inl OutOfBounds
             else let u = (users e1 ! entry)\<lparr>u_name := strncpy name_size nm, u_password := strncpy name_size pw\<rparr>;
                      e2 = e1\<lparr>um_last := (if entry = um_last e1 then um_last e1 + 1 else um_last e1),
                              um_entries := um_entries e1 + 1, users := (users e1)[entry := u]\<rparr>
                  in Inr (map_option (\<lambda>q. (e2\<lparr>work := q\<rparr>, True)) (queue_push (work e2) (user_ptr entry))))))"

subsection \<open>Sessions\<close>

definition expand_sessions :: "engine \<Rightarrow> engine" where
  "expand_sessions e = e\<lparr>sm_capacity := sm_capacity e * 2,
     sessions := take (sm_last e) (sessions e) @ replicate (sm_capacity e * 2 - sm_last e) free_session\<rparr>"

definition add_ref :: "engine \<Rightarrow> nat \<Rightarrow> engine res" where
  "add_ref e u =
     (if length (users e) \<le> u then Inl OutOfBounds
      else Inr (e\<lparr>users := (users e)[u := (users e ! u)\<lparr>refs := (refs (users e ! u) + 1) mod 2 ^ 64\<rparr>]\<rparr>))"

definition drop_ref :: "engine \<Rightarrow> nat option \<Rightarrow> engine res" where
  "drop_ref e u =
     (case u of None \<Rightarrow> Inl OutOfBounds
      | Some i \<Rightarrow> if length (users e) \<le> i then Inl OutOfBounds
          else Inr (e\<lparr>users := (users e)[i := (users e ! i)\<lparr>refs := dec_size (refs (users e ! i))\<rparr>]\<rparr>))"

text \<open>\<open>None\<close> is \<open>INVALID_SESSION_ID\<close>.\<close>

definition http_session_login_user ::
    "string \<Rightarrow> engine \<Rightarrow> string \<Rightarrow> string \<Rightarrow> (engine \<times> nat option) res" where
  "http_session_login_user uuid e nm pw =
     bind_res (user_get e nm True) (\<lambda>r. case r of
       None \<Rightarrow> Inr (e, None)
     | Some u \<Rightarrow> bind_res (c_str (u_password (users e ! u))) (\<lambda>p.
         if p \<noteq> pw then Inr (e, None)
         else let (e1, entry) =
                (if sm_entries e < sm_capacity e
                 then (e, first_index (\<lambda>s. user_ref s = None) (take (sm_last e) (sessions e)))
                 else (expand_sessions e, sm_last e));
              s = \<lparr>sid = uuid @ [nul], expire_s = session_timeout e1, user_ref = Some u\<rparr>
           in if length (sessions e1) \<le> entry then Inl OutOfBounds
              else bind_res (add_ref (e1\<lparr>sm_last := (if entry = sm_last e1 then sm_last e1 + 1 else sm_last e1),
                     sm_entries := sm_entries e1 + 1, sessions := (sessions e1)[entry := s]\<rparr>) u)
                   (\<lambda>e2. Inr (e2, Some entry))))"

fun scan_sessions :: "http_session_t list \<Rightarrow> string \<Rightarrow> nat \<Rightarrow> nat option res" where
  "scan_sessions [] i k = Inr None"
| "scan_sessions (s # ss) i k =
     (if sid s ! 0 = nul then scan_sessions ss i (Suc k)
      else bind_res (c_str (sid s)) (\<lambda>t. if t = i then Inr (Some k) else scan_sessions ss i (Suc k)))"

definition http_session_get_by_id :: "engine \<Rightarrow> string \<Rightarrow> nat option res" where
  "http_session_get_by_id e i = scan_sessions (take (sm_capacity e) (sessions e)) i 0"

text \<open>\<open>raw\<close> is the text of the request behind its first line; 36 bytes are copied from the cookie on,
  past the end of the text if it is shorter.\<close>

definition http_session_get :: "engine \<Rightarrow> string \<Rightarrow> nat option res" where
  "http_session_get e raw =
     (case http_get_cookie raw ''session_id'' of
        None \<Rightarrow> Inr None
      | Some rcv \<Rightarrow>
          if length rcv + 1 < id_size - 1 then Inl OutOfBounds
          else bind_res (c_str (take (id_size - 1) (rcv @ [nul]) @ [nul])) (http_session_get_by_id e))"

definition close_session :: "engine \<Rightarrow> nat \<Rightarrow> engine res" where
  "close_session e i =
     (if length (sessions e) \<le> i then Inl OutOfBounds
      else bind_res (drop_ref e (user_ref (sessions e ! i))) (\<lambda>e1.
        Inr (e1\<lparr>sessions := (sessions e1)[i := (sessions e1 ! i)\<lparr>sid := replicate id_size nul, user_ref := None\<rparr>]\<rparr>)))"

definition http_session_logout_user :: "engine \<Rightarrow> string \<Rightarrow> engine res" where
  "http_session_logout_user e raw =
     bind_res (http_session_get e raw) (\<lambda>r. case r of
       None \<Rightarrow> Inr e
     | Some i \<Rightarrow>
         if um_locked e then Inl DeadLock
         else bind_res (close_session e i) (\<lambda>e1.
           Inr (if i = dec_size (sm_last e1) then e1\<lparr>sm_last := dec_size (sm_last e1)\<rparr> else e1)))"

definition http_session_get_id :: "engine \<Rightarrow> nat \<Rightarrow> char list res" where
  "http_session_get_id e i =
     (if length (sessions e) \<le> i then Inl OutOfBounds
      else Inr (take (id_size - 1) (sid (sessions e ! i)) @ [nul]))"

definition cookie_flags :: string where
  "cookie_flags = ''; HttpOnly; Secure; SameSite=Strict''"

text \<open>The flags are copied behind the \<open>sizeof(id)\<close> bytes of the id, which include its NUL.\<close>

definition http_session_set_cookie :: "engine \<Rightarrow> nat \<Rightarrow> http_response_t \<Rightarrow> http_response_t res" where
  "http_session_set_cookie e i r =
     bind_res (http_session_get_id e i) (\<lambda>ident.
     bind_res (put_at (replicate 256 None) id_size (map Some (cookie_flags @ [nul]))) (\<lambda>b.
     bind_res (put_at b 0 (map Some ident)) (\<lambda>b.
     bind_res (read_str b) (\<lambda>v. http_set_cookie r ''session_id'' v))))"

definition http_session_get_username :: "engine \<Rightarrow> nat \<Rightarrow> string res" where
  "http_session_get_username e i =
     (if um_locked e then Inl DeadLock
      else if length (sessions e) \<le> i then Inl OutOfBounds
      else case user_ref (sessions e ! i) of
         None \<Rightarrow> Inl OutOfBounds
       | Some u \<Rightarrow> if length (users e) \<le> u then Inl OutOfBounds else c_str (u_name (users e ! u)))"

subsection \<open>The session task\<close>

text \<open>One cycle of \<open>session_task\<close>: count the sessions down, close the expired ones, write the new users.
  \<open>count\<close> is how many valid sessions the scan still looks at.\<close>

fun scan_expired :: "http_session_t list \<Rightarrow> nat \<Rightarrow> nat \<Rightarrow> http_session_t list \<times> nat list" where
  "scan_expired [] i count = ([], [])"
| "scan_expired (s # ss) i count =
     (if count = 0 then (s # ss, [])
      else if user_ref s = None then (let (ss', ex) = scan_expired ss (Suc i) count in (s # ss', ex))
      else let s' = s\<lparr>expire_s := dec_size (expire_s s)\<rparr>;
               (ss', ex) = scan_expired ss (Suc i) (count - 1)
           in (s' # ss', if expire_s s' = 0 then i # ex else ex))"

text \<open>The \<open>while(entries > 0)\<close> loop, on the reversed buffer.\<close>

fun close_expired :: "nat list \<Rightarrow> engine \<Rightarrow> engine res" where
  "close_expired [] e = Inr e"
| "close_expired (i # rest) e =
     (if um_locked e then Inl DeadLock
      else bind_res (close_session e i) (\<lambda>e1.
        close_expired rest
          (if length rest = dec_size (sm_last e1) then e1\<lparr>sm_last := dec_size (sm_last e1)\<rparr> else e1)))"

definition expire_sessions :: "engine \<Rightarrow> engine res" where
  "expire_sessions e =
     (case scan_expired (take (sm_capacity e) (sessions e)) 0 (sm_entries e) of
        (ss, ex) \<Rightarrow> close_expired (rev ex) (e\<lparr>sessions := ss @ drop (sm_capacity e) (sessions e)\<rparr>))"

text \<open>The \<open>while(!empty(work))\<close> loop; \<open>qsize\<close> turns are enough, since it ends when \<open>head\<close> meets \<open>tail\<close>.\<close>

fun write_users :: "nat \<Rightarrow> engine \<Rightarrow> nat \<Rightarrow> (engine \<times> nat) option res" where
  "write_users 0 e n = (if queue_empty (work e) then Inr (Some (e, n)) else Inr None)"
| "write_users (Suc fuel) e n =
     (if queue_empty (work e) then Inr (Some (e, n))
      else case queue_pop (work e) of
         None \<Rightarrow> Inr None
       | Some (p, q) \<Rightarrow>
           let u = (case p of None \<Rightarrow> 0 | Some i \<Rightarrow> i) in
           if um_locked e then Inl DeadLock
           else if length (users e) \<le> u then Inl OutOfBounds
           else write_users fuel (e\<lparr>work := q, db_file := db_file e @ [users e ! u]\<rparr>) (n + 1))"

definition save_users :: "engine \<Rightarrow> engine option res" where
  "save_users e =
     bind_res (write_users (qsize (work e)) e 0) (\<lambda>r. case r of
       None \<Rightarrow> Inr None
     | Some (e1, n) \<Rightarrow> Inr (Some (if n > 0
         then e1\<lparr>user_entries := user_entries e1 + n, meta_file := user_entries e1 + n\<rparr> else e1)))"

definition session_cycle :: "engine \<Rightarrow> engine option res" where
  "session_cycle e = bind_res (expire_sessions e) save_users"

subsection \<open>The invariant of the managers\<close>

definition active_refs :: "http_session_t list \<Rightarrow> nat \<Rightarrow> nat" where
  "active_refs ss u = length (filter (\<lambda>s. user_ref s = Some u) ss)"

text \<open>A session id is empty or the 36 characters of a uuid.\<close>

definition uuid_ok :: "string \<Rightarrow> bool" where
  "uuid_ok s \<longleftrightarrow> length s = id_size - 1 \<and> nul \<notin> set s"

definition sid_ok :: "char list \<Rightarrow> bool" where
  "sid_ok s \<longleftrightarrow> s = replicate id_size nul \<or> (\<exists>t. uuid_ok t \<and> s = t @ [nul])"

definition engine_inv :: "engine \<Rightarrow> bool" where
  "engine_inv e \<longleftrightarrow> \<not> um_locked e \<and> length (users e) = um_capacity e \<and> um_last e \<le> um_entries e \<and>
     um_last e \<le> um_capacity e \<and> length (sessions e) = sm_capacity e \<and> sm_capacity e < 2 ^ 63 \<and>
     0 < sm_capacity e \<and> sm_last e \<le> sm_entries e \<and> sm_last e \<le> sm_capacity e \<and>
     (\<forall>i < sm_capacity e. user_ref (sessions e ! i) \<noteq> None \<longrightarrow> i < sm_last e) \<and>
     (\<forall>s \<in> set (sessions e). sid_ok (sid s) \<and> (user_ref s = None \<longrightarrow> sid s = replicate id_size nul)) \<and>
     (\<forall>s \<in> set (sessions e). \<forall>u. user_ref s = Some u \<longrightarrow> u < um_last e) \<and>
     (\<forall>u < um_capacity e. refs (users e ! u) = active_refs (sessions e) u mod 2 ^ 64)"

lemma count_update:
  "i < length xs \<Longrightarrow>
   length (filter P (xs[i := y])) + of_bool (P (xs ! i)) = length (filter P xs) + of_bool (P y)"
proof (induction xs arbitrary: i)
  case (Cons x xs)
  then show ?case using Cons.IH [of "i - 1"] by (cases i) auto
qed simp

lemma active_refs_update:
  "i < length ss \<Longrightarrow> active_refs (ss[i := s]) u + of_bool (user_ref (ss ! i) = Some u) =
     active_refs ss u + of_bool (user_ref s = Some u)"
  unfolding active_refs_def by (rule count_update)

lemma mod_pred: "0 < a \<Longrightarrow> dec_size (a mod 2 ^ 64) = (a - 1) mod 2 ^ 64"
proof -
  assume "0 < a"
  then obtain b where b: "a = Suc b" by (cases a) auto
  have "(Suc b mod 2 ^ 64 + (2 ^ 64 - 1)) mod 2 ^ 64 = (Suc b + (2 ^ 64 - 1)) mod 2 ^ 64" by (rule mod_add_left_eq)
  also have "Suc b + (2 ^ 64 - 1) = b + 2 ^ 64" by simp
  finally show ?thesis using b by (simp only: dec_size_def mod_add_self2) simp
qed

lemma dec_size_pos: "0 < n \<Longrightarrow> n < 2 ^ 64 \<Longrightarrow> dec_size n = n - 1"
  using mod_pred [of n] by simp

lemma start_inv:
  assumes "cap < 2 ^ 63"
  shows "engine_inv (http_session_engine_start cap None t)"
  using assms
  by (auto simp: engine_inv_def http_session_engine_start_def load_user_db_def free_session_def zero_user_def
      active_refs_def Let_def sid_ok_def)

lemma register_inv:
  assumes inv: "engine_inv e" and room: "um_entries e < um_capacity e"
    and run: "http_session_register_user junk e nm pw = Inr (Some (e', True))"
  shows "engine_inv e'"
proof -
  let ?i = "first_index (\<lambda>u. u_name u ! 0 = nul) (take (um_last e) (users e))"
  let ?u = "(users e ! ?i)\<lparr>u_name := strncpy name_size nm, u_password := strncpy name_size pw\<rparr>"
  obtain q where e': "e' = e\<lparr>um_last := (if ?i = um_last e then um_last e + 1 else um_last e),
      um_entries := um_entries e + 1, users := (users e)[?i := ?u], work := q\<rparr>"
    using run room inv
    by (auto simp: http_session_register_user_def engine_inv_def bind_res_Inr Let_def split: if_splits)
  have i: "?i \<le> um_last e"
    using first_index_le [of "\<lambda>u. u_name u ! 0 = nul" "take (um_last e) (users e)"] inv
    by (auto simp: engine_inv_def)
  have "refs ((users e)[?i := ?u] ! u) = refs (users e ! u)" if "u < um_capacity e" for u
    using that inv by (cases "u = ?i") (auto simp: engine_inv_def nth_list_update)
  with inv room i show ?thesis unfolding e' by (fastforce simp: engine_inv_def)
qed

text \<open>Putting a session in place of a free one, with its reference.\<close>

lemma open_inv:
  assumes inv: "engine_inv e" and i: "i < sm_capacity e" "i \<le> sm_last e" "sm_entries e < n"
    and free: "user_ref (sessions e ! i) = None" and u: "u < um_last e" and sid: "sid_ok (sid s)" "user_ref s = Some u"
    and last: "l = (if i = sm_last e then sm_last e + 1 else sm_last e)"
  shows "\<exists>e'. add_ref (e\<lparr>sm_last := l, sm_entries := n, sessions := (sessions e)[i := s]\<rparr>) u = Inr e' \<and>
    engine_inv e' \<and> sessions e' = (sessions e)[i := s] \<and> sm_capacity e' = sm_capacity e \<and>
    users e' = (users e)[u := (users e ! u)\<lparr>refs := (refs (users e ! u) + 1) mod 2 ^ 64\<rparr>]"
proof -
  let ?us = "(users e)[u := (users e ! u)\<lparr>refs := (refs (users e ! u) + 1) mod 2 ^ 64\<rparr>]"
  let ?e = "e\<lparr>sm_last := l, sm_entries := n, sessions := (sessions e)[i := s], users := ?us\<rparr>"
  have ul: "u < length (users e)" using inv u by (auto simp: engine_inv_def)
  have il: "i < length (sessions e)" using inv i by (simp add: engine_inv_def)
  have run: "add_ref (e\<lparr>sm_last := l, sm_entries := n, sessions := (sessions e)[i := s]\<rparr>) u = Inr ?e"
    using ul by (simp add: add_ref_def)
  have refs: "refs (?us ! v) = active_refs ((sessions e)[i := s]) v mod 2 ^ 64" if "v < um_capacity e" for v
  proof -
    have "refs (users e ! v) = active_refs (sessions e) v mod 2 ^ 64" using inv that by (simp add: engine_inv_def)
    then show ?thesis using active_refs_update [OF il, of s v] free sid(2) ul
      by (cases "u = v") (auto simp: mod_Suc_eq)
  qed
  have ref: "j < l" if "j < sm_capacity e" "user_ref ((sessions e)[i := s] ! j) \<noteq> None" for j
    using that inv i last by (cases "j = i") (auto simp: engine_inv_def)
  have "set ((sessions e)[i := s]) \<subseteq> insert s (set (sessions e))" by (rule set_update_subset_insert)
  then have all: "\<forall>x \<in> set ((sessions e)[i := s]). sid_ok (sid x) \<and>
      (user_ref x = None \<longrightarrow> sid x = replicate id_size nul) \<and> (\<forall>v. user_ref x = Some v \<longrightarrow> v < um_last e)"
    using inv sid u by (auto simp: engine_inv_def)
  have "engine_inv ?e"
    using inv i last refs ref all unfolding engine_inv_def by (auto simp del: list_update.simps nth_list_update_eq)
  with run show ?thesis by auto
qed

text \<open>Closing the session \<open>i\<close>; \<open>last\<close> may go down when nothing behind it is active.\<close>

lemma close_inv:
  assumes inv: "engine_inv e" and i: "i < sm_capacity e" and active: "user_ref (sessions e ! i) \<noteq> None"
  defines "s \<equiv> (sessions e ! i)\<lparr>sid := replicate id_size nul, user_ref := None\<rparr>"
  shows "\<exists>e'. close_session e i = Inr e' \<and> engine_inv e' \<and> sessions e' = (sessions e)[i := s] \<and>
    sm_capacity e' = sm_capacity e \<and> sm_last e' = sm_last e \<and> um_last e' = um_last e \<and>
    (i = sm_last e - 1 \<longrightarrow> engine_inv (e'\<lparr>sm_last := sm_last e - 1\<rparr>))"
proof -
  obtain u where u: "user_ref (sessions e ! i) = Some u" using active by blast
  have il: "i < length (sessions e)" using inv i by (simp add: engine_inv_def)
  have mem: "sessions e ! i \<in> set (sessions e)" using il by simp
  have ul: "u < um_last e" "u < length (users e)" using inv mem u by (auto simp: engine_inv_def)
  let ?us = "(users e)[u := (users e ! u)\<lparr>refs := dec_size (refs (users e ! u))\<rparr>]"
  let ?e = "e\<lparr>users := ?us, sessions := (sessions e)[i := s]\<rparr>"
  have run: "close_session e i = Inr ?e"
    using il ul u by (simp add: close_session_def drop_ref_def s_def)
  have pos: "0 < active_refs (sessions e) u"
    using mem u unfolding active_refs_def by (metis (mono_tags, lifting) filter_empty_conv length_greater_0_conv)
  have refs: "refs (?us ! v) = active_refs ((sessions e)[i := s]) v mod 2 ^ 64" if "v < um_capacity e" for v
  proof -
    have r: "refs (users e ! v) = active_refs (sessions e) v mod 2 ^ 64" using inv that by (simp add: engine_inv_def)
    have "user_ref s = None" by (simp add: s_def)
    with active_refs_update [OF il, of s v] u
    have "active_refs ((sessions e)[i := s]) v = active_refs (sessions e) v - of_bool (u = v)" by auto
    with r mod_pred [OF pos] ul(2) show ?thesis by (cases "u = v") simp_all
  qed
  have ref: "j < sm_last e \<and> j \<noteq> i" if "j < sm_capacity e" "user_ref ((sessions e)[i := s] ! j) \<noteq> None" for j
    using that inv il by (cases "j = i") (auto simp: engine_inv_def s_def)
  have "set ((sessions e)[i := s]) \<subseteq> insert s (set (sessions e))" by (rule set_update_subset_insert)
  moreover have "sid_ok (sid s) \<and> sid s = replicate id_size nul \<and> user_ref s = None" by (simp add: s_def sid_ok_def)
  ultimately have all: "\<forall>x \<in> set ((sessions e)[i := s]). sid_ok (sid x) \<and>
      (user_ref x = None \<longrightarrow> sid x = replicate id_size nul) \<and> (\<forall>v. user_ref x = Some v \<longrightarrow> v < um_last e)"
    using inv by (auto simp: engine_inv_def)
  have inv': "engine_inv ?e"
    using inv refs ref all unfolding engine_inv_def by (auto simp del: list_update.simps nth_list_update_eq)
  have "engine_inv (?e\<lparr>sm_last := sm_last e - 1\<rparr>)" if "i = sm_last e - 1"
  proof -
    have "j < sm_last e - 1" if j: "j < sm_capacity e" "user_ref ((sessions e)[i := s] ! j) \<noteq> None" for j
      using ref [OF j] \<open>i = sm_last e - 1\<close> by linarith
    with inv' show ?thesis unfolding engine_inv_def by auto
  qed
  with run inv' show ?thesis by (intro exI [of _ ?e]) simp
qed

lemma scan_users_Some:
  "scan_users us nm k = Inr (Some j) \<Longrightarrow> k \<le> j \<and> j < k + length us \<and> c_str (u_name (us ! (j - k))) = Inr nm"
proof (induction us arbitrary: k)
  case (Cons u us)
  then obtain s where s: "c_str (u_name u) = Inr s" by (auto simp: bind_res_Inr)
  show ?case
  proof (cases "s = nm")
    case False
    with Cons.prems s have "scan_users us nm (Suc k) = Inr (Some j)" by simp
    note IH = Cons.IH [OF this]
    then have "j - k = Suc (j - Suc k)" by linarith
    with IH show ?thesis by simp
  qed (use Cons.prems s in auto)
qed simp

lemma user_get_Some:
  assumes "engine_inv e" "user_get e nm lck = Inr (Some u)"
  shows "u < um_last e \<and> c_str (u_name (users e ! u)) = Inr nm"
  using assms scan_users_Some [of "take (um_last e) (users e)" nm 0 u]
  by (auto simp: user_get_def engine_inv_def split: if_splits)

lemma expand_inv:
  assumes inv: "engine_inv e" and small: "sm_capacity e * 2 < 2 ^ 63"
  shows "engine_inv (expand_sessions e)"
proof -
  let ?f = "replicate (sm_capacity e * 2 - sm_last e) free_session"
  let ?t = "take (sm_last e) (sessions e)"
  have l: "sm_last e \<le> length (sessions e)" "length (sessions e) = sm_capacity e" using inv by (auto simp: engine_inv_def)
  have none: "filter (\<lambda>s. user_ref s = Some u) (drop (sm_last e) (sessions e)) = []" for u
  proof -
    have "user_ref x = None" if x: "x \<in> set (drop (sm_last e) (sessions e))" for x
    proof -
      obtain j where j: "j < length (sessions e) - sm_last e" "x = sessions e ! (sm_last e + j)"
        using x l by (auto simp: in_set_conv_nth)
      then have "sm_last e + j < sm_capacity e" using l by linarith
      moreover have "\<forall>i < sm_capacity e. user_ref (sessions e ! i) \<noteq> None \<longrightarrow> i < sm_last e"
        using inv by (simp add: engine_inv_def)
      ultimately have "\<not> user_ref (sessions e ! (sm_last e + j)) \<noteq> None" by (metis not_add_less1)
      then show ?thesis using j(2) by simp
    qed
    then show ?thesis by (auto simp: filter_empty_conv)
  qed
  have "active_refs (?t @ ?f) u = active_refs (sessions e) u" for u
  proof -
    have "active_refs (sessions e) u = active_refs (?t @ drop (sm_last e) (sessions e)) u" by simp
    then show ?thesis unfolding active_refs_def filter_append none by (simp add: free_session_def)
  qed
  then have refs: "\<forall>u < um_capacity e. refs (users e ! u) = active_refs (?t @ ?f) u mod 2 ^ 64"
    using inv by (simp add: engine_inv_def)
  have ref: "\<forall>j < sm_capacity e * 2. user_ref ((?t @ ?f) ! j) \<noteq> None \<longrightarrow> j < sm_last e"
    using l by (auto simp: nth_append free_session_def)
  have mem: "x \<in> set (sessions e) \<or> x = free_session" if "x \<in> set (?t @ ?f)" for x
    using that by (auto dest: in_set_takeD)
  have sid: "\<forall>x \<in> set (?t @ ?f). sid_ok (sid x) \<and> (user_ref x = None \<longrightarrow> sid x = replicate id_size nul)"
  proof
    fix x assume "x \<in> set (?t @ ?f)"
    from mem [OF this] inv show "sid_ok (sid x) \<and> (user_ref x = None \<longrightarrow> sid x = replicate id_size nul)"
      by (auto simp: engine_inv_def free_session_def sid_ok_def)
  qed
  have own: "\<forall>x \<in> set (?t @ ?f). \<forall>u. user_ref x = Some u \<longrightarrow> u < um_last e"
  proof
    fix x assume "x \<in> set (?t @ ?f)"
    from mem [OF this] inv show "\<forall>u. user_ref x = Some u \<longrightarrow> u < um_last e"
      by (auto simp: engine_inv_def free_session_def)
  qed
  have "sm_last e \<le> sm_capacity e * 2" "length (?t @ ?f) = sm_capacity e * 2" using l by simp_all
  with inv small refs ref sid own show ?thesis
    unfolding engine_inv_def expand_sessions_def by (simp del: set_append nth_append)
qed

text \<open>What a login does: it opens a free session, in the old array or in the doubled one.\<close>

lemma login_cases:
  assumes inv: "engine_inv e" and uuid: "uuid_ok uuid"
    and run: "http_session_login_user uuid e nm pw = Inr (e', Some i)" and small: "sm_capacity e' < 2 ^ 63"
  shows "engine_inv e' \<and> (\<exists>u e1. (e1 = e \<or> e1 = expand_sessions e) \<and> engine_inv e1 \<and> u < um_last e \<and>
    c_str (u_name (users e ! u)) = Inr nm \<and> c_str (u_password (users e ! u)) = Inr pw \<and>
    u_name (users e' ! u) = u_name (users e ! u) \<and> i < length (sessions e1) \<and>
    sessions e' = (sessions e1)[i := \<lparr>sid = uuid @ [nul], expire_s = session_timeout e, user_ref = Some u\<rparr>])"
proof -
  from run obtain u where u: "user_get e nm True = Inr (Some u)" and pw: "c_str (u_password (users e ! u)) = Inr pw"
    by (auto simp: http_session_login_user_def bind_res_Inr split: option.splits if_splits)
  note ul = user_get_Some [OF inv u]
  define e1 where "e1 = (if sm_entries e < sm_capacity e then e else expand_sessions e)"
  define k where "k = (if sm_entries e < sm_capacity e
    then first_index (\<lambda>s. user_ref s = None) (take (sm_last e) (sessions e)) else sm_last e)"
  let ?s = "\<lparr>sid = uuid @ [nul], expire_s = session_timeout e, user_ref = Some u\<rparr>"
  have e1: "sm_last e1 = sm_last e" "sm_entries e1 = sm_entries e" "um_last e1 = um_last e" "users e1 = users e"
    "session_timeout e1 = session_timeout e"
    by (simp_all add: e1_def expand_sessions_def)
  have branch: "(if sm_entries e < sm_capacity e
      then (e, first_index (\<lambda>s. user_ref s = None) (take (sm_last e) (sessions e)))
      else (expand_sessions e, sm_last e)) = (e1, k)" by (simp add: e1_def k_def)
  let ?l = "if k = sm_last e1 then sm_last e1 + 1 else sm_last e1"
  let ?new = "e1\<lparr>sm_last := ?l, sm_entries := sm_entries e1 + 1, sessions := (sessions e1)[k := ?s]\<rparr>"
  have step: "k < length (sessions e1) \<and> add_ref ?new u = Inr e' \<and> i = k"
    using run u pw unfolding http_session_login_user_def
    by (auto simp: branch e1 bind_res_Inr split: if_splits)
  then have cap: "sm_capacity e1 = sm_capacity e'" by (auto simp: add_ref_def split: if_splits)
  have inv1: "engine_inv e1"
    using inv expand_inv [OF inv] small cap by (auto simp: e1_def expand_sessions_def split: if_splits)
  have kl: "k \<le> sm_last e1"
    using first_index_le [of "\<lambda>s. user_ref s = None" "take (sm_last e) (sessions e)"] by (auto simp: k_def e1)
  have kc: "k < sm_capacity e1" using step inv1 by (simp add: engine_inv_def)
  have free: "user_ref (sessions e1 ! k) = None"
  proof (cases "k < sm_last e1")
    case True
    then have "sm_entries e < sm_capacity e" by (auto simp: k_def e1 split: if_splits)
    then have "k = first_index (\<lambda>s. user_ref s = None) (take (sm_last e) (sessions e))" "e1 = e"
      by (simp_all add: k_def e1_def)
    with first_index_P [of "\<lambda>s. user_ref s = None" "take (sm_last e) (sessions e)"] True kc inv1 show ?thesis
      by (auto simp: engine_inv_def)
  next
    case False
    with kc inv1 show ?thesis by (auto simp: engine_inv_def)
  qed
  have sid: "sid_ok (sid ?s)" using uuid by (auto simp: sid_ok_def)
  have "u < um_last e1" using ul e1 by simp
  from open_inv [OF inv1 kc kl _ free this sid, of "sm_entries e1 + 1" ?l] step
  have "engine_inv e'" "sessions e' = (sessions e1)[k := ?s]"
    "users e' = (users e1)[u := (users e1 ! u)\<lparr>refs := (refs (users e1 ! u) + 1) mod 2 ^ 64\<rparr>]" by auto
  moreover have "u < length (users e)" using ul inv by (auto simp: engine_inv_def)
  ultimately show ?thesis using step ul pw inv1 e1
    by (intro conjI exI [of _ u] exI [of _ e1]) (auto simp: e1_def)
qed

lemma login_inv:
  assumes inv: "engine_inv e" and uuid: "uuid_ok uuid"
    and run: "http_session_login_user uuid e nm pw = Inr (e', r)" and small: "sm_capacity e' < 2 ^ 63"
  shows "engine_inv e'"
proof (cases r)
  case None
  have "e' = e" using run None unfolding http_session_login_user_def
    by (auto simp: bind_res_Inr Let_def split: option.splits if_splits)
  with inv show ?thesis by simp
next
  case (Some i)
  with login_cases [OF inv uuid, of nm pw e' i] run small show ?thesis by simp
qed

lemma scan_sessions_Some:
  "scan_sessions ss t k = Inr (Some j) \<Longrightarrow> k \<le> j \<and> j < k + length ss \<and> sid (ss ! (j - k)) ! 0 \<noteq> nul"
proof (induction ss arbitrary: k)
  case (Cons s ss)
  show ?case
  proof (cases "sid s ! 0 \<noteq> nul \<and> c_str (sid s) = Inr t")
    case False
    with Cons.prems have "scan_sessions ss t (Suc k) = Inr (Some j)" by (auto simp: bind_res_Inr split: if_splits)
    note IH = Cons.IH [OF this]
    then have "j - k = Suc (j - Suc k)" by linarith
    with IH show ?thesis by simp
  qed (use Cons.prems in auto)
qed simp

lemma logout_inv:
  assumes inv: "engine_inv e" and run: "http_session_logout_user e raw = Inr e'"
  shows "engine_inv e'"
proof -
  obtain r where r: "http_session_get e raw = Inr r" using run by (auto simp: http_session_logout_user_def bind_res_Inr)
  show ?thesis
  proof (cases r)
    case None
    with run r inv show ?thesis by (simp add: http_session_logout_user_def)
  next
    case (Some i)
    then obtain t where "scan_sessions (take (sm_capacity e) (sessions e)) t 0 = Inr (Some i)"
      using r by (auto simp: http_session_get_def http_session_get_by_id_def bind_res_Inr split: option.splits if_splits)
    from scan_sessions_Some [OF this] have "i < length (sessions e)" "sid (sessions e ! i) ! 0 \<noteq> nul"
      by auto
    with inv have i: "i < sm_capacity e" "user_ref (sessions e ! i) \<noteq> None"
      by (auto simp: engine_inv_def id_size_def)
    from close_inv [OF inv i] obtain e1 where e1: "close_session e i = Inr e1" "engine_inv e1" "sm_last e1 = sm_last e"
      "i = sm_last e - 1 \<longrightarrow> engine_inv (e1\<lparr>sm_last := sm_last e - 1\<rparr>)" by blast
    have "0 < sm_last e" "sm_last e < 2 ^ 64" using inv i by (auto simp: engine_inv_def)
    then have "dec_size (sm_last e) = sm_last e - 1" by (rule dec_size_pos)
    with run r Some e1 inv show ?thesis
      by (auto simp: http_session_logout_user_def engine_inv_def split: if_splits)
  qed
qed

subsection \<open>The session cycle\<close>

definition count_down :: "http_session_t \<Rightarrow> http_session_t" where
  "count_down s = (if user_ref s = None then s else s\<lparr>expire_s := dec_size (expire_s s)\<rparr>)"

definition expiring :: "http_session_t \<Rightarrow> bool" where
  "expiring s \<longleftrightarrow> user_ref s \<noteq> None \<and> dec_size (expire_s s) = 0"

definition closed :: "http_session_t \<Rightarrow> http_session_t" where
  "closed s = s\<lparr>sid := replicate id_size nul, user_ref := None\<rparr>"

text \<open>If \<open>count\<close> is at least the number of active sessions, the scan sees them all.\<close>

lemma scan_expired:
  assumes "length (filter (\<lambda>s. user_ref s \<noteq> None) ss) \<le> count"
  shows "scan_expired ss k count =
    (map count_down ss, map (\<lambda>i. k + i) (filter (\<lambda>i. expiring (ss ! i)) [0..<length ss]))"
  using assms
proof (induction ss arbitrary: k count)
  case (Cons s ss)
  have shift: "map (\<lambda>i. k + i) (filter (\<lambda>i. expiring ((s # ss) ! i)) [0..<length (s # ss)]) =
      (if expiring s then [k] else []) @ map (\<lambda>i. Suc k + i) (filter (\<lambda>i. expiring (ss ! i)) [0..<length ss])"
  proof -
    have "[0..<length (s # ss)] = 0 # map Suc [0..<length ss]" by (simp add: upt_conv_Cons map_Suc_upt del: upt_Suc)
    then show ?thesis by (simp add: filter_map comp_def)
  qed
  show ?case
  proof (cases "count = 0")
    case True
    then have none: "\<forall>x \<in> set (s # ss). user_ref x = None"
      using Cons.prems by (auto simp: filter_empty_conv split: if_splits)
    then have "map count_down ss = ss" by (intro map_idI) (auto simp: count_down_def)
    moreover have "filter (\<lambda>i. expiring (ss ! i)) [0..<length ss] = []"
      using none by (auto simp: filter_empty_conv expiring_def)
    moreover have "count_down s = s" "\<not> expiring s" using none by (simp_all add: count_down_def expiring_def)
    ultimately show ?thesis unfolding shift using True by simp
  next
    case False
    show ?thesis
    proof (cases "user_ref s = None")
      case None: True
      then have "length (filter (\<lambda>s. user_ref s \<noteq> None) ss) \<le> count" using Cons.prems by simp
      from Cons.IH [OF this, of "Suc k"] None False show ?thesis
        unfolding shift by (simp add: count_down_def expiring_def)
    next
      case active: False
      then have "length (filter (\<lambda>s. user_ref s \<noteq> None) ss) \<le> count - 1" using Cons.prems by simp
      note IH = Cons.IH [OF this, of "Suc k"]
      obtain v where v: "user_ref s = Some v" using active by blast
      then have "count_down s = s\<lparr>expire_s := dec_size (expire_s s)\<rparr>" "expiring s \<longleftrightarrow> dec_size (expire_s s) = 0"
        by (simp_all add: count_down_def expiring_def)
      with IH v \<open>count \<noteq> 0\<close> show ?thesis unfolding shift by simp
    qed
  qed
qed simp

text \<open>The number of active sessions is at most \<open>last\<close>, so at most \<open>entries\<close>.\<close>

lemma active_le_last:
  assumes "\<forall>i < length ss. P (ss ! i) \<longrightarrow> i < (l::nat)"
  shows "length (filter P ss) \<le> l"
proof -
  have "\<not> P (ss ! (l + i))" if "i < length ss - l" for i using assms that by (metis less_diff_conv2 add.commute
        not_add_less1 less_diff_conv)
  then have "filter P (drop l ss) = []" by (auto simp: filter_empty_conv in_set_conv_nth)
  then have "filter P ss = filter P (take l ss)" by (metis append_Nil2 append_take_drop_id filter_append)
  also have "length \<dots> \<le> length (take l ss)" by (rule length_filter_le)
  finally show ?thesis by simp
qed

lemma decreasing_length: "sorted_wrt (>) (i # rest) \<Longrightarrow> length rest \<le> (i::nat)"
proof (induction rest arbitrary: i)
  case (Cons j rest)
  then have "j < i" "sorted_wrt (>) (j # rest)" by auto
  with Cons.IH [of j] show ?case by simp
qed simp

lemma close_expired:
  assumes "engine_inv e" "sorted_wrt (>) l" "\<forall>i \<in> set l. i < sm_capacity e \<and> user_ref (sessions e ! i) \<noteq> None"
  shows "\<exists>e'. close_expired l e = Inr e' \<and> engine_inv e' \<and> sm_capacity e' = sm_capacity e \<and>
    (\<forall>i < sm_capacity e. sessions e' ! i = (if i \<in> set l then closed (sessions e ! i) else sessions e ! i))"
  using assms
proof (induction l arbitrary: e)
  case Nil
  then show ?case by simp
next
  case (Cons i rest)
  have i: "i < sm_capacity e" "user_ref (sessions e ! i) \<noteq> None" using Cons.prems(3) by simp_all
  have il: "i < sm_last e" using Cons.prems(1) i by (simp add: engine_inv_def)
  then have "sm_last e < 2 ^ 64" "0 < sm_last e" using Cons.prems(1) by (auto simp: engine_inv_def)
  then have dec: "dec_size (sm_last e) = sm_last e - 1" by (intro dec_size_pos)
  from close_inv [OF Cons.prems(1) i] obtain e1 where e1: "close_session e i = Inr e1" "engine_inv e1"
    "sessions e1 = (sessions e)[i := closed (sessions e ! i)]" "sm_capacity e1 = sm_capacity e" "sm_last e1 = sm_last e"
    "i = sm_last e - 1 \<longrightarrow> engine_inv (e1\<lparr>sm_last := sm_last e - 1\<rparr>)" unfolding closed_def by blast
  define e2 where "e2 = (if length rest = dec_size (sm_last e1) then e1\<lparr>sm_last := dec_size (sm_last e1)\<rparr> else e1)"
  have inv2: "engine_inv e2"
  proof (cases "length rest = sm_last e - 1")
    case True
    have "length rest \<le> i" by (rule decreasing_length [OF Cons.prems(2)])
    with True il have "i = sm_last e - 1" by linarith
    with e1 dec show ?thesis by (simp add: e2_def)
  qed (use e1 dec in \<open>simp add: e2_def\<close>)
  have s2: "sessions e2 = (sessions e)[i := closed (sessions e ! i)]" "sm_capacity e2 = sm_capacity e"
    using e1 by (simp_all add: e2_def)
  have ir: "i \<notin> set rest" using Cons.prems(2) by auto
  have "sessions e2 ! j = sessions e ! j" if "j \<noteq> i" for j using that s2 by simp
  then have "\<forall>j \<in> set rest. j < sm_capacity e2 \<and> user_ref (sessions e2 ! j) \<noteq> None"
    using Cons.prems(3) ir s2(2) by (metis list.set_intros(2))
  moreover have "sorted_wrt (>) rest" using Cons.prems(2) by simp
  ultimately obtain e' where e': "close_expired rest e2 = Inr e'" "engine_inv e'" "sm_capacity e' = sm_capacity e2"
    "\<forall>j < sm_capacity e2. sessions e' ! j = (if j \<in> set rest then closed (sessions e2 ! j) else sessions e2 ! j)"
    using Cons.IH [OF inv2] by blast
  have "close_expired (i # rest) e = Inr e'"
    using e1(1) e'(1) Cons.prems(1) by (simp add: e2_def engine_inv_def)
  moreover have "i < length (sessions e)" using Cons.prems(1) i by (simp add: engine_inv_def)
  ultimately show ?case using e' s2 ir by (intro exI [of _ e']) (auto simp: nth_list_update)
qed

lemma count_down_simps [simp]:
  "user_ref (count_down s) = user_ref s" "sid (count_down s) = sid s" "closed s \<noteq> s \<or> user_ref s = None"
  by (auto simp: count_down_def closed_def dest: arg_cong [where f = user_ref])

lemma count_down_inv:
  assumes "engine_inv e"
  shows "engine_inv (e\<lparr>sessions := map count_down (sessions e)\<rparr>)"
proof -
  have "active_refs (map count_down (sessions e)) u = active_refs (sessions e) u" for u
    by (simp add: active_refs_def filter_map comp_def)
  with assms show ?thesis by (auto simp: engine_inv_def)
qed

lemma expire_spec:
  assumes inv: "engine_inv e"
  shows "\<exists>e'. expire_sessions e = Inr e' \<and> engine_inv e' \<and> sm_capacity e' = sm_capacity e \<and>
    (\<forall>i < sm_capacity e. sessions e' ! i =
      (if expiring (sessions e ! i) then closed (count_down (sessions e ! i)) else count_down (sessions e ! i)))"
proof -
  let ?ss = "sessions e"
  let ?ex = "filter (\<lambda>i. expiring (?ss ! i)) [0..<length ?ss]"
  let ?e = "e\<lparr>sessions := map count_down ?ss\<rparr>"
  have l: "length ?ss = sm_capacity e" "sm_last e \<le> sm_entries e" using inv by (simp_all add: engine_inv_def)
  have "length (filter (\<lambda>s. user_ref s \<noteq> None) ?ss) \<le> sm_last e"
    using inv l by (intro active_le_last) (simp add: engine_inv_def)
  with l have "scan_expired ?ss 0 (sm_entries e) = (map count_down ?ss, ?ex)" by (simp add: scan_expired)
  then have run: "expire_sessions e = close_expired (rev ?ex) ?e" using l by (simp add: expire_sessions_def)
  have "sorted_wrt (<) ?ex" by (rule sorted_wrt_filter) (simp add: sorted_wrt_upt)
  then have "sorted_wrt (>) (rev ?ex)" by (simp add: sorted_wrt_rev)
  moreover have "\<forall>i \<in> set (rev ?ex). i < sm_capacity ?e \<and> user_ref (sessions ?e ! i) \<noteq> None"
    using l by (auto simp: expiring_def)
  ultimately obtain e' where e': "close_expired (rev ?ex) ?e = Inr e'" "engine_inv e'" "sm_capacity e' = sm_capacity ?e"
    "\<forall>i < sm_capacity ?e. sessions e' ! i = (if i \<in> set (rev ?ex) then closed (sessions ?e ! i) else sessions ?e ! i)"
    using close_expired [OF count_down_inv [OF inv]] by blast
  then show ?thesis using run l by (intro exI [of _ e']) auto
qed

lemma write_users_inv:
  "engine_inv e \<Longrightarrow> write_users fuel e n = Inr (Some (e', m)) \<Longrightarrow> engine_inv e' \<and> sessions e' = sessions e"
proof (induction fuel e n rule: write_users.induct)
  case (1 e n)
  then show ?case by (simp split: if_splits)
next
  case (2 fuel e n)
  show ?case
  proof (cases "queue_empty (work e)")
    case False
    with "2.prems"(2) obtain p q where p: "queue_pop (work e) = Some (p, q)" by (auto split: option.splits)
    let ?u = "case p of None \<Rightarrow> 0 | Some i \<Rightarrow> i"
    let ?e = "e\<lparr>work := q, db_file := db_file e @ [users e ! ?u]\<rparr>"
    from "2.prems"(2) False p have w: "\<not> um_locked e" "\<not> length (users e) \<le> ?u" "write_users fuel ?e (n + 1) = Inr (Some (e', m))"
      by (auto simp: Let_def split: if_splits)
    have "engine_inv ?e" using "2.prems"(1) by (simp add: engine_inv_def)
    with "2.IH" [OF False p refl refl w(1,2)] w(3) show ?thesis by simp
  qed (use "2.prems" in simp)
qed

lemma cycle_inv:
  assumes "engine_inv e" "session_cycle e = Inr (Some e')"
  shows "engine_inv e'"
proof -
  from expire_spec [OF assms(1)] obtain e1 where e1: "expire_sessions e = Inr e1" "engine_inv e1" by blast
  with assms(2) obtain e2 n where w: "write_users (qsize (work e1)) e1 0 = Inr (Some (e2, n))"
    "e' = (if n > 0 then e2\<lparr>user_entries := user_entries e2 + n, meta_file := user_entries e2 + n\<rparr> else e2)"
    by (auto simp: session_cycle_def save_users_def bind_res_Inr split: option.splits)
  have "engine_inv e2" using write_users_inv [OF e1(2) w(1)] by blast
  with w(2) show ?thesis by (simp add: engine_inv_def)
qed

subsection \<open>Reachable states\<close>

text \<open>Calls and cycles in any order. A registration that would grow the array is not a step here (it
  is the subject of a property below), nor is one of a taken name, after which every call waits.\<close>

inductive engine_reachable :: "engine \<Rightarrow> bool" where
  start: "cap < 2 ^ 63 \<Longrightarrow> engine_reachable (http_session_engine_start cap None t)"
| register: "engine_reachable e \<Longrightarrow> um_entries e < um_capacity e \<Longrightarrow>
    http_session_register_user junk e nm pw = Inr (Some (e', True)) \<Longrightarrow> engine_reachable e'"
| login: "engine_reachable e \<Longrightarrow> uuid_ok uuid \<Longrightarrow> http_session_login_user uuid e nm pw = Inr (e', r) \<Longrightarrow>
    sm_capacity e' < 2 ^ 63 \<Longrightarrow> engine_reachable e'"
| logout: "engine_reachable e \<Longrightarrow> http_session_logout_user e raw = Inr e' \<Longrightarrow> engine_reachable e'"
| cycle: "engine_reachable e \<Longrightarrow> session_cycle e = Inr (Some e') \<Longrightarrow> engine_reachable e'"

lemma engine_reachable_inv: "engine_reachable e \<Longrightarrow> engine_inv e"
proof (induction rule: engine_reachable.induct)
  case (start cap t)
  then show ?case by (rule start_inv)
next
  case (register e junk nm pw e')
  then show ?case using register_inv by blast
next
  case (login e uuid nm pw e' r)
  then show ?case using login_inv by blast
next
  case (logout e raw e')
  then show ?case using logout_inv by blast
next
  case (cycle e e')
  then show ?case using cycle_inv by blast
qed

subsection \<open>A session and its cookie\<close>

lemma uuid_first: "uuid_ok t \<Longrightarrow> (t @ [nul]) ! 0 \<noteq> nul \<and> c_str (t @ [nul]) = Inr t"
proof -
  assume "uuid_ok t"
  then have t: "nul \<notin> set t" "t \<noteq> []" by (auto simp: uuid_ok_def id_size_def)
  then have "t ! 0 \<noteq> nul" by (metis length_greater_0_conv nth_mem)
  with t c_str_text [OF t(1), of "[]"] show ?thesis by (simp add: nth_append)
qed

text \<open>The session with a given id is found if no other has it.\<close>

lemma scan_sessions_found:
  assumes "\<forall>s \<in> set ss. sid_ok (sid s)" "i < length ss" "sid (ss ! i) = t @ [nul]" "uuid_ok t"
    "\<forall>j < length ss. j \<noteq> i \<longrightarrow> sid (ss ! j) \<noteq> t @ [nul]"
  shows "scan_sessions ss t k = Inr (Some (k + i))"
  using assms
proof (induction ss arbitrary: i k)
  case (Cons s ss)
  show ?case
  proof (cases i)
    case 0
    with Cons.prems uuid_first [of t] show ?thesis by simp
  next
    case (Suc j)
    have "sid s \<noteq> t @ [nul]" using Cons.prems(5) Suc by (metis length_greater_0_conv list.discI nat.distinct(1) nth_Cons_0)
    moreover have "sid_ok (sid s)" using Cons.prems(1) by simp
    ultimately have skip: "scan_sessions (s # ss) t k = scan_sessions ss t (Suc k)"
      using uuid_first by (auto simp: sid_ok_def id_size_def)
    have "\<forall>j' < length ss. j' \<noteq> j \<longrightarrow> sid (ss ! j') \<noteq> t @ [nul]"
      using Cons.prems(5) Suc by (metis Suc_less_eq length_Cons nat.inject nth_Cons_Suc)
    with Cons.IH [of j "Suc k"] Cons.prems Suc skip show ?thesis by simp
  qed
qed simp

lemma login_found:
  assumes inv: "engine_inv e" and uuid: "uuid_ok uuid" and fresh: "\<forall>s \<in> set (sessions e). sid s \<noteq> uuid @ [nul]"
    and run: "http_session_login_user uuid e nm pw = Inr (e', Some i)" and small: "sm_capacity e' < 2 ^ 63"
    and cookie: "http_get_cookie raw ''session_id'' = Some (uuid @ post)"
  shows "http_session_get e' raw = Inr (Some i) \<and> http_session_get_username e' i = Inr nm"
proof -
  from login_cases [OF inv uuid run small] obtain u e1 where c: "engine_inv e'" "e1 = e \<or> e1 = expand_sessions e"
    "engine_inv e1" "u < um_last e" "c_str (u_name (users e ! u)) = Inr nm" "u_name (users e' ! u) = u_name (users e ! u)"
    "i < length (sessions e1)"
    "sessions e' = (sessions e1)[i := \<lparr>sid = uuid @ [nul], expire_s = session_timeout e, user_ref = Some u\<rparr>]" by blast
  have "\<forall>s \<in> set (sessions e1). s \<in> set (sessions e) \<or> s = free_session"
    using c(2) by (auto simp: expand_sessions_def dest: in_set_takeD)
  moreover have "sid free_session \<noteq> uuid @ [nul]"
  proof
    assume "sid free_session = uuid @ [nul]"
    then have "(uuid @ [nul]) ! 0 = replicate id_size nul ! 0" by (simp add: free_session_def)
    with uuid_first [OF uuid] show False by (simp add: id_size_def)
  qed
  ultimately have other: "\<forall>s \<in> set (sessions e1). sid s \<noteq> uuid @ [nul]" using fresh by auto
  have len: "length (sessions e') = sm_capacity e'" using c(1) by (simp add: engine_inv_def)
  have "\<forall>j < length (sessions e'). j \<noteq> i \<longrightarrow> sid (sessions e' ! j) \<noteq> uuid @ [nul]" using other c(8) by simp
  moreover have "\<forall>s \<in> set (sessions e'). sid_ok (sid s)" using c(1) by (simp add: engine_inv_def)
  ultimately have found: "http_session_get_by_id e' uuid = Inr (Some i)"
    using scan_sessions_found [of "sessions e'" i uuid 0] c(7,8) uuid len by (simp add: http_session_get_by_id_def)
  have l: "length uuid = 36" "nul \<notin> set uuid" using uuid by (simp_all add: uuid_ok_def id_size_def)
  have "c_str (take 36 ((uuid @ post) @ [nul]) @ [nul]) = Inr uuid"
    using l c_str_text [OF l(2), of "[]"] by simp
  then have "http_session_get e' raw = Inr (Some i)"
    using cookie found l by (simp add: http_session_get_def id_size_def)
  moreover have "u < length (users e')" "\<not> um_locked e'"
  proof -
    have "sessions e' ! i \<in> set (sessions e')" "user_ref (sessions e' ! i) = Some u"
      using c(7,8) by (simp_all add: set_update_memI)
    then show "u < length (users e')" "\<not> um_locked e'" using c(1) unfolding engine_inv_def by force+
  qed
  ultimately show ?thesis using c(5-8) by (simp add: http_session_get_username_def)
qed

lemma set_cookie_header:
  assumes "i < length (sessions e)" "sid (sessions e ! i) = uuid @ [nul]" "uuid_ok uuid"
  shows "http_session_set_cookie e i r = http_add_header_entry r ''Set-Cookie'' (''session_id='' @ uuid)"
proof -
  have u: "length uuid = 36" "nul \<notin> set uuid" using assms(3) by (simp_all add: uuid_ok_def id_size_def)
  have ident: "http_session_get_id e i = Inr (uuid @ [nul])"
    using assms(1,2) u by (simp add: http_session_get_id_def id_size_def)
  obtain b where b: "put_at (replicate 256 None) id_size (map Some (cookie_flags @ [nul])) = Inr b" "length b = 256"
    using put_at_ok [of id_size "map Some (cookie_flags @ [nul])" "replicate 256 None"]
      put_at_length [of "replicate 256 None" id_size "map Some (cookie_flags @ [nul])"]
    by (simp add: id_size_def cookie_flags_def)
  have p: "put_at b 0 (map Some (uuid @ [nul])) = Inr (map Some (uuid @ [nul]) @ drop 37 b)"
    using b(2) u(1) by (simp add: put_at_def)
  have "http_session_set_cookie e i r = http_set_cookie r ''session_id'' uuid"
    unfolding http_session_set_cookie_def ident bind_res_simps b(1) p read_str_text [OF u(2)] ..
  also have "\<dots> = http_add_header_entry r ''Set-Cookie'' (''session_id'' @ ''='' @ uuid)"
    using u(2) by (intro set_cookie_entry) (simp_all add: nul_def)
  finally show ?thesis by simp
qed

subsection \<open>Registering, then logging in\<close>

lemma scan_users_None:
  "scan_users us nm k = Inr None \<Longrightarrow> u \<in> set us \<Longrightarrow> \<exists>s. c_str (u_name u) = Inr s \<and> s \<noteq> nm"
  by (induction us arbitrary: k) (auto simp: bind_res_Inr split: if_splits)

lemma scan_users_found:
  assumes "\<forall>j < i. \<exists>s. c_str (u_name (us ! j)) = Inr s \<and> s \<noteq> nm" "i < length us" "c_str (u_name (us ! i)) = Inr nm"
  shows "scan_users us nm k = Inr (Some (k + i))"
  using assms
proof (induction us arbitrary: i k)
  case (Cons u us)
  show ?case
  proof (cases i)
    case 0
    with Cons.prems show ?thesis by simp
  next
    case (Suc j)
    have "\<forall>j' < j. \<exists>s. c_str (u_name (us ! j')) = Inr s \<and> s \<noteq> nm"
      using Cons.prems(1) Suc by (metis Suc_less_eq nth_Cons_Suc)
    with Cons.IH [of j "Suc k"] Cons.prems Suc have "scan_users us nm (Suc k) = Inr (Some (k + i))" by simp
    moreover obtain s where "c_str (u_name u) = Inr s" "s \<noteq> nm" using Cons.prems(1) Suc by (metis nth_Cons_0 zero_less_Suc)
    ultimately show ?thesis by simp
  qed
qed simp

definition field_ok :: "string \<Rightarrow> bool" where
  "field_ok s \<longleftrightarrow> length s < name_size \<and> nul \<notin> set s"

lemma strncpy_c_str: "field_ok s \<Longrightarrow> c_str (strncpy name_size s) = Inr s"
proof -
  assume s: "field_ok s"
  then have "strncpy name_size s = s @ nul # replicate (name_size - length s - 1) nul"
    by (simp add: strncpy_def field_ok_def replicate_Suc [symmetric] Suc_diff_Suc del: replicate_Suc)
  with s show ?thesis by (simp add: c_str_text field_ok_def)
qed

lemma register_found:
  assumes inv: "engine_inv e" and room: "um_entries e < um_capacity e" and new: "user_get e nm False = Inr None"
    and ok: "field_ok nm" "field_ok pw"
    and run: "http_session_register_user junk e nm pw = Inr (Some (e', r))"
  shows "r \<and> engine_inv e' \<and> (\<exists>u. user_get e' nm True = Inr (Some u) \<and> c_str (u_password (users e' ! u)) = Inr pw)"
proof -
  let ?us = "take (um_last e) (users e)"
  let ?i = "first_index (\<lambda>u. u_name u ! 0 = nul) ?us"
  let ?u = "(users e ! ?i)\<lparr>u_name := strncpy name_size nm, u_password := strncpy name_size pw\<rparr>"
  obtain q where e': "e' = e\<lparr>um_last := (if ?i = um_last e then um_last e + 1 else um_last e),
      um_entries := um_entries e + 1, users := (users e)[?i := ?u], work := q\<rparr>" and r: r
    using run room inv new
    by (auto simp: http_session_register_user_def engine_inv_def bind_res_Inr Let_def split: if_splits)
  have l: "length ?us = um_last e" "um_last e < length (users e)" using inv room by (auto simp: engine_inv_def)
  have i: "?i \<le> um_last e" using first_index_le [of "\<lambda>u. u_name u ! 0 = nul" ?us] l(1) by simp
  have scan: "scan_users ?us nm 0 = Inr None" using new by (simp add: user_get_def)
  have other: "\<exists>s. c_str (u_name (users e ! j)) = Inr s \<and> s \<noteq> nm" if "j < um_last e" for j
  proof -
    have "?us ! j = users e ! j" "?us ! j \<in> set ?us" using that l by (simp, metis nth_mem)
    with scan_users_None [OF scan] show ?thesis by metis
  qed
  have "http_session_register_user junk e nm pw = Inr (Some (e', True))" using run r by simp
  then have inv': "engine_inv e'" by (rule register_inv [OF inv room])
  let ?us' = "take (um_last e') (users e')"
  have il: "?i < um_last e'" "?i < length (users e)" using i l by (auto simp: e')
  have l': "um_last e' \<le> length (users e')" using inv' by (simp add: engine_inv_def)
  have at: "?us' ! ?i = ?u" using il l' by (simp add: e')
  have "\<forall>j < ?i. \<exists>s. c_str (u_name (?us' ! j)) = Inr s \<and> s \<noteq> nm"
    using other i il by (auto simp: e')
  then have "scan_users ?us' nm 0 = Inr (Some (0 + ?i))"
    using il l' at strncpy_c_str [OF ok(1)] by (intro scan_users_found) auto
  then have "user_get e' nm True = Inr (Some ?i)" using inv' by (simp add: user_get_def engine_inv_def)
  moreover have "c_str (u_password (users e' ! ?i)) = Inr pw" using il strncpy_c_str [OF ok(2)] by (simp add: e')
  ultimately show ?thesis using r inv' by blast
qed

lemma login_accepts:
  assumes inv: "engine_inv e" and u: "user_get e nm True = Inr (Some u)" and pw: "c_str (u_password (users e ! u)) = Inr pw"
  shows "\<exists>e' i. http_session_login_user uuid e nm pw = Inr (e', Some i)"
proof -
  have "first_index (\<lambda>s. user_ref s = None) (take (sm_last e) (sessions e)) \<le> sm_last e"
    using first_index_le [of "\<lambda>s. user_ref s = None" "take (sm_last e) (sessions e)"] by simp
  moreover have "u < length (users e)" using user_get_Some [OF inv u] inv by (auto simp: engine_inv_def)
  ultimately show ?thesis using inv u pw
    by (auto simp: http_session_login_user_def engine_inv_def add_ref_def expand_sessions_def Let_def)
qed

lemma login_refuses:
  assumes "user_get e nm True = Inr (Some u)" "c_str (u_password (users e ! u)) = Inr pw" "pw' \<noteq> pw"
  shows "http_session_login_user uuid e nm pw' = Inr (e, None)"
  using assms by (simp add: http_session_login_user_def)

subsection \<open>The queue of new users\<close>

fun push_ptrs :: "'a queue_t \<Rightarrow> 'a option list \<Rightarrow> 'a queue_t option" where
  "push_ptrs q [] = Some q"
| "push_ptrs q (p # ps) = (case queue_push q p of None \<Rightarrow> None | Some q' \<Rightarrow> push_ptrs q' ps)"

lemma push_ptrs_append:
  "push_ptrs q (ps @ [p]) = (case push_ptrs q ps of None \<Rightarrow> None | Some q' \<Rightarrow> queue_push q' p)"
  by (induction ps arbitrary: q) (auto split: option.splits)

lemma push_users:
  "i \<le> n \<Longrightarrow> 0 < n \<Longrightarrow> push_ptrs (queue_create n) (map user_ptr [0..<i]) =
     Some \<lparr>alive = True, head = 0, tail = i mod n, qsize = n, pending = 0,
       array = map user_ptr [0..<i] @ replicate (n - i) None\<rparr>"
proof (induction i)
  case 0
  then show ?case by (simp add: queue_create_def)
next
  case (Suc i)
  let ?q = "\<lparr>alive = True, head = 0, tail = i mod n, qsize = n, pending = 0,
       array = map user_ptr [0..<i] @ replicate (n - i) None\<rparr>"
  have i: "i < n" "i mod n = i" using Suc by simp_all
  have "\<not> push_blocked ?q" using i by (cases i) (simp_all add: push_blocked_def)
  moreover have "(map user_ptr [0..<i] @ replicate (n - i) None)[i := user_ptr i] =
      map user_ptr [0..<Suc i] @ replicate (n - Suc i) None"
    using i by (cases "n - i") (auto simp: list_update_append diff_Suc split: nat.splits)
  moreover have "ring_next ?q i = Suc i mod n" using i by (cases "Suc i = n") (auto simp: ring_next_def)
  ultimately have "queue_push ?q (user_ptr i) = Some \<lparr>alive = True, head = 0, tail = Suc i mod n, qsize = n, pending = 0,
       array = map user_ptr [0..<Suc i] @ replicate (n - Suc i) None\<rparr>"
    unfolding queue_push_def push_put_def using i(2) by simp
  with Suc.IH Suc.prems show ?case by (simp add: push_ptrs_append)
qed

lemma push_full:
  assumes "2 \<le> n"
  shows "push_ptrs (queue_create n) (map user_ptr [0..<Suc n]) =
    Some \<lparr>alive = True, head = 0, tail = 1, qsize = n, pending = 0, array = (map user_ptr [0..<n])[0 := Some n]\<rparr>"
proof -
  let ?q = "\<lparr>alive = True, head = 0, tail = 0, qsize = n, pending = 0, array = map user_ptr [0..<n]\<rparr>"
  have all: "push_ptrs (queue_create n) (map user_ptr [0..<n]) = Some ?q" using push_users [of n n] assms by simp
  have "array ?q ! 0 = None" using assms by (simp add: user_ptr_def)
  then have "queue_push ?q (user_ptr n) =
      Some \<lparr>alive = True, head = 0, tail = 1, qsize = n, pending = 0, array = (map user_ptr [0..<n])[0 := Some n]\<rparr>"
    using assms by (simp add: queue_push_def push_put_def push_blocked_def ring_next_def user_ptr_def)
  moreover have "map user_ptr [0..<Suc n] = map user_ptr [0..<n] @ [user_ptr n]" by simp
  ultimately show ?thesis using all by (simp only: push_ptrs_append option.case)
qed

lemma write_users_empty: "queue_empty (work e) \<Longrightarrow> write_users fuel e n = Inr (Some (e, n))"
  by (cases fuel) simp_all


text \<open>A queue of new users that is not full is emptied in order.\<close>

lemma write_users_all:
  assumes "queue_ok (work e)" "contents (work e) = us" "length us < qsize (work e)" "length us \<le> fuel"
    "\<not> um_locked e" "\<forall>u \<in> set us. u < length (users e)"
  shows "\<exists>q. write_users fuel e n =
      Inr (Some (e\<lparr>work := q, db_file := db_file e @ map (\<lambda>u. users e ! u) us\<rparr>, n + length us)) \<and>
    queue_ok q \<and> contents q = []"
  using assms
proof (induction us arbitrary: fuel e n)
  case Nil
  then have "queue_empty (work e)" using head_eq_tail [of "work e"] by (simp add: queue_ok_def queue_empty_def)
  with Nil show ?case by (intro exI [of _ "work e"]) (simp add: write_users_empty)
next
  case (Cons u us)
  have inv: "ring_inv (work e)" "alive (work e)" using Cons.prems(1) by (simp_all add: queue_ok_def)
  have busy: "\<not> queue_empty (work e)" "\<not> pop_blocked (work e)"
    using head_eq_tail [OF inv(1)] pop_blocked_iff [OF inv(1)] Cons.prems(2,3) by (auto simp: queue_empty_def)
  let ?q = "snd (pop_take (work e))"
  note take = pop_take_spec [OF inv(1) Cons.prems(2)]
  have pop: "queue_pop (work e) = Some (Some u, ?q)"
    using inv busy take(1) by (cases "pop_take (work e)") (simp add: queue_pop_def)
  let ?e = "e\<lparr>work := ?q, db_file := db_file e @ [users e ! u]\<rparr>"
  obtain f where f: "fuel = Suc f" "length us \<le> f" using Cons.prems(4) by (cases fuel) auto
  have "queue_ok (work ?e)" "contents (work ?e) = us" "length us < qsize (work ?e)"
    using inv take(2) Cons.prems(3) by (simp_all add: queue_ok_def)
  then obtain q where q: "write_users f ?e (n + 1) =
      Inr (Some (?e\<lparr>work := q, db_file := db_file ?e @ map (\<lambda>u. users ?e ! u) us\<rparr>, n + 1 + length us))"
    "queue_ok q" "contents q = []" using Cons.IH [of ?e f "n + 1"] f(2) Cons.prems(5,6) by auto
  have "write_users fuel e n = write_users f ?e (n + 1)"
    using f pop busy Cons.prems(5,6) by simp
  with q show ?case by (intro exI [of _ q]) simp
qed

lemma login_text:
  assumes inv: "engine_inv e" and uuid: "uuid_ok uuid"
    and run: "http_session_login_user uuid e nm pw = Inr (e', Some i)" and small: "sm_capacity e' < 2 ^ 63"
  shows "i < length (sessions e') \<and> sid (sessions e' ! i) = uuid @ [nul]"
  using login_cases [OF assms] by auto

lemma register_returns:
  assumes inv: "engine_inv e" and room: "um_entries e < um_capacity e" and new: "user_get e nm False = Inr None"
    and queue: "alive (work e)" "\<not> push_blocked (work e)"
  shows "\<exists>e'. http_session_register_user junk e nm pw = Inr (Some (e', True))"
proof -
  have "first_index (\<lambda>u. u_name u ! 0 = nul) (take (um_last e) (users e)) < length (users e)"
    using first_index_le [of "\<lambda>u. u_name u ! 0 = nul" "take (um_last e) (users e)"] inv room
    by (auto simp: engine_inv_def)
  with inv room new queue show ?thesis
    by (auto simp: http_session_register_user_def queue_push_def Let_def engine_inv_def)
qed

lemma start_empty:
  "user_get (http_session_engine_start (Suc n) None t) nm False = Inr None"
  "um_entries (http_session_engine_start (Suc n) None t) < um_capacity (http_session_engine_start (Suc n) None t)"
  "alive (work (http_session_engine_start (Suc n) None t))"
  "\<not> push_blocked (work (http_session_engine_start (Suc n) None t))"
  by (simp_all add: http_session_engine_start_def load_user_db_def user_get_def queue_create_def push_blocked_def)

text \<open>Values for the witnesses: a server on which one user has registered and logs in.\<close>

definition demo_uuid :: string where
  "demo_uuid = replicate 36 CHR ''a''"

lemma demo_uuid_ok: "uuid_ok demo_uuid"
  by (simp add: demo_uuid_def uuid_ok_def id_size_def nul_def)

lemma demo_login:
  "\<exists>e e' i. engine_reachable e \<and> (\<forall>s \<in> set (sessions e). sid s \<noteq> demo_uuid @ [nul]) \<and>
     http_session_login_user demo_uuid e ''bob'' ''pw'' = Inr (e', Some i) \<and> sm_capacity e' < 2 ^ 63"
proof -
  let ?e = "http_session_engine_start (Suc 1) None 0"
  have r: "engine_reachable ?e" by (rule engine_reachable.start) simp
  note inv = engine_reachable_inv [OF r]
  from register_returns [OF inv start_empty(2,1,3,4)] obtain e where
    run: "http_session_register_user zero_user ?e ''bob'' ''pw'' = Inr (Some (e, True))" by blast
  have e: "engine_reachable e" by (rule engine_reachable.register [OF r start_empty(2) run])
  have ok: "field_ok ''bob''" "field_ok ''pw''" by (simp_all add: field_ok_def name_size_def nul_def)
  from register_found [OF inv start_empty(2,1) ok run] obtain u where
    u: "engine_inv e" "user_get e ''bob'' True = Inr (Some u)" "c_str (u_password (users e ! u)) = Inr ''pw''" by blast
  from login_accepts [OF u] obtain e' i where
    l: "http_session_login_user demo_uuid e ''bob'' ''pw'' = Inr (e', Some i)" by blast
  have s: "sessions e = replicate (Suc 1) free_session" "sm_capacity e = Suc 1"
    using run by (auto simp: http_session_register_user_def bind_res_Inr http_session_engine_start_def load_user_db_def
        Let_def split: if_splits)
  have "sm_capacity e' \<le> sm_capacity e * 2"
    using l by (auto simp: http_session_login_user_def bind_res_Inr add_ref_def expand_sessions_def Let_def
        split: if_splits option.splits)
  moreover have "replicate id_size nul \<noteq> demo_uuid @ [nul]"
    using uuid_first [OF demo_uuid_ok] by (metis id_size_def nth_replicate zero_less_numeral)
  ultimately show ?thesis using e l s by (intro exI [of _ e] exI [of _ e'] exI [of _ i]) (simp add: free_session_def)
qed

subsection \<open>Properties\<close>



text \<open>One cycle of the session task closes exactly the active sessions whose countdown reaches zero,
  counts the others down by one, and touches no free slot.\<close>

theorem sessions_expire:
  assumes "engine_reachable e"
  shows "\<exists>e'. expire_sessions e = Inr e' \<and> engine_inv e' \<and> sm_capacity e' = sm_capacity e \<and>
    (\<forall>i < sm_capacity e. sessions e' ! i =
      (case user_ref (sessions e ! i) of
         None \<Rightarrow> sessions e ! i
       | Some u \<Rightarrow> let s = (sessions e ! i)\<lparr>expire_s := dec_size (expire_s (sessions e ! i))\<rparr>
           in if expire_s s = 0 then s\<lparr>sid := replicate id_size nul, user_ref := None\<rparr> else s))"
proof -
  from expire_spec [OF engine_reachable_inv [OF assms]] obtain e' where e': "expire_sessions e = Inr e'" "engine_inv e'"
    "sm_capacity e' = sm_capacity e"
    "\<forall>i < sm_capacity e. sessions e' ! i =
      (if expiring (sessions e ! i) then closed (count_down (sessions e ! i)) else count_down (sessions e ! i))"
    by blast
  then show ?thesis
    by (intro exI [of _ e']) (auto simp: expiring_def count_down_def closed_def Let_def split: option.split)
qed

theorem sessions_expire_witness:
  "\<exists>e'. expire_sessions (http_session_engine_start 1 None 0) = Inr e' \<and> sessions e' ! 0 = free_session"
  using sessions_expire [OF engine_reachable.start [of 1 0]]
  by (auto simp: http_session_engine_start_def load_user_db_def free_session_def)

text \<open>Registering a taken name leaves the write lock of the users held: the call answers false and from
  then on every registration, login and user name lookup waits for ever.\<close>

theorem duplicate_register_deadlocks:
  assumes "\<not> um_locked e" "user_get e nm False = Inr (Some u)"
  shows "http_session_register_user junk e nm pw = Inr (Some (e\<lparr>um_locked := True\<rparr>, False)) \<and>
    http_session_register_user junk (e\<lparr>um_locked := True\<rparr>) nm' pw' = Inl DeadLock \<and>
    http_session_login_user uuid (e\<lparr>um_locked := True\<rparr>) nm' pw' = Inl DeadLock \<and>
    http_session_get_username (e\<lparr>um_locked := True\<rparr>) s = Inl DeadLock"
  using assms by (simp add: http_session_register_user_def http_session_login_user_def
      http_session_get_username_def user_get_def)

theorem duplicate_register_deadlocks_witness:
  "http_session_login_user ''0'' ((http_session_engine_start 1 None 0)\<lparr>um_last := 1,
      users := [zero_user\<lparr>u_name := ''bob'' @ [nul]\<rparr>], um_locked := True\<rparr>) ''bob'' ''x'' = Inl DeadLock"
  using duplicate_register_deadlocks [of "(http_session_engine_start 1 None 0)\<lparr>um_last := 1,
      users := [zero_user\<lparr>u_name := ''bob'' @ [nul]\<rparr>]\<rparr>" "''bob''" 0 zero_user "''x''" "''bob''" "''x''" "''0''" 0]
  by (simp add: http_session_engine_start_def load_user_db_def user_get_def c_str_def nul_def)

text \<open>When the array of users is full it is doubled, but the \<open>memset\<close> of the new half counts from the
  last session instead of the last user: the registration writes past the block exactly when there are
  fewer session slots in use than users, or more than the doubled array has.\<close>

theorem register_grow_overflow:
  assumes "engine_inv e" "um_entries e = um_capacity e" "um_last e = um_capacity e" "0 < um_capacity e"
    "user_get e nm False = Inr None"
  shows "http_session_register_user junk e nm pw = Inl OutOfBounds \<longleftrightarrow>
    sm_last e < um_last e \<or> 2 * um_capacity e < sm_last e"
proof -
  let ?arr = "users e @ replicate (um_capacity e * 2 - length (users e)) junk"
  have l: "length (users e) = um_capacity e" "\<not> um_locked e" using assms(1) by (simp_all add: engine_inv_def)
  show ?thesis
  proof (cases "sm_last e < um_last e \<or> 2 * um_capacity e < sm_last e")
    case True
    then have "expand_users junk e = Inl OutOfBounds"
      using l assms(3) by (auto simp: expand_users_def put_at_def Let_def)
    with True l assms show ?thesis by (simp add: http_session_register_user_def)
  next
    case False
    then have fits: "um_last e + length (replicate (um_capacity e * 2 - sm_last e) zero_user) \<le> length ?arr"
      using False l assms(3) by auto
    from put_at_ok [OF this] obtain us where
      us: "put_at ?arr (um_last e) (replicate (um_capacity e * 2 - sm_last e) zero_user) = Inr us" by blast
    from put_at_length [OF this] l have "length us = um_capacity e * 2" by simp
    note us = us this
    with False l assms show ?thesis by (auto simp: http_session_register_user_def expand_users_def Let_def us)
  qed
qed

theorem register_grow_overflow_witness:
  "http_session_register_user zero_user ((http_session_engine_start 1 None 0)\<lparr>um_last := 1, um_entries := 1,
      users := [zero_user\<lparr>u_name := ''bob'' @ [nul]\<rparr>]\<rparr>) ''al'' ''x'' = Inl OutOfBounds"
  by (subst register_grow_overflow)
    (simp_all add: http_session_engine_start_def load_user_db_def user_get_def c_str_def nul_def engine_inv_def
      free_session_def sid_ok_def zero_user_def active_refs_def)

text \<open>Property C16. A login leads back to its user: a later request whose \<open>session_id\<close> cookie is the
  uuid of the login, a fresh one, finds the session, and the session names the user that logged in.\<close>

theorem login_identifies_user:
  assumes "engine_reachable e" "uuid_ok uuid" "\<forall>s \<in> set (sessions e). sid s \<noteq> uuid @ [nul]"
    "http_session_login_user uuid e nm pw = Inr (e', Some i)" "sm_capacity e' < 2 ^ 63"
    "http_get_cookie raw ''session_id'' = Some (uuid @ post)"
  shows "http_session_get e' raw = Inr (Some i) \<and> http_session_get_username e' i = Inr nm"
  by (rule login_found [OF engine_reachable_inv [OF assms(1)] assms(2-6)])

theorem login_identifies_user_witness:
  "\<exists>e' i. http_session_get e' (''Cookie: session_id='' @ demo_uuid) = Inr (Some i) \<and>
     http_session_get_username e' i = Inr ''bob''"
proof -
  obtain e e' i where e: "engine_reachable e" "\<forall>s \<in> set (sessions e). sid s \<noteq> demo_uuid @ [nul]"
    "http_session_login_user demo_uuid e ''bob'' ''pw'' = Inr (e', Some i)" "sm_capacity e' < 2 ^ 63"
    using demo_login by blast
  have "http_get_cookie (''Cookie: session_id='' @ demo_uuid) ''session_id'' = Some (demo_uuid @ [])"
    by (simp add: get_cookie_strstr)
  from login_identifies_user [OF e(1) demo_uuid_ok e(2-4) this] show ?thesis by blast
qed

text \<open>After a registration with room in the array, the name logs in with the password it
  registered and with no other; names and passwords are shorter than their arrays.\<close>

theorem registered_user_logs_in:
  assumes "engine_reachable e" "um_entries e < um_capacity e" "user_get e nm False = Inr None"
    "alive (work e)" "\<not> push_blocked (work e)" "field_ok nm" "field_ok pw"
  shows "\<exists>e'. http_session_register_user junk e nm pw = Inr (Some (e', True)) \<and>
    (\<exists>e'' i. http_session_login_user uuid e' nm pw = Inr (e'', Some i)) \<and>
    (\<forall>pw'. pw' \<noteq> pw \<longrightarrow> http_session_login_user uuid e' nm pw' = Inr (e', None))"
proof -
  note inv = engine_reachable_inv [OF assms(1)]
  obtain e' where run: "http_session_register_user junk e nm pw = Inr (Some (e', True))"
    using register_returns [OF inv assms(2-5)] by blast
  from register_found [OF inv assms(2,3,6,7) run] obtain u where u: "engine_inv e'" "user_get e' nm True = Inr (Some u)"
    "c_str (u_password (users e' ! u)) = Inr pw" by blast
  with run login_accepts [OF u] login_refuses [OF u(2,3)] show ?thesis by blast
qed

theorem registered_user_logs_in_witness:
  "\<exists>e' e'' i. http_session_register_user zero_user (http_session_engine_start (Suc 1) None 0) ''bob'' ''pw'' =
      Inr (Some (e', True)) \<and>
    http_session_login_user (replicate 36 CHR ''a'') e' ''bob'' ''pw'' = Inr (e'', Some i)"
  using registered_user_logs_in [of "http_session_engine_start (Suc 1) None 0" "''bob''" "''pw''"
      zero_user "replicate 36 CHR ''a''"] engine_reachable.start [of "Suc 1" 0] start_empty [of 1 0]
  by (auto simp: field_ok_def name_size_def nul_def)

text \<open>The cookie of a new session carries its uuid only: \<open>HttpOnly\<close>, \<open>Secure\<close> and \<open>SameSite=Strict\<close>
  are copied behind the NUL of the id and never sent.\<close>

theorem cookie_flags_lost:
  assumes "engine_reachable e" "uuid_ok uuid" "http_session_login_user uuid e nm pw = Inr (e', Some i)"
    "sm_capacity e' < 2 ^ 63"
  shows "http_session_set_cookie e' i r = http_add_header_entry r ''Set-Cookie'' (''session_id='' @ uuid)"
  using login_text [OF engine_reachable_inv [OF assms(1)] assms(2-4)] set_cookie_header [of i e' uuid r] assms(2) by simp

theorem cookie_flags_lost_witness:
  "\<exists>e' i. http_session_set_cookie e' i new_response =
     http_add_header_entry new_response ''Set-Cookie'' (''session_id='' @ demo_uuid)"
proof -
  obtain e e' i where e: "engine_reachable e"
    "http_session_login_user demo_uuid e ''bob'' ''pw'' = Inr (e', Some i)" "sm_capacity e' < 2 ^ 63"
    using demo_login by blast
  from cookie_flags_lost [OF e(1) demo_uuid_ok e(2,3)] show ?thesis by blast
qed

text \<open>The session task appends the users that wait in the queue to the database, in the order of their
  registration, and counts them in the meta file; but if the queue is full it takes it for empty, writes
  nothing and leaves it full, so every later registration waits for ever.\<close>

theorem users_saved:
  assumes "queue_ok (work e)" "\<not> um_locked e" "\<forall>u \<in> set (contents (work e)). u < length (users e)"
  shows "if length (contents (work e)) = qsize (work e)
    then save_users e = Inr (Some e) \<and> (\<forall>u. queue_push (work e) u = None)
    else \<exists>e'. save_users e = Inr (Some e') \<and> contents (work e') = [] \<and>
      db_file e' = db_file e @ map (\<lambda>u. users e ! u) (contents (work e)) \<and>
      user_entries e' = user_entries e + length (contents (work e))"
proof (cases "length (contents (work e)) = qsize (work e)")
  case True
  have inv: "ring_inv (work e)" "alive (work e)" using assms(1) by (simp_all add: queue_ok_def)
  then have "queue_empty (work e)" using head_eq_tail [OF inv(1)] True by (simp add: queue_empty_def)
  then have "save_users e = Inr (Some e)" by (simp add: save_users_def write_users_empty)
  with True inv push_blocked_iff [OF inv(1)] show ?thesis by (simp add: queue_push_def)
next
  case False
  let ?us = "contents (work e)"
  have "length ?us < qsize (work e)" using contents_le_qsize [of "work e"] False assms(1) by (simp add: queue_ok_def)
  then obtain q where q: "write_users (qsize (work e)) e 0 =
      Inr (Some (e\<lparr>work := q, db_file := db_file e @ map (\<lambda>u. users e ! u) ?us\<rparr>, length ?us))" "contents q = []"
    using write_users_all [OF assms(1) refl _ _ assms(2,3), of "qsize (work e)" 0] by auto
  with False show ?thesis by (simp add: save_users_def)
qed

theorem users_saved_witness:
  "\<exists>e'. save_users (http_session_engine_start (Suc 1) None 0) = Inr (Some e') \<and> user_entries e' = 0"
  using users_saved [of "http_session_engine_start (Suc 1) None 0"]
  by (auto simp: http_session_engine_start_def load_user_db_def)

end
