(* ===== verification/SessionTask.thy ===== *)
theory SessionTask
  imports Session
begin

section \<open>The session task and the files of users (http_libs/http_session.c)\<close>

text \<open>
  \<open>session_task\<close> sleeps 50 ms a turn and works in every twentieth. It reads \<open>session_manager.running\<close> twice a turn,
  in the \<open>while\<close> and before it saves: the readings are its input. Between two turns other threads may change the engine.
  What it leaves in the files is what the next start loads.
\<close>

subsection \<open>Turns\<close>

text \<open>A turn from the counter and the engine; \<open>running\<close> is the second reading.\<close>

definition session_turn :: "bool \<Rightarrow> nat \<times> engine \<Rightarrow> (nat \<times> engine) option res" where
  "session_turn running st =
     (let c = (if fst st = 0 then 20 else fst st) - 1 in
      bind_res (if c = 0 then expire_sessions (snd st) else Inr (snd st)) (\<lambda>e.
        if \<not> running \<or> c = 0 then bind_res (save_users e) (\<lambda>r. Inr (map_option (Pair c) r))
        else Inr (Some (c, e))))"

text \<open>The turns with the given pairs of readings. The first result is whether the task has returned; \<open>None\<close>: it waits in \<open>pop\<close>.\<close>

fun session_task :: "(bool \<times> bool) list \<Rightarrow> nat \<times> engine \<Rightarrow> (bool \<times> nat \<times> engine) option res" where
  "session_task [] st = Inr (Some (False, st))"
| "session_task ((again, running) # rs) st =
     (if \<not> again then Inr (Some (True, st))
      else bind_res (session_turn running st) (\<lambda>r. case r of
        None \<Rightarrow> Inr None
      | Some st' \<Rightarrow> session_task rs st'))"

lemma quiet_turn: "c \<noteq> 1 \<Longrightarrow> session_turn True (c, e) = Inr (Some ((if c = 0 then 20 else c) - 1, e))"
  by (simp add: session_turn_def)

lemma working_turn: "session_turn running (1, e) = bind_res (session_cycle e) (\<lambda>r. Inr (map_option (Pair 0) r))"
  by (simp add: session_turn_def session_cycle_def bind_res_def split: sum.splits)

lemma stopping_turn: "c \<noteq> 1 \<Longrightarrow>
    session_turn False (c, e) = bind_res (save_users e) (\<lambda>r. Inr (map_option (Pair ((if c = 0 then 20 else c) - 1)) r))"
  by (simp add: session_turn_def)

lemma session_task_append:
  "\<forall>r \<in> set rs. fst r \<Longrightarrow> session_task (rs @ rs') st =
     bind_res (session_task rs st) (\<lambda>r. case r of None \<Rightarrow> Inr None | Some (_, st') \<Rightarrow> session_task rs' st')"
proof (induction rs arbitrary: st)
  case (Cons r rs)
  show ?case
  proof (cases "session_turn (snd r) st")
    case (Inr x)
    with Cons show ?thesis by (cases r, cases x) auto
  qed (use Cons in \<open>cases r, auto\<close>)
qed (cases st, simp)

lemma quiet_turns: "0 < k \<Longrightarrow> k < 20 \<Longrightarrow> session_task (replicate k (True, True)) (0, e) = Inr (Some (False, 20 - k, e))"
proof (induction k)
  case (Suc k)
  have app: "replicate (Suc k) (True, True) = replicate k (True, True) @ [(True, True)]" by (simp add: replicate_append_same)
  show ?case
  proof (cases "k = 0")
    case True
    then show ?thesis by (simp add: quiet_turn)
  next
    case False
    with Suc.IH Suc.prems have "session_task (replicate k (True, True)) (0, e) = Inr (Some (False, 20 - k, e))" by simp
    moreover have "session_turn True (20 - k, e) = Inr (Some (20 - Suc k, e))"
      using Suc.prems by (subst quiet_turn) auto
    ultimately show ?thesis unfolding app by (subst session_task_append) simp_all
  qed
qed simp

text \<open>Property C28. In twenty turns without another call the session task does one \<open>session_cycle\<close>, in the last of them; the
  others change nothing.\<close>

theorem task_second_is_cycle:
  "session_task (replicate 20 (True, True)) (0, e) =
     bind_res (session_cycle e) (\<lambda>r. Inr (map_option (\<lambda>e'. (False, 0, e')) r)) \<and>
   (0 < k \<and> k < 20 \<longrightarrow> session_task (replicate k (True, True)) (0, e) = Inr (Some (False, 20 - k, e)))"
proof (intro conjI impI)
  have "session_task (replicate 19 (True, True)) (0, e) = Inr (Some (False, 1, e))"
    using quiet_turns [of 19 e] by simp
  moreover have "replicate 20 (True, True) = replicate 19 (True, True) @ [(True, True)]"
    by (simp add: numeral_eq_Suc)
  ultimately show "session_task (replicate 20 (True, True)) (0, e) =
     bind_res (session_cycle e) (\<lambda>r. Inr (map_option (\<lambda>e'. (False, 0, e')) r))"
    by (simp add: session_task_append working_turn [unfolded One_nat_def])
      (cases "session_cycle e", auto split: option.splits)
qed (use quiet_turns in blast)

theorem task_second_is_cycle_witness:
  "session_task (replicate 7 (True, True)) (0, http_session_engine_start 2 None 0) =
     Inr (Some (False, 13, http_session_engine_start 2 None 0))"
  using task_second_is_cycle [of "http_session_engine_start 2 None 0" 7] by simp

text \<open>The task at a stop; \<open>seen\<close>: it reads the flag once more before it saves.\<close>

lemma stopped_task:
  assumes "queue_ok (work e)" "\<not> um_locked e" "\<forall>u \<in> set (contents (work e)). u < length (users e)"
    and "length (contents (work e)) < qsize (work e)" "c \<noteq> 1"
  shows "\<exists>c' e'. session_task [(True, \<not> seen), (False, False)] (c, e) = Inr (Some (True, c', e')) \<and>
    db_file e' = db_file e @ (if seen then map (\<lambda>u. users e ! u) (contents (work e)) else []) \<and>
    (if seen then contents (work e') = [] else e' = e)"
proof -
  obtain q where "write_users (qsize (work e)) e 0 =
      Inr (Some (e\<lparr>work := q, db_file := db_file e @ map (\<lambda>u. users e ! u) (contents (work e))\<rparr>, length (contents (work e))))"
    "contents q = []"
    using write_users_all [OF assms(1) refl assms(4) _ assms(2,3), of "qsize (work e)" 0] assms(4) by auto
  then obtain e' where "save_users e = Inr (Some e')"
    "db_file e' = db_file e @ map (\<lambda>u. users e ! u) (contents (work e))" "contents (work e') = []"
    by (simp add: save_users_def)
  with assms(5) show ?thesis by (cases seen) (simp_all add: stopping_turn quiet_turn)
qed

text \<open>A stop while users wait to be saved: if the task reads the flag once more before it saves, they are
  written like in a cycle; if the flag is cleared between that test and the test of the loop, the task returns and they
  are lost, though their registrations were answered.\<close>

theorem stop_saves_or_loses:
  assumes "queue_ok (work e)" "\<not> um_locked e" "\<forall>u \<in> set (contents (work e)). u < length (users e)"
    and "length (contents (work e)) < qsize (work e)" "c \<noteq> 1"
  shows "(\<exists>c' e'. session_task [(True, False), (False, False)] (c, e) = Inr (Some (True, c', e')) \<and>
      db_file e' = db_file e @ map (\<lambda>u. users e ! u) (contents (work e)) \<and> contents (work e') = []) \<and>
    (\<exists>c'. session_task [(True, True), (False, False)] (c, e) = Inr (Some (True, c', e)))"
  using stopped_task [OF assms, of True] stopped_task [OF assms, of False] by auto

subsection \<open>What a restart finds\<close>

definition creds :: "user_t \<Rightarrow> char list \<times> char list" where
  "creds u = (u_name u, u_password u)"

text \<open>What opening and closing sessions leaves as it is.\<close>

definition users_frame :: "engine \<Rightarrow> engine \<Rightarrow> bool" where
  "users_frame e e' \<longleftrightarrow> um_last e' = um_last e \<and> um_entries e' = um_entries e \<and> work e' = work e \<and>
     meta_file e' = meta_file e \<and> db_file e' = db_file e \<and> user_entries e' = user_entries e \<and>
     map creds (users e') = map creds (users e)"

lemma users_frame_refl [simp]: "users_frame e e"
  by (simp add: users_frame_def)

lemma users_frame_trans: "users_frame e e1 \<Longrightarrow> users_frame e1 e2 \<Longrightarrow> users_frame e e2"
  by (simp add: users_frame_def)

lemma creds_refs: "map creds (us[i := (us ! i)\<lparr>refs := n\<rparr>]) = map creds us"
  by (cases "i < length us") (simp_all add: map_update creds_def list_update_same_conv list_update_beyond)

lemma frame_add_ref: "add_ref e u = Inr e' \<Longrightarrow> users_frame e e'"
  by (auto simp: add_ref_def users_frame_def creds_refs split: if_splits)

lemma frame_drop_ref: "drop_ref e u = Inr e' \<Longrightarrow> users_frame e e'"
  by (auto simp: drop_ref_def users_frame_def creds_refs split: if_splits option.splits)

lemma frame_close: "close_session e i = Inr e' \<Longrightarrow> users_frame e e'"
proof -
  assume "close_session e i = Inr e'"
  then obtain e1 s where "drop_ref e (user_ref (sessions e ! i)) = Inr e1" "e' = e1\<lparr>sessions := s\<rparr>"
    by (auto simp: close_session_def bind_res_Inr split: if_splits)
  with frame_drop_ref show ?thesis by (fastforce simp: users_frame_def)
qed

lemma frame_close_expired: "close_expired is e = Inr e' \<Longrightarrow> users_frame e e'"
proof (induction "is" arbitrary: e)
  case (Cons i rest)
  from Cons.prems obtain e1 where e1: "close_session e i = Inr e1"
    "close_expired rest (if length rest = dec_size (sm_last e1) then e1\<lparr>sm_last := dec_size (sm_last e1)\<rparr> else e1) = Inr e'"
    by (auto simp: bind_res_Inr split: if_splits)
  from frame_close [OF e1(1)] Cons.IH [OF e1(2)] show ?case by (simp add: users_frame_def)
qed simp

lemma frame_expire: "expire_sessions e = Inr e' \<Longrightarrow> users_frame e e'"
  unfolding expire_sessions_def by (auto split: prod.splits dest!: frame_close_expired simp: users_frame_def)

lemma frame_login:
  assumes "http_session_login_user uuid e nm pw = Inr (e', r)"
  shows "users_frame e e'"
proof (cases r)
  case None
  with assms have "e' = e" unfolding http_session_login_user_def
    by (auto simp: bind_res_Inr Let_def split: option.splits if_splits)
  then show ?thesis by simp
next
  case (Some i)
  from assms Some obtain u where u: "user_get e nm True = Inr (Some u)" and pw: "c_str (u_password (users e ! u)) = Inr pw"
    by (auto simp: http_session_login_user_def bind_res_Inr split: option.splits if_splits)
  obtain e1 k where e1: "(if sm_entries e < sm_capacity e
      then (e, first_index (\<lambda>s. user_ref s = None) (take (sm_last e) (sessions e)))
      else (expand_sessions e, sm_last e)) = (e1, k)" by fastforce
  then have f: "users_frame e e1" by (auto simp: users_frame_def expand_sessions_def split: if_splits)
  let ?new = "e1\<lparr>sm_last := if k = sm_last e1 then sm_last e1 + 1 else sm_last e1, sm_entries := sm_entries e1 + 1,
    sessions := (sessions e1)[k := \<lparr>sid = uuid @ [nul], expire_s = session_timeout e1, user_ref = Some u\<rparr>]\<rparr>"
  from assms u pw have "add_ref ?new u = Inr e'"
    unfolding http_session_login_user_def e1 by (auto simp: bind_res_Inr split: if_splits)
  from frame_add_ref [OF this] f show ?thesis by (simp add: users_frame_def)
qed

lemma frame_logout:
  assumes "http_session_logout_user e raw = Inr e'"
  shows "users_frame e e'"
proof -
  from assms obtain r where r: "http_session_get e raw = Inr r" by (auto simp: http_session_logout_user_def bind_res_Inr)
  show ?thesis
  proof (cases r)
    case None
    with assms r show ?thesis by (simp add: http_session_logout_user_def)
  next
    case (Some i)
    have lock: "\<not> um_locked e" using assms r Some by (auto simp: http_session_logout_user_def)
    show ?thesis
    proof (cases "close_session e i")
      case (Inr e1)
      with assms r Some lock have "e' = (if i = dec_size (sm_last e1) then e1\<lparr>sm_last := dec_size (sm_last e1)\<rparr> else e1)"
        by (simp add: http_session_logout_user_def)
      with frame_close [OF Inr] show ?thesis by (simp add: users_frame_def)
    qed (use assms r Some lock in \<open>simp add: http_session_logout_user_def\<close>)
  qed
qed

subsection \<open>The files keep up\<close>

text \<open>The database holds the first users, the queue the others, in order; no stored name is empty.\<close>

definition kept :: "engine \<Rightarrow> bool" where
  "kept e \<longleftrightarrow> queue_ok (work e) \<and> 0 < um_last e \<and> um_entries e = um_last e \<and> um_last e \<le> length (users e) \<and>
     length (db_file e) \<le> um_last e \<and> contents (work e) = [length (db_file e)..<um_last e] \<and>
     0 < length (db_file e) \<and> user_entries e = length (db_file e) \<and> meta_file e = length (db_file e) \<and>
     map creds (db_file e) = take (length (db_file e)) (map creds (users e)) \<and>
     (\<forall>c \<in> set (take (um_last e) (map creds (users e))). fst c ! 0 \<noteq> nul)"

lemma kept_frame: "users_frame e e' \<Longrightarrow> kept e \<Longrightarrow> kept e'"
  unfolding kept_def users_frame_def using map_eq_imp_length_eq [of creds "users e'" creds "users e"] by auto

lemma kept_save:
  assumes "kept e" "save_users e = Inr (Some e')" "\<not> um_locked e"
  shows "kept e' \<and> um_last e' = um_last e \<and> users e' = users e \<and>
    (length (contents (work e)) < qsize (work e) \<longrightarrow> length (db_file e') = um_last e)"
proof (cases "length (contents (work e)) < qsize (work e)")
  case True
  let ?n = "length (db_file e)"
  have k: "queue_ok (work e)" "um_last e \<le> length (users e)" "contents (work e) = [?n..<um_last e]" "?n \<le> um_last e"
    using assms(1) by (simp_all add: kept_def)
  then have "\<forall>u \<in> set (contents (work e)). u < length (users e)" by auto
  from write_users_all [OF k(1) refl True _ assms(3) this, of "qsize (work e)" 0] True obtain q where
    q: "write_users (qsize (work e)) e 0 = Inr (Some (e\<lparr>work := q,
        db_file := db_file e @ map (\<lambda>u. users e ! u) (contents (work e))\<rparr>, length (contents (work e))))"
      "queue_ok q" "contents q = []" by auto
  have db: "map (\<lambda>u. users e ! u) (contents (work e)) = drop ?n (take (um_last e) (users e))"
    using k by (intro nth_equalityI) simp_all
  have "map creds (db_file e @ drop ?n (take (um_last e) (users e))) = take (um_last e) (map creds (users e))"
  proof -
    have "map creds (db_file e) = take ?n (take (um_last e) (map creds (users e)))"
      using assms(1) by (simp add: kept_def min_absorb1)
    then show ?thesis by (simp only: map_append drop_map [symmetric] take_map [symmetric] append_take_drop_id)
  qed
  moreover have "length (drop ?n (take (um_last e) (users e))) = um_last e - ?n" using k by simp
  ultimately have D: "length (db_file e @ drop ?n (take (um_last e) (users e))) = um_last e"
    "map creds (db_file e @ drop ?n (take (um_last e) (users e))) = take (um_last e) (map creds (users e))" using k(4) by simp_all
  have "user_entries e = ?n" "meta_file e = ?n" using assms(1) by (simp_all add: kept_def)
  then have "user_entries e' = um_last e \<and> meta_file e' = um_last e \<and> db_file e' = db_file e @ drop ?n (take (um_last e) (users e)) \<and>
      work e' = q \<and> users e' = users e \<and> um_last e' = um_last e \<and> um_entries e' = um_entries e"
    using assms(2) k(3,4) unfolding save_users_def q(1) db by (auto split: if_splits)
  with assms(1) D q(2,3) show ?thesis by (simp add: kept_def)
next
  case False
  then have "queue_empty (work e)"
    using contents_le_qsize [of "work e"] head_eq_tail [of "work e"] assms(1)
    by (simp add: kept_def queue_ok_def queue_empty_def)
  with assms(2) have "e' = e" by (simp add: save_users_def write_users_empty)
  with assms(1) False show ?thesis by simp
qed

lemma kept_saves:
  assumes "kept e" "\<not> um_locked e" "length (contents (work e)) < qsize (work e)"
  shows "\<exists>e'. save_users e = Inr (Some e')"
proof -
  have k: "queue_ok (work e)" "\<forall>u \<in> set (contents (work e)). u < length (users e)" using assms(1) by (auto simp: kept_def)
  from write_users_all [OF k(1) refl assms(3) _ assms(2) k(2), of "qsize (work e)" 0] assms(3) show ?thesis
    by (auto simp: save_users_def)
qed

lemma kept_register:
  assumes k: "kept e" and inv: "engine_inv e" and room: "um_entries e < um_capacity e"
    and nm: "field_ok nm" "nm \<noteq> []"
    and run: "http_session_register_user junk e nm pw = Inr (Some (e', True))"
  shows "kept e' \<and> um_last e' = um_last e + 1 \<and> qsize (work e') = qsize (work e)"
proof -
  let ?us = "take (um_last e) (users e)"
  let ?u = "(users e ! um_last e)\<lparr>u_name := strncpy name_size nm, u_password := strncpy name_size pw\<rparr>"
  have l: "length (users e) = um_capacity e" "um_last e < length (users e)" "length ?us = um_last e"
    using inv room k by (auto simp: engine_inv_def kept_def)
  have "\<forall>u \<in> set ?us. u_name u ! 0 \<noteq> nul" using k by (auto simp: kept_def take_map creds_def)
  then have "takeWhile (\<lambda>u. \<not> u_name u ! 0 = nul) ?us = ?us" by (simp add: takeWhile_eq_all_conv)
  then have fi: "first_index (\<lambda>u. u_name u ! 0 = nul) ?us = um_last e" using l(3) by (simp only: first_index_def)
  obtain q where e': "e' = e\<lparr>um_last := um_last e + 1, um_entries := um_entries e + 1,
      users := (users e)[um_last e := ?u], work := q\<rparr>" and q: "queue_push (work e) (user_ptr (um_last e)) = Some q"
    using run room inv l(2) by (auto simp: http_session_register_user_def engine_inv_def bind_res_Inr Let_def fi split: if_splits)
  have w: "queue_ok (work e)" "ring_inv (work e)" "alive (work e)" "0 < um_last e" using k by (auto simp: kept_def queue_ok_def)
  have "queue_enq (work e) (um_last e) = Some q" using q w(4) by (simp add: queue_enq_def user_ptr_def)
  from ring.enq_SomeD [OF w(1) this] have q': "queue_ok q" "contents q = contents (work e) @ [um_last e]" "qsize q = qsize (work e)" by auto
  have name: "u_name ?u ! 0 \<noteq> nul" using nm by (cases nm) (auto simp: strncpy_def field_ok_def name_size_def)
  have us: "take (um_last e + 1) (map creds (users e')) = take (um_last e) (map creds (users e)) @ [creds ?u]"
    using l(2) by (simp add: e' take_Suc_conv_app_nth map_update)
  have "take (length (db_file e)) (map creds (users e')) = take (length (db_file e)) (map creds (users e))"
    using k by (simp add: e' kept_def map_update)
  with k q' l(2) us name show ?thesis unfolding kept_def by (auto simp: e' creds_def)
qed

text \<open>What the server does with the engine it started on the files of an earlier run.\<close>

inductive serves :: "engine \<Rightarrow> engine \<Rightarrow> bool" for e0 where
  fresh: "serves e0 e0"
| register: "serves e0 e \<Longrightarrow> um_entries e < um_capacity e \<Longrightarrow> field_ok nm \<Longrightarrow> nm \<noteq> [] \<Longrightarrow>
    http_session_register_user junk e nm pw = Inr (Some (e', True)) \<Longrightarrow> serves e0 e'"
| login: "serves e0 e \<Longrightarrow> uuid_ok uuid \<Longrightarrow> http_session_login_user uuid e nm pw = Inr (e', r) \<Longrightarrow>
    sm_capacity e' < 2 ^ 63 \<Longrightarrow> serves e0 e'"
| logout: "serves e0 e \<Longrightarrow> http_session_logout_user e raw = Inr e' \<Longrightarrow> serves e0 e'"
| cycle: "serves e0 e \<Longrightarrow> session_cycle e = Inr (Some e') \<Longrightarrow> serves e0 e'"

text \<open>Files of at least one user: the count, and as many records with a name that is not empty and without references.\<close>

definition files_ok :: "nat \<Rightarrow> user_t list \<Rightarrow> bool" where
  "files_ok n db \<longleftrightarrow> 0 < n \<and> n = length db \<and> (\<forall>u \<in> set db. u_name u ! 0 \<noteq> nul \<and> refs u = 0)"

lemma start_files:
  assumes "files_ok n db" "0 < cap" "cap < 2 ^ 63"
  shows "engine_inv (http_session_engine_start cap (Some (n, db)) t) \<and> kept (http_session_engine_start cap (Some (n, db)) t)"
proof
  let ?e = "http_session_engine_start cap (Some (n, db)) t"
  have n: "0 < n" "n = length db" "\<forall>u \<in> set db. u_name u ! 0 \<noteq> nul" "\<forall>u \<in> set db. refs u = 0"
    using assms(1) by (auto simp: files_ok_def)
  have f: "um_locked ?e = False" "um_capacity ?e = n + cap" "um_entries ?e = n" "um_last ?e = n"
    "users ?e = db @ replicate cap zero_user" "work ?e = queue_create (cap * 2)" "meta_file ?e = n" "db_file ?e = db"
    "user_entries ?e = n" "sm_capacity ?e = cap" "sm_entries ?e = 0" "sm_last ?e = 0" "sessions ?e = replicate cap free_session"
    using n assms(2) by (simp_all add: http_session_engine_start_def load_user_db_def)
  have "refs (users ?e ! i) = 0" if "i < n + cap" for i
    using that n unfolding f by (auto simp: nth_append zero_user_def)
  then show "engine_inv ?e" using n assms(2,3) unfolding engine_inv_def f
    by (simp add: free_session_def active_refs_def sid_ok_def)
  have "queue_ok (work ?e) \<and> contents (work ?e) = []" unfolding f using queue_create_ok [of "cap * 2"] assms(2) by simp
  then show "kept ?e" using n unfolding kept_def f by (auto simp: creds_def)
qed

lemma serves_inv:
  assumes "serves e0 e" "engine_inv e0" "kept e0"
  shows "engine_inv e \<and> kept e"
  using assms(1)
proof (induction rule: serves.induct)
  case (register e nm junk pw e')
  then show ?case using register_inv kept_register by blast
next
  case (login e uuid nm pw e' r)
  then show ?case using login_inv frame_login kept_frame by blast
next
  case (logout e raw e')
  then show ?case using logout_inv frame_logout kept_frame by blast
next
  case (cycle e e')
  from cycle.hyps(2) obtain e1 where e1: "expire_sessions e = Inr e1" "save_users e1 = Inr (Some e')"
    by (auto simp: session_cycle_def bind_res_Inr)
  have "kept e1" using frame_expire [OF e1(1)] cycle.IH kept_frame by blast
  moreover obtain e2 where "expire_sessions e = Inr e2" "engine_inv e2" using expire_spec cycle.IH by blast
  then have "\<not> um_locked e1" using e1(1) by (simp add: engine_inv_def)
  ultimately show ?case using kept_save [OF _ e1(2)] cycle_inv cycle by blast
qed (use assms in simp)

lemma scan_users_creds: "map creds us = map creds vs \<Longrightarrow> scan_users us nm k = scan_users vs nm k"
proof (induction us arbitrary: vs k)
  case (Cons u us)
  then show ?case by (cases vs) (auto simp: creds_def bind_res_def split: sum.splits)
qed simp

text \<open>Property C29. Users survive a restart. Whatever the server does after a start on the files of an earlier run, once
  the session task has saved (with room left in its queue) the count and the database hold every user: the next start
  finds the same users at the same ids, with the same names and passwords.\<close>

theorem users_survive_restart:
  assumes "files_ok n db" "0 < cap" "cap < 2 ^ 63" "serves (http_session_engine_start cap (Some (n, db)) t) e"
    and "length (contents (work e)) < qsize (work e)" "save_users e = Inr (Some e')"
  shows "let e2 = http_session_engine_start cap2 (Some (meta_file e', db_file e')) t2 in
    um_last e2 = um_last e \<and> (\<forall>nm. user_get e2 nm True = user_get e nm True) \<and>
    (\<forall>u < um_last e2. creds (users e2 ! u) = creds (users e ! u))"
proof -
  let ?e2 = "http_session_engine_start cap2 (Some (meta_file e', db_file e')) t2"
  from start_files [OF assms(1-3)] have e: "engine_inv e" "kept e" using serves_inv [OF assms(4)] by blast+
  then have free: "\<not> um_locked e" by (simp add: engine_inv_def)
  from kept_save [OF e(2) assms(6) free] assms(5) have k: "kept e'" "um_last e' = um_last e" "users e' = users e"
    "length (db_file e') = um_last e" by simp_all
  then have m: "meta_file e' = um_last e" "map creds (db_file e') = take (um_last e) (map creds (users e))"
    by (auto simp: kept_def)
  have s: "um_last ?e2 = um_last e" "take (um_last e) (users ?e2) = db_file e'" "\<not> um_locked ?e2"
    using k(4) m(1) by (simp_all add: http_session_engine_start_def load_user_db_def)
  then have "map creds (take (um_last e) (users ?e2)) = map creds (take (um_last e) (users e))" using m(2) by (simp add: take_map)
  note same = this
  have "user_get ?e2 nm True = user_get e nm True" for nm
    unfolding user_get_def s(1) using scan_users_creds [OF same] s(3) free by simp
  moreover have "creds (users ?e2 ! u) = creds (users e ! u)" if "u < um_last e" for u
  proof -
    have "u < length (take (um_last e) (users ?e2))" "u < length (take (um_last e) (users e))"
      using that s(2) k(4) map_eq_imp_length_eq [OF same] by simp_all
    with arg_cong [OF same, of "\<lambda>xs. xs ! u"] show ?thesis using that by simp
  qed
  ultimately show ?thesis unfolding Let_def s(1) by blast
qed

text \<open>A saved user, and the engine started on the file.\<close>

definition saved_bob :: user_t where
  "saved_bob = \<lparr>u_name = strncpy name_size ''bob'', u_password = strncpy name_size ''pw'', refs = 0\<rparr>"

lemma bob_file: "files_ok 1 [saved_bob]"
  by (simp add: files_ok_def saved_bob_def strncpy_def name_size_def nul_def)

definition bob_engine :: engine where
  "bob_engine = http_session_engine_start 2 (Some (1, [saved_bob])) 0"

lemma bob_engine: "engine_inv bob_engine" "kept bob_engine" "um_last bob_engine = 1" "contents (work bob_engine) = []"
  "qsize (work bob_engine) = 4" "um_entries bob_engine < um_capacity bob_engine" "user_get bob_engine ''al'' False = Inr None"
  "\<not> push_blocked (work bob_engine)" "alive (work bob_engine)" "\<not> um_locked bob_engine"
proof -
  show "engine_inv bob_engine" "kept bob_engine" using start_files [OF bob_file, of 2 0] by (simp_all add: bob_engine_def)
  show "user_get bob_engine ''al'' False = Inr None"
    using strncpy_c_str [of "''bob''"] unfolding bob_engine_def user_get_def
    by (simp add: http_session_engine_start_def load_user_db_def saved_bob_def field_ok_def name_size_def nul_def)
qed (simp_all add: bob_engine_def http_session_engine_start_def load_user_db_def queue_create_def push_blocked_def
    contents_def ring_slots_def)

theorem users_survive_restart_witness:
  "\<exists>e e'. http_session_register_user zero_user bob_engine ''al'' ''pw2'' = Inr (Some (e, True)) \<and>
     save_users e = Inr (Some e') \<and> um_last (http_session_engine_start 2 (Some (meta_file e', db_file e')) 0) = 2"
proof -
  note b = bob_engine
  from register_returns [OF b(1,6,7,9,8)] obtain e where
    e: "http_session_register_user zero_user bob_engine ''al'' ''pw2'' = Inr (Some (e, True))" by blast
  have nm: "field_ok ''al''" "''al'' \<noteq> []" by (simp_all add: field_ok_def name_size_def nul_def)
  have s: "serves bob_engine e" by (rule serves.register [OF serves.fresh b(6) nm e])
  from kept_register [OF b(2,1,6) nm e] b(3,5) have k: "kept e" "um_last e = 2" "qsize (work e) = 4" by simp_all
  then have l: "length (contents (work e)) < qsize (work e)" by (auto simp: kept_def)
  have "\<not> um_locked e" using serves_inv [OF s b(1,2)] by (simp add: engine_inv_def)
  from kept_saves [OF k(1) this l] obtain e' where e': "save_users e = Inr (Some e')" by blast
  from users_survive_restart [OF bob_file _ _ s [unfolded bob_engine_def] l e', of 2 0] k(2) e e' show ?thesis
    by (auto simp: Let_def)
qed

theorem stop_saves_or_loses_witness:
  "\<exists>c'. session_task [(True, True), (False, False)] (5, bob_engine) = Inr (Some (True, c', bob_engine))"
  using stop_saves_or_loses [of bob_engine 5] bob_engine by (auto simp: kept_def)

end
