(* ===== verification/Csv.thy ===== *)
theory Csv
  imports Memory
begin

section \<open>The transaction files (app/backend/csv.c)\<close>

text \<open>
  A \<open>csv_raw_t\<close> mirrors a file: a header line, then lines that start with an increasing id. \<open>lines\<close>
  is an array of pointers into \<open>store\<close>, the live blocks; \<open>next\<close> is an address that was never
  used. \<open>csv_file\<close> is the contents of the open file. Stores and frees are explicit, since the array
  may hold pointers that are no longer live.
\<close>

record csv_raw_t =
  csv_file :: string
  lastId :: int
  hdr_size :: nat
  csv_size :: nat
  entries :: nat
  lines_arr :: "nat option list"
  store :: "nat \<Rightarrow> string option"
  next_addr :: nat

definition CSV_DEFAULT_LINES :: nat where
  "CSV_DEFAULT_LINES = 10"

definition csv_header :: string where
  "csv_header = ''Id;Date;Type;Coin;Amount;Usd'' @ [CHR 0x0A]"

definition CSV_create :: csv_raw_t where
  "CSV_create = \<lparr>csv_file = csv_header, lastId = 0, hdr_size = length csv_header,
     csv_size = CSV_DEFAULT_LINES, entries = 0, lines_arr = replicate CSV_DEFAULT_LINES None,
     store = Map.empty, next_addr = 0\<rparr>"

text \<open>\<open>free\<close> of a pointer: NULL is allowed, a block that is not live is not.\<close>

definition free_ptr :: "nat option \<Rightarrow> (nat \<Rightarrow> string option) \<Rightarrow> (nat \<Rightarrow> string option) res" where
  "free_ptr p st =
     (case p of None \<Rightarrow> Inr st
      | Some a \<Rightarrow> if st a = None then Inl BadFree else Inr (st(a := None)))"

fun free_all :: "nat option list \<Rightarrow> (nat \<Rightarrow> string option) \<Rightarrow> (nat \<Rightarrow> string option) res" where
  "free_all [] st = Inr st"
| "free_all (p # ps) st = bind_res (free_ptr p st) (free_all ps)"

definition CSV_close :: "csv_raw_t \<Rightarrow> (nat \<Rightarrow> string option) res" where
  "CSV_close csv = free_all (lines_arr csv) (store csv)"

text \<open>\<open>getline\<close>: the next line with its newline, and the rest of the file; \<open>None\<close> at its end.\<close>

definition getline :: "string \<Rightarrow> (string \<times> string) option" where
  "getline f =
     (if f = [] then None
      else let n = length (takeWhile (\<lambda>c. c \<noteq> CHR 0x0A) f) in Some (take (Suc n) f, drop (Suc n) f))"

lemma getline_shorter: "getline f = Some (l, r) \<Longrightarrow> length r < length f \<and> l \<noteq> []"
  by (cases f) (auto simp: getline_def Let_def split: if_splits)

text \<open>Reading into the slot \<open>entries\<close>: an empty slot gets a new block, even at the end of the file.\<close>

definition slot_block :: "csv_raw_t \<Rightarrow> string \<Rightarrow> csv_raw_t" where
  "slot_block csv l =
     (case lines_arr csv ! entries csv of
        Some a \<Rightarrow> csv\<lparr>store := (store csv)(a := Some l)\<rparr>
      | None \<Rightarrow> csv\<lparr>lines_arr := (lines_arr csv)[entries csv := Some (next_addr csv)],
          store := (store csv)(next_addr csv := Some l), next_addr := next_addr csv + 1\<rparr>)"

definition grow_lines :: "csv_raw_t \<Rightarrow> csv_raw_t" where
  "grow_lines csv =
     (if entries csv = csv_size csv
      then csv\<lparr>csv_size := csv_size csv + CSV_DEFAULT_LINES,
             lines_arr := lines_arr csv @ replicate CSV_DEFAULT_LINES None\<rparr>
      else csv)"

function load_lines :: "csv_raw_t \<Rightarrow> string \<Rightarrow> csv_raw_t" where
  "load_lines csv rest =
     (case getline rest of
        None \<Rightarrow> slot_block csv []
      | Some (l, r) \<Rightarrow>
          load_lines (grow_lines ((slot_block csv l)\<lparr>entries := entries csv + 1\<rparr>)) r)"
  by pat_completeness auto
termination
  by (relation "measure (\<lambda>(csv, f). length f)") (auto dest: getline_shorter)

declare load_lines.simps [simp del]

text \<open>A line through its pointer.\<close>

definition deref :: "csv_raw_t \<Rightarrow> nat \<Rightarrow> string res" where
  "deref csv i =
     (if length (lines_arr csv) \<le> i then Inl OutOfBounds
      else case lines_arr csv ! i of None \<Rightarrow> Inl NullDeref
      | Some a \<Rightarrow> (case store csv a of None \<Rightarrow> Inl UseAfterFree | Some s \<Rightarrow> Inr s))"

text \<open>The file is \<open>None\<close> if it cannot be opened. The header goes through the slot 0, whose block the
  first line reuses; of an empty file the size of the header is \<open>(size_t) -1\<close>.\<close>

definition CSV_load :: "string option \<Rightarrow> csv_raw_t option res" where
  "CSV_load f =
     (case f of None \<Rightarrow> Inr None
      | Some content \<Rightarrow>
          let base = CSV_create\<lparr>csv_file := content\<rparr>;
              csv = (case getline content of
                 None \<Rightarrow> load_lines ((slot_block base [])\<lparr>hdr_size := 2 ^ 64 - 1\<rparr>) []
               | Some (l, r) \<Rightarrow> load_lines ((slot_block base l)\<lparr>hdr_size := length l\<rparr>) r)
          in if entries csv = 0 then Inr (Some csv)
             else bind_res (deref csv (entries csv - 1)) (\<lambda>s. Inr (Some (csv\<lparr>lastId := atoi s\<rparr>))))"

text \<open>The search of \<open>CSV_getLineById\<close> and \<open>CSV_removeLineById\<close>: downwards from the entry that the
  id suggests. The comparison with \<open>entries\<close> is unsigned; without entries it reads \<open>lines[-1]\<close>.\<close>

fun search_down :: "csv_raw_t \<Rightarrow> int \<Rightarrow> nat \<Rightarrow> nat option res" where
  "search_down csv ident 0 = Inr None"
| "search_down csv ident (Suc e) =
     bind_res (deref csv e) (\<lambda>s. if atoi s = ident then Inr (Some e) else search_down csv ident e)"

definition find_entry :: "csv_raw_t \<Rightarrow> int \<Rightarrow> nat option res" where
  "find_entry csv ident =
     (if entries csv = 0 then Inl OutOfBounds
      else bind_res (deref csv (entries csv - 1)) (\<lambda>s.
        if ident > atoi s then Inr None
        else search_down csv ident
          (if ident mod 2 ^ 64 \<ge> int (entries csv) then entries csv else nat ident)))"

definition CSV_getLineById :: "csv_raw_t \<Rightarrow> int \<Rightarrow> string option res" where
  "CSV_getLineById csv ident =
     bind_res (find_entry csv ident) (\<lambda>e. case e of
       None \<Rightarrow> Inr None | Some i \<Rightarrow> bind_res (deref csv i) (\<lambda>s. Inr (Some s)))"

definition CSV_getLine :: "csv_raw_t \<Rightarrow> int \<Rightarrow> string option res" where
  "CSV_getLine csv line =
     (if line mod 2 ^ 64 < int (entries csv)
      then bind_res (deref csv (nat line)) (\<lambda>s. Inr (Some s)) else Inr None)"

fun deref_all :: "csv_raw_t \<Rightarrow> nat list \<Rightarrow> string list res" where
  "deref_all csv [] = Inr []"
| "deref_all csv (i # is) = bind_res (deref csv i) (\<lambda>s. bind_res (deref_all csv is) (\<lambda>r. Inr (s # r)))"

text \<open>A write of \<open>s\<close> at the position \<open>pos\<close> of the file.\<close>

definition file_write :: "string \<Rightarrow> nat \<Rightarrow> string \<Rightarrow> string" where
  "file_write f pos s = take pos (f @ replicate (pos - length f) nul) @ s @ drop (pos + length s) f"

text \<open>
  After \<open>memmove\<close> the slot behind the last entry still holds the pointer it had. The lines
  behind the removed one are rewritten one line earlier, and the file is cut. (The buffered
  writes reach the file after \<open>ftruncate\<close>, which makes no difference: they end where it cut.)
\<close>

definition CSV_removeLineById :: "csv_raw_t \<Rightarrow> int \<Rightarrow> (csv_raw_t \<times> int) res" where
  "CSV_removeLineById csv ident =
     bind_res (find_entry csv ident) (\<lambda>found. case found of
       None \<Rightarrow> Inr (csv, -1)
     | Some e \<Rightarrow>
         bind_res (deref csv e) (\<lambda>s.
         bind_res (free_ptr (lines_arr csv ! e) (store csv)) (\<lambda>st.
           let n = entries csv - 1;
               arr = take e (lines_arr csv) @ take (n - e) (drop (Suc e) (lines_arr csv)) @ drop n (lines_arr csv);
               csv1 = csv\<lparr>entries := n, store := st, lines_arr := arr\<rparr>;
               size = length (csv_file csv)
           in bind_res (deref_all csv1 [0..<e]) (\<lambda>before.
              bind_res (deref_all csv1 [e..<n]) (\<lambda>behind.
              let f = (if e < n
                       then file_write (csv_file csv) (hdr_size csv + length (concat before)) (concat behind)
                       else csv_file csv)
              in Inr (csv1\<lparr>csv_file := take (size - length s) f\<rparr>, 0))))))"

definition CSV_appendNewLine :: "csv_raw_t \<Rightarrow> string \<Rightarrow> csv_raw_t res" where
  "CSV_appendNewLine csv line =
     (let csv1 = grow_lines csv;
          ident = lastId csv + 1;
          text = dec_int ident @ '';'' @ line @ [CHR 0x0A];
          block = replicate (length ''1234567890;'' + 1 + length line) None
      in bind_res (sprintf_at block 0 text) (\<lambda>b.
         bind_res (read_str b) (\<lambda>str.
         Inr (csv1\<lparr>lastId := ident,
                lines_arr := (lines_arr csv1)[entries csv1 := Some (next_addr csv1)],
                store := (store csv1)(next_addr csv1 := Some str),
                next_addr := next_addr csv1 + 1,
                entries := entries csv1 + 1,
                csv_file := csv_file csv1 @ str\<rparr>))))"

text \<open>
  \<open>CSV_getField\<close>: the loop that looks for the start of the field \<open>num\<close>, at the offset \<open>i\<close> in the line;
  it runs past the NUL of a line without a newline.
\<close>

fun field_start :: "string \<Rightarrow> nat \<Rightarrow> nat \<Rightarrow> nat option res" where
  "field_start [] num i = (if num = 0 then Inr (Some i) else Inl OutOfBounds)"
| "field_start (c # cs) num i =
     (if c = CHR 0x0A then Inr None
      else if num = 0 then Inr (Some i)
      else if c = CHR '';'' then
        (if num = 1 then Inr (Some i) else field_start cs (num - 1) (Suc i))
      else field_start cs num (Suc i))"

definition field_char :: "char \<Rightarrow> bool" where
  "field_char c \<longleftrightarrow> c \<noteq> CHR '';'' \<and> c \<noteq> CHR 0x0A"

text \<open>The field (what the caller's array holds) and the return value; \<open>cap\<close> is the size of the array,
  not 0.\<close>

definition CSV_getField :: "string \<Rightarrow> nat \<Rightarrow> nat \<Rightarrow> (string option \<times> int) res" where
  "CSV_getField line num cap =
     bind_res (field_start line num 0) (\<lambda>r. case r of
       None \<Rightarrow> Inr (None, -1)
     | Some i \<Rightarrow>
         let j = (if i = 0 then 0 else i + 1);
             n = length (takeWhile field_char (drop j line))
         in if n < cap
            then if j + n < length line
                 then Inr (Some (take n (drop j line)), int (j + n) - int i - 1)
                 else Inl OutOfBounds
            else Inr (Some (take (cap - 1) (drop j line)), -1))"

subsection \<open>The rows a file holds\<close>

text \<open>A row is an id and the text behind its first semicolon.\<close>

type_synonym row = "nat \<times> string"

definition line_of :: "row \<Rightarrow> string" where
  "line_of r = dec (fst r) @ '';'' @ snd r @ [CHR 0x0A]"

definition good_text :: "string \<Rightarrow> bool" where
  "good_text s \<longleftrightarrow> CHR 0x0A \<notin> set s \<and> nul \<notin> set s"

definition good_row :: "row \<Rightarrow> bool" where
  "good_row r \<longleftrightarrow> 0 < fst r \<and> fst r < 10 ^ 9 \<and> good_text (snd r)"

text \<open>The pointers: one live block per row, no two alike.\<close>

definition rows_at :: "csv_raw_t \<Rightarrow> row list \<Rightarrow> bool" where
  "rows_at csv rows \<longleftrightarrow> entries csv = length rows \<and> length rows \<le> csv_size csv \<and>
     length (lines_arr csv) = csv_size csv \<and>
     (\<forall>i < length rows. \<exists>a < next_addr csv. lines_arr csv ! i = Some a \<and> store csv a = Some (line_of (rows ! i))) \<and>
     (\<forall>j < length rows. \<forall>i < j. lines_arr csv ! i \<noteq> lines_arr csv ! j)"

definition row_inv :: "csv_raw_t \<Rightarrow> row list \<Rightarrow> bool" where
  "row_inv csv rows \<longleftrightarrow> rows_at csv rows \<and> sorted_wrt (<) (map fst rows) \<and> (\<forall>r \<in> set rows. good_row r) \<and>
     hdr_size csv \<le> length (csv_file csv) \<and> drop (hdr_size csv) (csv_file csv) = concat (map line_of rows) \<and>
     0 \<le> lastId csv \<and> (\<forall>r \<in> set rows. int (fst r) \<le> lastId csv)"

lemma deref_row: "rows_at csv rows \<Longrightarrow> i < length rows \<Longrightarrow> deref csv i = Inr (line_of (rows ! i))"
  by (fastforce simp: rows_at_def deref_def)

lemma atoi_line: "fst r < 10 ^ 9 \<Longrightarrow> atoi (line_of r) = int (fst r)"
  unfolding line_of_def by (rule atoi_dec) (simp_all add: isdigit_def)

lemma sorted_ids:
  assumes "sorted_wrt (<) (map fst rows)" "\<forall>r \<in> set rows. good_row r" "i < length rows"
  shows "i < fst (rows ! i)"
  using assms(3)
proof (induction i)
  case 0
  then show ?case using assms(2) nth_mem [of 0 rows] by (auto simp: good_row_def)
next
  case (Suc i)
  have "fst (rows ! i) < fst (rows ! Suc i)"
    using sorted_wrt_nth_less [OF assms(1), of i "Suc i"] Suc.prems by simp
  with Suc show ?case by simp
qed

lemma distinct_ids: "sorted_wrt (<) (map fst rows) \<Longrightarrow> distinct (map fst (rows :: row list))"
  by (simp add: strict_sorted_iff)

definition row_at :: "row list \<Rightarrow> nat \<Rightarrow> int \<Rightarrow> bool" where
  "row_at rows e ident \<longleftrightarrow> e < length rows \<and> int (fst (rows ! e)) = ident"

lemma row_at_unique:
  "sorted_wrt (<) (map fst rows) \<Longrightarrow> row_at rows e i \<Longrightarrow> row_at rows f i \<Longrightarrow> e = f"
  using distinct_ids [of rows] nth_eq_iff_index_eq [of "map fst rows" e f] by (auto simp: row_at_def)

lemma search_down:
  assumes "rows_at csv rows" "\<forall>r \<in> set rows. good_row r" "k \<le> length rows"
  shows "(case search_down csv ident k of
      Inl f \<Rightarrow> False
    | Inr None \<Rightarrow> \<forall>e < k. \<not> row_at rows e ident
    | Inr (Some e) \<Rightarrow> row_at rows e ident)"
  using assms(3)
proof (induction k)
  case (Suc k)
  have "rows ! k \<in> set rows" using Suc.prems by simp
  then have "atoi (line_of (rows ! k)) = int (fst (rows ! k))"
    using assms(2) by (intro atoi_line) (auto simp: good_row_def)
  moreover have "deref csv k = Inr (line_of (rows ! k))"
    using deref_row [OF assms(1)] Suc.prems by simp
  ultimately show ?case using Suc
    by (auto simp: row_at_def less_Suc_eq split: sum.splits option.splits)
qed simp

lemma find_entry_rows:
  assumes inv: "row_inv csv rows" and ne: "rows \<noteq> []"
  shows "(\<exists>e. find_entry csv ident = Inr (Some e) \<and> row_at rows e ident) \<or>
    find_entry csv ident = Inr None \<and> (\<forall>e. \<not> row_at rows e ident)"
proof -
  let ?n = "length rows"
  have at: "rows_at csv rows" and good: "\<forall>r \<in> set rows. good_row r"
    and sorted: "sorted_wrt (<) (map fst rows)" using inv by (simp_all add: row_inv_def)
  have n: "entries csv = ?n" "0 < ?n" using at ne by (simp_all add: rows_at_def)
  let ?last = "rows ! (?n - 1)"
  have "?last \<in> set rows" using n(2) by simp
  then have last: "atoi (line_of ?last) = int (fst ?last)" "fst ?last < 10 ^ 9"
    using good atoi_line by (auto simp: good_row_def)
  have max: "fst (rows ! e) \<le> fst ?last" if "e < ?n" for e
  proof (cases "e = ?n - 1")
    case False
    with that have "e < ?n - 1" by linarith
    with sorted_wrt_nth_less [OF sorted, of e "?n - 1"] n(2) show ?thesis by simp
  qed simp
  let ?k = "if ident mod 2 ^ 64 \<ge> int ?n then ?n else nat ident"
  have find: "find_entry csv ident = (if ident > int (fst ?last) then Inr None else search_down csv ident ?k)"
    using deref_row [OF at, of "?n - 1"] n last(1) by (simp add: find_entry_def)
  show ?thesis
  proof (cases "ident > int (fst ?last)")
    case True
    then have "\<not> row_at rows e ident" for e using max [of e] by (auto simp: row_at_def)
    with True find show ?thesis by simp
  next
    case False
    have k: "?k \<le> ?n \<and> (\<forall>e. row_at rows e ident \<longrightarrow> e < ?k)"
    proof (cases "ident mod 2 ^ 64 \<ge> int ?n")
      case c: False
      have "nat ident \<le> ?n"
      proof (cases "0 \<le> ident")
        case True
        then have "ident mod 2 ^ 64 = ident" using False last(2) by (intro mod_pos_pos_trivial) simp_all
        with c show ?thesis by simp
      qed simp
      moreover have "e < nat ident" if "row_at rows e ident" for e
        using sorted_ids [OF sorted good, of e] that by (auto simp: row_at_def)
      ultimately show ?thesis using c by simp
    qed (simp add: row_at_def)
    with search_down [OF at good, of ?k ident] False find show ?thesis
      by (auto split: sum.splits option.splits)
  qed
qed

text \<open>Looking a line up is looking the id up in the rows.\<close>

lemma get_line_rows:
  assumes inv: "row_inv csv rows" and ne: "rows \<noteq> []"
  shows "CSV_getLineById csv ident = Inr (map_of (map (\<lambda>r. (int (fst r), line_of r)) rows) ident)"
proof -
  let ?m = "map (\<lambda>r. (int (fst r), line_of r)) rows"
  have at: "rows_at csv rows" and sorted: "sorted_wrt (<) (map fst rows)" using inv by (simp_all add: row_inv_def)
  have "distinct (map int (map fst rows))" using distinct_ids [OF sorted] by (simp only: distinct_map) auto
  then have d: "distinct (map fst ?m)" by (simp add: comp_def)
  from find_entry_rows [OF inv ne, of ident] show ?thesis
  proof (elim disjE exE conjE)
    fix e assume e: "find_entry csv ident = Inr (Some e)" "row_at rows e ident"
    then have "(ident, line_of (rows ! e)) \<in> set ?m"
      using nth_mem [of e rows] by (auto simp: row_at_def image_iff)
    then have "map_of ?m ident = Some (line_of (rows ! e))" using d by (simp add: map_of_is_SomeI)
    moreover have "deref csv e = Inr (line_of (rows ! e))"
      using e(2) deref_row [OF at] by (simp add: row_at_def)
    ultimately show ?thesis using e(1) by (simp add: CSV_getLineById_def)
  next
    assume none: "find_entry csv ident = Inr None" "\<forall>e. \<not> row_at rows e ident"
    then have "ident \<notin> fst ` set ?m" by (fastforce simp: row_at_def in_set_conv_nth)
    then have "map_of ?m ident = None" by (simp only: map_of_eq_None_iff not_False_eq_True)
    with none(1) show ?thesis by (simp add: CSV_getLineById_def)
  qed
qed

subsection \<open>Appending and removing\<close>

lemma create_rows: "row_inv CSV_create []"
  by (simp add: row_inv_def rows_at_def CSV_create_def)

lemma dec_no_nul: "nul \<notin> set (dec n)"
  using dec_digits [of n] by (auto simp: isdigit_def nul_def)

lemma grow_rows:
  assumes "rows_at csv rows"
  shows "rows_at (grow_lines csv) rows" "entries (grow_lines csv) < csv_size (grow_lines csv)"
    "csv_file (grow_lines csv) = csv_file csv" "hdr_size (grow_lines csv) = hdr_size csv"
    "lastId (grow_lines csv) = lastId csv" "store (grow_lines csv) = store csv"
    "next_addr (grow_lines csv) = next_addr csv" "entries (grow_lines csv) = entries csv"
proof -
  have "lines_arr (grow_lines csv) ! i = lines_arr csv ! i" if "i < length rows" for i
    using that assms by (auto simp: grow_lines_def nth_append rows_at_def)
  then show "rows_at (grow_lines csv) rows" "entries (grow_lines csv) < csv_size (grow_lines csv)"
    using assms by (auto simp: rows_at_def grow_lines_def CSV_DEFAULT_LINES_def)
qed (simp_all add: grow_lines_def)

text \<open>Filling the slot behind the last row with a new block.\<close>

lemma new_row:
  assumes at: "rows_at csv rows" and room: "entries csv < csv_size csv"
  shows "rows_at (csv\<lparr>lines_arr := (lines_arr csv)[entries csv := Some (next_addr csv)],
      store := (store csv)(next_addr csv := Some (line_of r)), next_addr := next_addr csv + 1,
      entries := entries csv + 1, csv_file := f, lastId := l\<rparr>) (rows @ [r])"
proof -
  have n: "entries csv = length rows" using at by (simp add: rows_at_def)
  have old: "\<exists>a. a \<noteq> next_addr csv \<and> a < Suc (next_addr csv) \<and> lines_arr csv ! i = Some a \<and>
      store csv a = Some (line_of (rows ! i))" if "i < length rows" for i
  proof -
    from at that obtain a where "a < next_addr csv" "lines_arr csv ! i = Some a" "store csv a = Some (line_of (rows ! i))"
      by (auto simp: rows_at_def)
    then show ?thesis by (intro exI [of _ a]) simp
  qed
  have new: "lines_arr csv ! i \<noteq> Some (next_addr csv)" if "i < length rows" for i using old [OF that] by auto
  let ?arr = "(lines_arr csv)[length rows := Some (next_addr csv)]"
  have len: "length rows < length (lines_arr csv)" using at room n by (simp add: rows_at_def)
  have ptr: "?arr ! i = (if i = length rows then Some (next_addr csv) else lines_arr csv ! i)" for i
    using len by (cases "i = length rows") simp_all
  have "\<exists>a < Suc (next_addr csv). ?arr ! i = Some a \<and>
      ((store csv)(next_addr csv := Some (line_of r))) a = Some (line_of ((rows @ [r]) ! i))"
    if "i < Suc (length rows)" for i
  proof (cases "i = length rows")
    case False
    with that have "i < length rows" by simp
    with old [OF this] False show ?thesis by (auto simp: ptr nth_append)
  qed (simp add: ptr)
  moreover have "?arr ! i \<noteq> ?arr ! j" if "j < Suc (length rows)" "i < j" for i j
    using that at new [of i] by (auto simp: ptr rows_at_def)
  ultimately show ?thesis using at room n by (simp add: rows_at_def)
qed

lemma append_rows:
  assumes inv: "row_inv csv rows" and s: "good_text s" and small: "lastId csv + 1 < 10 ^ 9"
  shows "\<exists>csv'. CSV_appendNewLine csv s = Inr csv' \<and> lastId csv' = lastId csv + 1 \<and>
    row_inv csv' (rows @ [(nat (lastId csv + 1), s)]) \<and> hdr_size csv' = hdr_size csv \<and>
    take (hdr_size csv) (csv_file csv') = take (hdr_size csv) (csv_file csv)"
proof -
  let ?g = "grow_lines csv" and ?r = "(nat (lastId csv + 1), s)"
  have at: "rows_at csv rows" and l: "0 \<le> lastId csv" using inv by (simp_all add: row_inv_def)
  note g = grow_rows [OF at]
  have ln: "dec_int (lastId csv + 1) @ '';'' @ s @ [CHR 0x0A] = line_of ?r"
    using l by (simp add: dec_int_def line_of_def)
  have nn: "nul \<notin> set (line_of ?r)"
    using s dec_no_nul unfolding line_of_def good_text_def by (simp add: nul_def)
  have "length (dec (nat (lastId csv + 1))) \<le> 9" using l small by (intro length_dec) (simp_all add: nat_less_iff)
  then have len: "length (line_of ?r) < length (replicate (length ''1234567890;'' + 1 + length s) (None :: char option))"
    by (simp add: line_of_def)
  let ?csv = "?g\<lparr>lines_arr := (lines_arr ?g)[entries ?g := Some (next_addr ?g)],
      store := (store ?g)(next_addr ?g := Some (line_of ?r)), next_addr := next_addr ?g + 1,
      entries := entries ?g + 1, csv_file := csv_file ?g @ line_of ?r, lastId := lastId csv + 1\<rparr>"
  have run: "CSV_appendNewLine csv s = Inr ?csv"
    unfolding CSV_appendNewLine_def Let_def ln sprintf_at_start [OF len] bind_res_simps read_str_text [OF nn]
    by simp
  have "rows_at ?csv (rows @ [?r])" by (rule new_row [OF g(1,2)])
  then have "row_inv ?csv (rows @ [?r])"
    using inv s small l g by (auto simp: row_inv_def sorted_wrt_append good_row_def nat_less_iff)
  moreover have "hdr_size ?csv = hdr_size csv" "csv_file ?csv = csv_file csv @ line_of ?r" using g by simp_all
  moreover have "hdr_size csv \<le> length (csv_file csv)" using inv by (simp add: row_inv_def)
  ultimately show ?thesis using run by (intro exI [of _ ?csv]) simp
qed

lemma deref_all_rows:
  "rows_at csv rows \<Longrightarrow> \<forall>i \<in> set is. i < length rows \<Longrightarrow>
   deref_all csv is = Inr (map (\<lambda>i. line_of (rows ! i)) is)"
  by (induction "is") (simp_all add: deref_row)

lemma map_nth_take: "n \<le> length xs \<Longrightarrow> map (\<lambda>i. f (xs ! i)) [0..<n] = map f (take n xs)"
  by (rule nth_equalityI) auto

lemma map_nth_drop: "map (\<lambda>i. f (xs ! i)) [k..<length xs] = map f (drop k xs)"
  by (rule nth_equalityI) auto

text \<open>The array after the \<open>memmove\<close>.\<close>

lemma removed_pointers:
  assumes at: "rows_at csv rows" and e: "e < length rows"
  defines "n \<equiv> length rows - 1"
  defines "arr \<equiv> take e (lines_arr csv) @ take (n - e) (drop (Suc e) (lines_arr csv)) @ drop n (lines_arr csv)"
  shows "length arr = csv_size csv" "i < e \<Longrightarrow> arr ! i = lines_arr csv ! i"
    "e \<le> i \<Longrightarrow> i < n \<Longrightarrow> arr ! i = lines_arr csv ! Suc i"
    "i \<ge> n \<Longrightarrow> i < csv_size csv \<Longrightarrow> arr ! i = lines_arr csv ! i"
proof -
  have l: "length (take e (lines_arr csv)) = e" "length (take (n - e) (drop (Suc e) (lines_arr csv))) = n - e"
    "length (drop n (lines_arr csv)) = csv_size csv - n" "e \<le> n" "length (lines_arr csv) = csv_size csv" "n < csv_size csv"
    using at e by (auto simp: rows_at_def n_def)
  show "length arr = csv_size csv" unfolding arr_def length_append l using l(4,6) by simp
  show "i < e \<Longrightarrow> arr ! i = lines_arr csv ! i" unfolding arr_def nth_append l by simp
  show "e \<le> i \<Longrightarrow> i < n \<Longrightarrow> arr ! i = lines_arr csv ! Suc i"
    unfolding arr_def nth_append l using l(5,6) by (simp add: diff_less_mono)
  show "i \<ge> n \<Longrightarrow> i < csv_size csv \<Longrightarrow> arr ! i = lines_arr csv ! i"
    unfolding arr_def nth_append l using l(4-6) diff_le_mono [of n i e] by simp
qed

definition remove_nth :: "nat \<Rightarrow> 'a list \<Rightarrow> 'a list" where
  "remove_nth e xs = take e xs @ drop (Suc e) xs"

lemma remove_nth_nth:
  "e < length xs \<Longrightarrow> i < length xs - 1 \<Longrightarrow> remove_nth e xs ! i = (if i < e then xs ! i else xs ! Suc i)"
  by (auto simp: remove_nth_def nth_append min_def)

lemma length_remove_nth [simp]: "e < length xs \<Longrightarrow> length (remove_nth e xs) = length xs - 1"
  by (simp add: remove_nth_def)

lemma sorted_remove_nth: "sorted_wrt P xs \<Longrightarrow> sorted_wrt P (remove_nth e xs)"
proof (cases "e < length xs")
  case True
  assume "sorted_wrt P xs"
  with True show ?thesis by (auto simp: sorted_wrt_iff_nth_less remove_nth_nth)
qed (simp add: remove_nth_def)

lemma set_remove_nth: "set (remove_nth e xs) \<subseteq> set xs"
  by (auto simp: remove_nth_def dest: in_set_takeD in_set_dropD)

text \<open>The removed block is freed, the pointers behind it move one slot down.\<close>

lemma removed_rows:
  assumes at: "rows_at csv rows" and e: "e < length rows" and a: "lines_arr csv ! e = Some a"
  defines "n \<equiv> length rows - 1"
  defines "arr \<equiv> take e (lines_arr csv) @ take (n - e) (drop (Suc e) (lines_arr csv)) @ drop n (lines_arr csv)"
  shows "rows_at (csv\<lparr>entries := n, store := (store csv)(a := None), lines_arr := arr, csv_file := f\<rparr>) (remove_nth e rows)"
proof -
  note arr = removed_pointers [OF at e, folded n_def, folded arr_def]
  let ?src = "\<lambda>i. if i < e then i else Suc i"
  have src: "arr ! i = lines_arr csv ! ?src i" "remove_nth e rows ! i = rows ! ?src i" "?src i < length rows" "?src i \<noteq> e"
    if "i < n" for i
  proof -
    have il: "i < length rows - 1" using that by (simp add: n_def)
    show "arr ! i = lines_arr csv ! ?src i" using arr(2,3) [of i] that by simp
    show "remove_nth e rows ! i = rows ! ?src i" using remove_nth_nth [OF e il] by simp
    show "?src i < length rows" "?src i \<noteq> e" using il e by auto
  qed
  have ptr: "\<exists>b < next_addr csv. arr ! i = Some b \<and> ((store csv)(a := None)) b = Some (line_of (remove_nth e rows ! i))"
    if "i < n" for i
  proof -
    note s = src [OF that]
    from at s(3) obtain b where b: "b < next_addr csv" "lines_arr csv ! ?src i = Some b"
      "store csv b = Some (line_of (rows ! ?src i))" by (auto simp: rows_at_def)
    have "lines_arr csv ! ?src i \<noteq> lines_arr csv ! e"
      using at s(3,4) e unfolding rows_at_def by (cases "?src i < e") (metis linorder_neqE_nat)+
    then have "b \<noteq> a" using b(2) a by auto
    with b s(1,2) show ?thesis by auto
  qed
  have dist: "arr ! i \<noteq> arr ! j" if "j < n" "i < j" for i j
  proof -
    have "i < n" "?src i < ?src j" using that by auto
    with src [of i] src [of j] that at show ?thesis by (simp add: rows_at_def)
  qed
  have "n \<le> csv_size csv" "length arr = csv_size csv" using at e arr(1) by (auto simp: rows_at_def n_def)
  moreover have len: "length (remove_nth e rows) = n" using e by (simp add: n_def)
  ultimately show ?thesis unfolding rows_at_def len using ptr dist by simp
qed

lemma cut_file:
  assumes "f = A @ L @ R" "c \<or> R = []"
  shows "take (length f - length L) (if c then file_write f (length A) R else f) = A @ R"
  using assms by (auto simp: file_write_def)

text \<open>The file without the line of one row.\<close>

lemma removed_file:
  assumes "row_inv csv rows" "e < length rows"
  defines "pos \<equiv> hdr_size csv + length (concat (map line_of (take e rows)))"
  defines "f \<equiv> (if e < length rows - 1 then file_write (csv_file csv) pos (concat (map line_of (drop (Suc e) rows))) else csv_file csv)"
  shows "take (length (csv_file csv) - length (line_of (rows ! e))) f =
    take (hdr_size csv) (csv_file csv) @ concat (map line_of (remove_nth e rows))"
proof -
  let ?A = "take (hdr_size csv) (csv_file csv) @ concat (map line_of (take e rows))"
  let ?R = "concat (map line_of (drop (Suc e) rows))"
  have rows: "rows = take e rows @ rows ! e # drop (Suc e) rows" by (rule id_take_nth_drop [OF assms(2)])
  have hl: "hdr_size csv \<le> length (csv_file csv)" using assms(1) by (simp add: row_inv_def)
  have "csv_file csv = take (hdr_size csv) (csv_file csv) @ concat (map line_of rows)"
    using assms(1) by (metis append_take_drop_id row_inv_def)
  also have "concat (map line_of rows) = concat (map line_of (take e rows)) @ line_of (rows ! e) @ ?R"
    by (subst rows) simp
  finally have all: "csv_file csv = ?A @ line_of (rows ! e) @ ?R" by (simp only: append_assoc)
  have pos: "pos = length ?A" using hl by (simp add: pos_def)
  have c: "e < length rows - 1 \<or> ?R = []" using assms(2) by auto
  have "take (length (csv_file csv) - length (line_of (rows ! e))) f = ?A @ ?R"
    unfolding f_def pos by (rule cut_file [OF all c])
  then show ?thesis by (simp only: remove_nth_def map_append concat_append append_assoc)
qed

lemma remove_rows:
  assumes inv: "row_inv csv rows" and e: "row_at rows e ident"
  shows "\<exists>csv' a. CSV_removeLineById csv ident = Inr (csv', 0) \<and> row_inv csv' (remove_nth e rows) \<and>
    lastId csv' = lastId csv \<and> hdr_size csv' = hdr_size csv \<and>
    take (hdr_size csv) (csv_file csv') = take (hdr_size csv) (csv_file csv) \<and>
    lines_arr csv ! e = Some a \<and> store csv' = (store csv)(a := None) \<and>
    lines_arr csv' = take e (lines_arr csv) @ take (length rows - 1 - e) (drop (Suc e) (lines_arr csv)) @
      drop (length rows - 1) (lines_arr csv)"
proof -
  let ?n = "length rows - 1"
  have el: "e < length rows" using e by (simp add: row_at_def)
  then have ne: "rows \<noteq> []" by auto
  have at: "rows_at csv rows" and good: "\<forall>r \<in> set rows. good_row r" and sorted: "sorted_wrt (<) (map fst rows)"
    using inv by (simp_all add: row_inv_def)
  have find: "find_entry csv ident = Inr (Some e)"
    using find_entry_rows [OF inv ne, of ident]
  proof (elim disjE exE conjE)
    fix k assume k: "find_entry csv ident = Inr (Some k)" "row_at rows k ident"
    have "k = e" by (rule row_at_unique [OF sorted k(2) e])
    with k(1) show ?thesis by simp
  qed (use e in blast)
  from at el obtain a where a: "lines_arr csv ! e = Some a" "store csv a = Some (line_of (rows ! e))"
    by (auto simp: rows_at_def)
  have n: "entries csv - 1 = ?n" "e \<le> ?n" using at el by (auto simp: rows_at_def)
  let ?arr = "take e (lines_arr csv) @ take (?n - e) (drop (Suc e) (lines_arr csv)) @ drop ?n (lines_arr csv)"
  let ?csv = "csv\<lparr>entries := ?n, store := (store csv)(a := None), lines_arr := ?arr\<rparr>"
  have at': "rows_at (?csv\<lparr>csv_file := f\<rparr>) (remove_nth e rows)" for f
    using removed_rows [OF at el a(1), of f] by simp
  have at1: "rows_at ?csv (remove_nth e rows)" using at' [of "csv_file csv"] by simp
  have before: "deref_all ?csv [0..<e] = Inr (map line_of (take e rows))"
    using deref_all_rows [OF at1, of "[0..<e]"] el n(2)
    by (auto simp: remove_nth_nth map_nth_take [symmetric])
  have behind: "deref_all ?csv [e..<?n] = Inr (map line_of (drop (Suc e) rows))"
  proof -
    have "map (\<lambda>i. line_of (remove_nth e rows ! i)) [e..<?n] = map line_of (drop e (remove_nth e rows))"
      using map_nth_drop [of line_of "remove_nth e rows" e] el by simp
    moreover have "drop e (remove_nth e rows) = drop (Suc e) rows" using el by (simp add: remove_nth_def)
    ultimately show ?thesis using deref_all_rows [OF at1, of "[e..<?n]"] el by simp
  qed
  let ?pos = "hdr_size csv + length (concat (map line_of (take e rows)))"
  let ?f = "if e < ?n then file_write (csv_file csv) ?pos (concat (map line_of (drop (Suc e) rows))) else csv_file csv"
  let ?new = "?csv\<lparr>csv_file := take (length (csv_file csv) - length (line_of (rows ! e))) ?f\<rparr>"
  have free: "free_ptr (lines_arr csv ! e) (store csv) = Inr ((store csv)(a := None))"
    using a by (simp add: free_ptr_def)
  have run: "CSV_removeLineById csv ident = Inr (?new, 0)"
    unfolding CSV_removeLineById_def find bind_res_simps option.case deref_row [OF at el] free
      Let_def n(1) before behind ..
  have hl: "hdr_size csv \<le> length (csv_file csv)" using inv by (simp add: row_inv_def)
  have "csv_file ?new = take (hdr_size csv) (csv_file csv) @ concat (map line_of (remove_nth e rows))"
    using removed_file [OF inv el] by simp
  then have fl: "hdr_size csv \<le> length (csv_file ?new) \<and> drop (hdr_size csv) (csv_file ?new) = concat (map line_of (remove_nth e rows)) \<and>
    take (hdr_size csv) (csv_file ?new) = take (hdr_size csv) (csv_file csv)"
    using hl by (simp only:) simp
  have "row_inv ?new (remove_nth e rows)"
    using inv at' [of "take (length (csv_file csv) - length (line_of (rows ! e))) ?f"] fl set_remove_nth [of e rows]
      sorted_remove_nth [OF sorted, of e] by (auto simp: row_inv_def remove_nth_def take_map drop_map)
  moreover have "lastId ?new = lastId csv" "hdr_size ?new = hdr_size csv"
    "store ?new = (store csv)(a := None)" "lines_arr ?new = ?arr" by simp_all
  ultimately show ?thesis using run fl a(1) by (intro exI [of _ ?new] exI [of _ a]) (simp only: simp_thms)
qed

lemma remove_absent:
  assumes "row_inv csv rows" "rows \<noteq> []" "\<forall>e. \<not> row_at rows e ident"
  shows "CSV_removeLineById csv ident = Inr (csv, -1)"
  using find_entry_rows [OF assms(1,2), of ident] assms(3) by (auto simp: CSV_removeLineById_def)

lemma filter_remove_nth:
  assumes "sorted_wrt (<) (map fst rows)" "row_at rows e ident"
  shows "filter (\<lambda>r. int (fst r) \<noteq> ident) rows = remove_nth e rows"
proof -
  have e: "e < length rows" "int (fst (rows ! e)) = ident" using assms(2) by (simp_all add: row_at_def)
  have rows: "rows = take e rows @ rows ! e # drop (Suc e) rows" by (rule id_take_nth_drop [OF e(1)])
  have "distinct (map fst (take e rows @ rows ! e # drop (Suc e) rows))"
    using distinct_ids [OF assms(1)] rows by (simp only:)
  then have "\<forall>r \<in> set (take e rows) \<union> set (drop (Suc e) rows). int (fst r) \<noteq> ident"
    using e(2) by (auto simp: image_iff)
  then have "filter (\<lambda>r. int (fst r) \<noteq> ident) (take e rows) = take e rows"
    "filter (\<lambda>r. int (fst r) \<noteq> ident) (drop (Suc e) rows) = drop (Suc e) rows"
    by (simp_all add: filter_id_conv)
  then show ?thesis by (subst rows) (simp add: e(2) remove_nth_def)
qed

subsection \<open>Scripts of operations\<close>

datatype csv_op = Append string | Remove int

fun csv_run :: "csv_raw_t \<Rightarrow> csv_op list \<Rightarrow> csv_raw_t res" where
  "csv_run csv [] = Inr csv"
| "csv_run csv (Append s # ops) = bind_res (CSV_appendNewLine csv s) (\<lambda>c. csv_run c ops)"
| "csv_run csv (Remove i # ops) = bind_res (CSV_removeLineById csv i) (\<lambda>(c, _). csv_run c ops)"

text \<open>The same on rows; \<open>None\<close> for a line with a newline, an id of ten digits, or a removal from an
  empty file.\<close>

fun rows_run :: "int \<Rightarrow> row list \<Rightarrow> csv_op list \<Rightarrow> row list option" where
  "rows_run k rows [] = Some rows"
| "rows_run k rows (Append s # ops) =
     (if good_text s \<and> k + 1 < 10 ^ 9 then rows_run (k + 1) (rows @ [(nat (k + 1), s)]) ops else None)"
| "rows_run k rows (Remove i # ops) =
     (if rows = [] then None else rows_run k (filter (\<lambda>r. int (fst r) \<noteq> i) rows) ops)"

lemma csv_run_rows:
  assumes "row_inv csv rows" "rows_run (lastId csv) rows ops = Some rows'"
  shows "\<exists>csv'. csv_run csv ops = Inr csv' \<and> row_inv csv' rows' \<and> hdr_size csv' = hdr_size csv \<and>
    take (hdr_size csv) (csv_file csv') = take (hdr_size csv) (csv_file csv)"
  using assms
proof (induction ops arbitrary: csv rows)
  case (Cons op ops)
  show ?case
  proof (cases op)
    case (Append s)
    with Cons.prems(2) have "good_text s" "lastId csv + 1 < 10 ^ 9" by (auto split: if_splits)
    from append_rows [OF Cons.prems(1) this] obtain c where c: "CSV_appendNewLine csv s = Inr c"
      "lastId c = lastId csv + 1" "row_inv c (rows @ [(nat (lastId csv + 1), s)])" "hdr_size c = hdr_size csv"
      "take (hdr_size csv) (csv_file c) = take (hdr_size csv) (csv_file csv)" by blast
    with Cons.prems(2) Append have "rows_run (lastId c) (rows @ [(nat (lastId csv + 1), s)]) ops = Some rows'"
      by (auto split: if_splits)
    from Cons.IH [OF c(3) this] c Append show ?thesis by auto
  next
    case (Remove i)
    with Cons.prems(2) have ne: "rows \<noteq> []" by (auto split: if_splits)
    have run: "rows_run (lastId csv) (filter (\<lambda>r. int (fst r) \<noteq> i) rows) ops = Some rows'"
      using Cons.prems(2) Remove ne by simp
    show ?thesis
    proof (cases "\<exists>e. row_at rows e i")
      case True
      then obtain e where e: "row_at rows e i" by blast
      have "filter (\<lambda>r. int (fst r) \<noteq> i) rows = remove_nth e rows"
        using Cons.prems(1) e by (intro filter_remove_nth) (simp_all add: row_inv_def)
      moreover from remove_rows [OF Cons.prems(1) e] obtain c where c: "CSV_removeLineById csv i = Inr (c, 0)"
        "row_inv c (remove_nth e rows)" "lastId c = lastId csv" "hdr_size c = hdr_size csv"
        "take (hdr_size csv) (csv_file c) = take (hdr_size csv) (csv_file csv)" by blast
      ultimately have "rows_run (lastId c) (remove_nth e rows) ops = Some rows'" using run by simp
      from Cons.IH [OF c(2) this] c Remove show ?thesis by auto
    next
      case False
      then have "\<forall>r \<in> set rows. int (fst r) \<noteq> i" by (fastforce simp: row_at_def in_set_conv_nth)
      then have "filter (\<lambda>r. int (fst r) \<noteq> i) rows = rows" by (simp add: filter_id_conv)
      with run have "rows_run (lastId csv) rows ops = Some rows'" by simp
      from Cons.IH [OF Cons.prems(1) this] remove_absent [OF Cons.prems(1) ne, of i] False Remove
      show ?thesis by auto
    qed
  qed
qed simp

subsection \<open>Loading\<close>

text \<open>The slot the next line is read into: empty, or the block of the header.\<close>

definition slot_ok :: "csv_raw_t \<Rightarrow> bool" where
  "slot_ok csv \<longleftrightarrow> entries csv < csv_size csv \<and> length (lines_arr csv) = csv_size csv \<and>
     (lines_arr csv ! entries csv = None \<or>
      (\<exists>a < next_addr csv. lines_arr csv ! entries csv = Some a \<and> (\<forall>i < entries csv. lines_arr csv ! i \<noteq> Some a))) \<and>
     (\<forall>i. entries csv < i \<longrightarrow> i < csv_size csv \<longrightarrow> lines_arr csv ! i = None)"

lemma slot_block_rows:
  assumes at: "rows_at csv rows" and ok: "slot_ok csv"
  shows "\<exists>a. lines_arr (slot_block csv l) ! entries csv = Some a \<and> a < next_addr (slot_block csv l) \<and>
      store (slot_block csv l) a = Some l \<and> (\<forall>i < entries csv. lines_arr (slot_block csv l) ! i \<noteq> Some a)"
    and "rows_at (slot_block csv l) rows"
    and "i \<noteq> entries csv \<Longrightarrow> lines_arr (slot_block csv l) ! i = lines_arr csv ! i"
proof -
  have n: "entries csv = length rows" "length rows < length (lines_arr csv)"
    using at ok by (auto simp: rows_at_def slot_ok_def)
  have old: "\<exists>b < next_addr csv. lines_arr csv ! i = Some b \<and> store csv b = Some (line_of (rows ! i))"
    if "i < length rows" for i using at that by (auto simp: rows_at_def)
  show "\<exists>a. lines_arr (slot_block csv l) ! entries csv = Some a \<and> a < next_addr (slot_block csv l) \<and>
      store (slot_block csv l) a = Some l \<and> (\<forall>i < entries csv. lines_arr (slot_block csv l) ! i \<noteq> Some a)"
    using n ok old by (force simp: slot_block_def slot_ok_def split: option.splits)
  show "i \<noteq> entries csv \<Longrightarrow> lines_arr (slot_block csv l) ! i = lines_arr csv ! i"
    by (simp add: slot_block_def split: option.splits)
  show "rows_at (slot_block csv l) rows"
  proof (cases "lines_arr csv ! length rows")
    case None
    have "\<exists>b < Suc (next_addr csv). lines_arr csv ! i = Some b \<and>
        ((store csv)(next_addr csv := Some l)) b = Some (line_of (rows ! i))" if "i < length rows" for i
      using old [OF that] by (metis fun_upd_other less_SucI less_irrefl)
    with None n at show ?thesis by (auto simp: slot_block_def rows_at_def)
  next
    case (Some a)
    have "\<exists>b < next_addr csv. lines_arr csv ! i = Some b \<and>
        ((store csv)(a := Some l)) b = Some (line_of (rows ! i))" if "i < length rows" for i
    proof -
      from old [OF that] obtain b where b: "b < next_addr csv" "lines_arr csv ! i = Some b"
        "store csv b = Some (line_of (rows ! i))" by blast
      moreover have "b \<noteq> a" using ok Some b(2) that n(1) by (auto simp: slot_ok_def)
      ultimately show ?thesis by auto
    qed
    with Some n at show ?thesis by (auto simp: slot_block_def rows_at_def)
  qed
qed

lemma slot_block_fields [simp]:
  "entries (slot_block csv l) = entries csv" "csv_size (slot_block csv l) = csv_size csv"
  "csv_file (slot_block csv l) = csv_file csv" "hdr_size (slot_block csv l) = hdr_size csv"
  "lastId (slot_block csv l) = lastId csv" "length (lines_arr (slot_block csv l)) = length (lines_arr csv)"
  by (simp_all add: slot_block_def split: option.splits)

text \<open>One turn of the loop.\<close>

lemma load_turn:
  fixes r :: row
  assumes at: "rows_at csv rows" and ok: "slot_ok csv"
  defines "csv' \<equiv> grow_lines ((slot_block csv (line_of r))\<lparr>entries := entries csv + 1\<rparr>)"
  shows "rows_at csv' (rows @ [r])" "slot_ok csv'" "csv_file csv' = csv_file csv" "hdr_size csv' = hdr_size csv"
proof -
  let ?s = "slot_block csv (line_of r)"
  let ?c = "?s\<lparr>entries := entries csv + 1\<rparr>"
  from slot_block_rows(1) [OF at ok, of "line_of r"] obtain a where a: "lines_arr ?s ! entries csv = Some a"
    "a < next_addr ?s" "store ?s a = Some (line_of r)" "\<forall>i < entries csv. lines_arr ?s ! i \<noteq> Some a" by blast
  have s: "rows_at ?s rows" by (rule slot_block_rows(2) [OF at ok])
  have n: "entries csv = length rows" "length rows < csv_size csv" using at ok by (auto simp: rows_at_def slot_ok_def)
  have c: "rows_at ?c (rows @ [r])"
    using s a n by (auto simp: rows_at_def nth_append less_Suc_eq)
  note g = grow_rows [OF c, folded csv'_def]
  show "rows_at csv' (rows @ [r])" by (rule g(1))
  have none: "lines_arr csv' ! i = None" if "Suc (length rows) \<le> i" "i < csv_size csv'" for i
  proof -
    have "lines_arr ?s ! i = None" if "i < csv_size csv"
      using ok slot_block_rows(3) [OF at ok, of i "line_of r"] \<open>Suc (length rows) \<le> i\<close> n that by (auto simp: slot_ok_def)
    moreover have "length (lines_arr ?s) = csv_size csv" using ok by (simp add: slot_ok_def)
    ultimately show ?thesis using that by (auto simp: csv'_def grow_lines_def nth_append)
  qed
  show "slot_ok csv'"
    using g none n by (auto simp: slot_ok_def rows_at_def)
qed (simp_all add: csv'_def grow_lines_def)

lemma takeWhile_line: "CHR 0x0A \<notin> set t \<Longrightarrow> takeWhile (\<lambda>c. c \<noteq> CHR 0x0A) (t @ CHR 0x0A # r) = t"
  by (subst takeWhile_append2) auto

lemma getline_row: "good_row r \<Longrightarrow> getline (line_of r @ rest) = Some (line_of r, rest)"
proof -
  assume r: "good_row r"
  let ?t = "dec (fst r) @ '';'' @ snd r"
  have "CHR 0x0A \<notin> set ?t" using r dec_digits [of "fst r"] by (auto simp: good_row_def good_text_def isdigit_def)
  then have "takeWhile (\<lambda>c. c \<noteq> CHR 0x0A) (?t @ CHR 0x0A # rest) = ?t" by (rule takeWhile_line)
  then show ?thesis by (simp add: getline_def line_of_def Let_def)
qed

lemma load_rows:
  assumes "rows_at csv rows" "slot_ok csv" "\<forall>r \<in> set ms. good_row r"
  shows "rows_at (load_lines csv (concat (map line_of ms))) (rows @ ms) \<and>
    csv_file (load_lines csv (concat (map line_of ms))) = csv_file csv \<and>
    hdr_size (load_lines csv (concat (map line_of ms))) = hdr_size csv"
  using assms
proof (induction ms arbitrary: csv rows)
  case Nil
  then show ?case using slot_block_rows(2) [OF Nil.prems(1,2)]
    by (simp add: load_lines.simps [of csv "[]"] getline_def)
next
  case (Cons r ms)
  let ?c = "grow_lines ((slot_block csv (line_of r))\<lparr>entries := entries csv + 1\<rparr>)"
  have g: "getline (concat (map line_of (r # ms))) = Some (line_of r, concat (map line_of ms))"
    using getline_row [of r "concat (map line_of ms)"] Cons.prems(3) by simp
  have "load_lines csv (concat (map line_of (r # ms))) = load_lines ?c (concat (map line_of ms))"
    by (simp only: load_lines.simps [of csv] g option.case prod.case)
  moreover note t = load_turn [OF Cons.prems(1,2), of r]
  ultimately show ?case using Cons.IH [OF t(1,2)] Cons.prems(3) t(3,4) by simp
qed

lemma csv_load_rows:
  assumes f: "f = h @ CHR 0x0A # concat (map line_of rows)" "CHR 0x0A \<notin> set h"
    and rows: "sorted_wrt (<) (map fst rows)" "\<forall>r \<in> set rows. good_row r"
  shows "\<exists>csv. CSV_load (Some f) = Inr (Some csv) \<and> row_inv csv rows \<and>
    lastId csv = (if rows = [] then 0 else int (fst (last rows)))"
proof -
  let ?l = "h @ [CHR 0x0A]"
  let ?base = "CSV_create\<lparr>csv_file := f\<rparr>"
  let ?c = "(slot_block ?base ?l)\<lparr>hdr_size := length ?l\<rparr>"
  let ?csv = "load_lines ?c (concat (map line_of rows))"
  have "takeWhile (\<lambda>c. c \<noteq> CHR 0x0A) f = h" unfolding f(1) by (rule takeWhile_line [OF f(2)])
  then have g: "getline f = Some (?l, concat (map line_of rows))" by (simp add: getline_def f(1))
  have base: "rows_at ?c [] \<and> slot_ok ?c"
    by (auto simp: rows_at_def slot_ok_def slot_block_def CSV_create_def CSV_DEFAULT_LINES_def nth_Cons split: nat.splits)
  from load_rows [OF conjunct1 [OF base] conjunct2 [OF base] rows(2)]
  have l: "rows_at ?csv rows" "csv_file ?csv = f" "hdr_size ?csv = length ?l" by (simp_all add: CSV_create_def)
  have n: "entries ?csv = length rows" using l(1) by (simp add: rows_at_def)
  have load: "CSV_load (Some f) = (if entries ?csv = 0 then Inr (Some ?csv)
      else bind_res (deref ?csv (entries ?csv - 1)) (\<lambda>s. Inr (Some (?csv\<lparr>lastId := atoi s\<rparr>))))"
    by (simp only: CSV_load_def g option.case prod.case Let_def)
  have fl: "hdr_size ?csv \<le> length (csv_file ?csv)" "drop (hdr_size ?csv) (csv_file ?csv) = concat (map line_of rows)"
    unfolding l by (simp_all add: f(1))
  show ?thesis
  proof (cases "rows = []")
    case True
    have "lastId ?csv = 0" unfolding True by (simp add: load_lines.simps [of _ "[]"] getline_def CSV_create_def)
    with True load n l(1) fl show ?thesis by (auto simp: row_inv_def)
  next
    case False
    then have last: "rows ! (length rows - 1) = last rows" "length rows - 1 < length rows" by (simp_all add: last_conv_nth)
    have "good_row (last rows)" using rows(2) False by simp
    then have "atoi (line_of (last rows)) = int (fst (last rows))" by (intro atoi_line) (simp add: good_row_def)
    with load False n deref_row [OF l(1) last(2)] last(1)
    have run: "CSV_load (Some f) = Inr (Some (?csv\<lparr>lastId := int (fst (last rows))\<rparr>))" by simp
    have max: "fst r \<le> fst (last rows)" if r: "r \<in> set rows" for r
    proof -
      obtain i where i: "i < length rows" "r = rows ! i" using r by (auto simp: in_set_conv_nth)
      show ?thesis
      proof (cases "i = length rows - 1")
        case False
        with i(1) have "i < length rows - 1" by linarith
        with sorted_wrt_nth_less [OF rows(1), of i "length rows - 1"] i last show ?thesis by simp
      qed (use i last in simp)
    qed
    have "row_inv (?csv\<lparr>lastId := int (fst (last rows))\<rparr>) rows"
      using l(1) fl rows max by (auto simp: row_inv_def rows_at_def)
    with run False show ?thesis by auto
  qed
qed

subsection \<open>Closing\<close>

lemma free_all_once:
  "free_all ps st = Inr st' \<Longrightarrow>
   (\<forall>a. Some a \<in> set ps \<longrightarrow> st a \<noteq> None) \<and> (\<forall>j < length ps. \<forall>i < j. ps ! i \<noteq> None \<longrightarrow> ps ! i \<noteq> ps ! j)"
proof (induction ps arbitrary: st)
  case (Cons p ps)
  then obtain st1 where s: "free_ptr p st = Inr st1" "free_all ps st1 = Inr st'" by (auto simp: bind_res_Inr)
  note IH = Cons.IH [OF s(2)]
  have p: "p \<noteq> None \<Longrightarrow> p \<notin> set ps" using s(1) IH
    by (auto simp: free_ptr_def split: option.splits if_splits)
  have live: "\<forall>a. Some a \<in> set (p # ps) \<longrightarrow> st a \<noteq> None"
    using s(1) IH by (auto simp: free_ptr_def split: option.splits if_splits)
  have "(p # ps) ! i \<noteq> (p # ps) ! j" if "j < length (p # ps)" "i < j" "(p # ps) ! i \<noteq> None" for i j
    using that p IH by (cases i; cases j) auto
  with live show ?case by blast
qed simp

lemma free_all_fault: "free_all ps st = Inl f \<Longrightarrow> f = BadFree"
  by (induction ps arbitrary: st) (auto simp: bind_res_Inl free_ptr_def split: option.splits if_splits)

lemma close_after_remove:
  assumes inv: "row_inv csv rows" and e: "row_at rows e ident"
  shows "\<exists>csv'. CSV_removeLineById csv ident = Inr (csv', 0) \<and> CSV_close csv' = Inl BadFree"
proof -
  let ?n = "length rows - 1"
  from remove_rows [OF inv e] obtain csv' a where c: "CSV_removeLineById csv ident = Inr (csv', 0)"
    "lines_arr csv ! e = Some a" "store csv' = (store csv)(a := None)"
    "lines_arr csv' = take e (lines_arr csv) @ take (?n - e) (drop (Suc e) (lines_arr csv)) @ drop ?n (lines_arr csv)"
    by blast
  have at: "rows_at csv rows" and el: "e < length rows" using inv e by (simp_all add: row_inv_def row_at_def)
  note p = removed_pointers [OF at el, folded c(4)]
  have n: "?n < csv_size csv" "?n < length rows" using at el by (auto simp: rows_at_def)
  have "CSV_close csv' \<noteq> Inr st" for st
  proof
    assume "CSV_close csv' = Inr st"
    then have f: "\<forall>b. Some b \<in> set (lines_arr csv') \<longrightarrow> store csv' b \<noteq> None"
      "\<forall>j < length (lines_arr csv'). \<forall>i < j. lines_arr csv' ! i \<noteq> None \<longrightarrow> lines_arr csv' ! i \<noteq> lines_arr csv' ! j"
      using free_all_once unfolding CSV_close_def by blast+
    show False
    proof (cases "e = ?n")
      case True
      then have "lines_arr csv' ! ?n = Some a" using p(4) [of ?n] n(1) c(2) by simp
      then have "Some a \<in> set (lines_arr csv')" using p(1) n(1) by (metis nth_mem)
      moreover have "store csv' a = None" using c(3) by simp
      ultimately show False using f(1) by blast
    next
      case False
      then have k: "e \<le> ?n - 1" "?n - 1 < ?n" "Suc (?n - 1) = ?n" using el by auto
      have "lines_arr csv' ! (?n - 1) = lines_arr csv ! ?n" using p(3) [OF k(1,2)] k(3) by simp
      moreover have "lines_arr csv' ! ?n = lines_arr csv ! ?n" using p(4) [of ?n] n(1) by simp
      moreover have "lines_arr csv ! ?n \<noteq> None" using at n(2) unfolding rows_at_def by fastforce
      ultimately show False using f(2) p(1) n(1) k(2) by metis
    qed
  qed
  then show ?thesis using c(1) free_all_fault [of "lines_arr csv'" "store csv'"]
    by (cases "CSV_close csv'") (auto simp: CSV_close_def)
qed

subsection \<open>Closing without a removal\<close>

text \<open>The pointers of the array are live and no two are alike.\<close>

definition live_ptrs :: "nat option list \<Rightarrow> (nat \<Rightarrow> string option) \<Rightarrow> nat \<Rightarrow> bool" where
  "live_ptrs ps st n \<longleftrightarrow> (\<forall>a. Some a \<in> set ps \<longrightarrow> a < n \<and> st a \<noteq> None) \<and> distinct (filter (\<lambda>p. p \<noteq> None) ps)"

definition ptrs_ok :: "csv_raw_t \<Rightarrow> bool" where
  "ptrs_ok csv \<longleftrightarrow> live_ptrs (lines_arr csv) (store csv) (next_addr csv)"

lemma free_all_live: "live_ptrs ps st n \<Longrightarrow> \<exists>st'. free_all ps st = Inr st'"
proof (induction ps arbitrary: st)
  case (Cons p ps)
  show ?case
  proof (cases p)
    case None
    with Cons show ?thesis by (simp add: live_ptrs_def free_ptr_def)
  next
    case (Some a)
    have "live_ptrs ps (st(a := None)) n" using Cons.prems Some by (auto simp: live_ptrs_def)
    from Cons.IH [OF this] obtain st' where "free_all ps (st(a := None)) = Inr st'" by blast
    moreover have "st a \<noteq> None" using Cons.prems Some by (simp add: live_ptrs_def)
    ultimately show ?thesis by (simp add: Some free_ptr_def)
  qed
qed simp

lemma close_ptrs: "ptrs_ok csv \<Longrightarrow> \<exists>st. CSV_close csv = Inr st"
  unfolding CSV_close_def ptrs_ok_def by (rule free_all_live)

lemma ptrs_create: "ptrs_ok (CSV_create\<lparr>csv_file := f\<rparr>)"
  by (simp add: ptrs_ok_def live_ptrs_def CSV_create_def)

text \<open>A slot that gets a block never used before (the one it held is forgotten), and a block that is overwritten.\<close>

lemma live_new:
  assumes "live_ptrs ps st n"
  shows "live_ptrs (ps[k := Some n]) (st(n := Some l)) (Suc n)"
proof (cases "k < length ps")
  case True
  have ps: "ps = take k ps @ ps ! k # drop (Suc k) ps" by (rule id_take_nth_drop [OF True])
  have "distinct (filter (\<lambda>p. p \<noteq> None) (take k ps @ ps ! k # drop (Suc k) ps))"
    using assms by (simp only: live_ptrs_def ps [symmetric])
  then have d: "distinct (filter (\<lambda>p. p \<noteq> None) (take k ps @ drop (Suc k) ps))"
    by (auto split: if_splits)
  have new: "Some n \<notin> set ps" using assms by (auto simp: live_ptrs_def)
  then have "Some n \<notin> set (take k ps @ drop (Suc k) ps)" by (auto dest: in_set_takeD in_set_dropD)
  with d have "distinct (filter (\<lambda>p. p \<noteq> None) (ps[k := Some n]))"
    using True by (auto simp: upd_conv_take_nth_drop)
  then show ?thesis using assms set_update_subset_insert [of ps k "Some n"] unfolding live_ptrs_def
    by (auto simp: less_Suc_eq)
next
  case False
  then have "ps[k := Some n] = ps" by (simp add: list_update_beyond)
  with assms show ?thesis by (auto simp: live_ptrs_def less_Suc_eq)
qed

lemma live_overwrite: "live_ptrs ps st n \<Longrightarrow> live_ptrs ps (st(a := Some l)) n"
  by (simp add: live_ptrs_def)

lemma live_append: "live_ptrs ps st n \<Longrightarrow> live_ptrs (ps @ replicate k None) st n"
  by (auto simp: live_ptrs_def)

lemma ptrs_slot_block: "ptrs_ok csv \<Longrightarrow> ptrs_ok (slot_block csv l)"
  by (simp add: slot_block_def ptrs_ok_def live_new live_overwrite split: option.split)

lemma ptrs_grow: "ptrs_ok csv \<Longrightarrow> ptrs_ok (grow_lines csv)"
  by (simp add: grow_lines_def ptrs_ok_def live_append)

lemma ptrs_fields [simp]: "ptrs_ok (csv\<lparr>entries := n\<rparr>) = ptrs_ok csv" "ptrs_ok (csv\<lparr>lastId := k\<rparr>) = ptrs_ok csv"
  "ptrs_ok (csv\<lparr>hdr_size := m\<rparr>) = ptrs_ok csv" "ptrs_ok (csv\<lparr>csv_file := f\<rparr>) = ptrs_ok csv"
  by (simp_all add: ptrs_ok_def)

lemma ptrs_load_lines: "ptrs_ok csv \<Longrightarrow> ptrs_ok (load_lines csv rest)"
proof (induction csv rest rule: load_lines.induct)
  case (1 csv rest)
  show ?case
  proof (cases "getline rest")
    case None
    then show ?thesis by (simp add: load_lines.simps [of csv rest] ptrs_slot_block 1)
  next
    case (Some p)
    then obtain l r where p: "getline rest = Some (l, r)" by (cases p) simp
    have "ptrs_ok (grow_lines (slot_block csv l\<lparr>entries := entries csv + 1\<rparr>))"
      using 1 by (intro ptrs_grow) (simp add: ptrs_slot_block)
    from "1.IH" [OF p refl this] show ?thesis by (simp add: load_lines.simps [of csv rest] p)
  qed
qed

lemma ptrs_load: "CSV_load f = Inr (Some csv) \<Longrightarrow> ptrs_ok csv"
proof -
  assume l: "CSV_load f = Inr (Some csv)"
  then obtain c where f: "f = Some c" by (auto simp: CSV_load_def split: option.splits)
  let ?b = "CSV_create\<lparr>csv_file := c\<rparr>"
  let ?c = "case getline c of None \<Rightarrow> load_lines ((slot_block ?b [])\<lparr>hdr_size := 2 ^ 64 - 1\<rparr>) []
     | Some (l, r) \<Rightarrow> load_lines ((slot_block ?b l)\<lparr>hdr_size := length l\<rparr>) r"
  have "ptrs_ok ?c" by (auto intro!: ptrs_load_lines ptrs_slot_block ptrs_create split: option.splits)
  moreover have "\<exists>k. csv = ?c\<lparr>lastId := k\<rparr> \<or> csv = ?c"
    using l unfolding f CSV_load_def by (auto simp: Let_def bind_res_Inr split: if_splits)
  ultimately show ?thesis by auto
qed

lemma load_lines_file: "csv_file (load_lines csv rest) = csv_file csv"
proof (induction csv rest rule: load_lines.induct)
  case (1 csv rest)
  show ?case
  proof (cases "getline rest")
    case (Some p)
    then obtain l r where p: "getline rest = Some (l, r)" by (cases p) simp
    show ?thesis using "1.IH" [OF p refl] by (simp add: load_lines.simps [of csv rest] p grow_lines_def)
  qed (simp add: load_lines.simps [of csv rest])
qed

lemma load_keeps_file: "CSV_load (Some f) = Inr (Some csv) \<Longrightarrow> csv_file csv = f"
  by (auto simp: CSV_load_def Let_def bind_res_Inr load_lines_file split: if_splits option.splits)

lemma ptrs_append: "ptrs_ok csv \<Longrightarrow> CSV_appendNewLine csv s = Inr csv' \<Longrightarrow> ptrs_ok csv'"
  using ptrs_grow [of csv] by (auto simp: CSV_appendNewLine_def Let_def bind_res_Inr ptrs_ok_def live_new)

subsection \<open>Fields\<close>

fun join_fields :: "string list \<Rightarrow> string" where
  "join_fields [] = [CHR 0x0A]"
| "join_fields [f] = f @ [CHR 0x0A]"
| "join_fields (f # fs) = f @ CHR '';'' # join_fields fs"

definition plain :: "string \<Rightarrow> bool" where
  "plain f \<longleftrightarrow> (\<forall>c \<in> set f. field_char c)"

lemma field_start_skip: "plain f \<Longrightarrow> 0 < num \<Longrightarrow> field_start (f @ s) num i = field_start s num (i + length f)"
  by (induction f arbitrary: i) (auto simp: plain_def field_char_def)

lemma join_fields_take:
  "fs \<noteq> [] \<Longrightarrow> plain (hd fs) \<Longrightarrow> takeWhile field_char (join_fields fs) = hd fs \<and>
   length (hd fs) < length (join_fields fs) \<and> take (length (hd fs)) (join_fields fs) = hd fs"
  by (cases fs rule: join_fields.cases) (auto simp: plain_def field_char_def takeWhile_append2)

lemma field_start_join:
  assumes "\<forall>f \<in> set fs. plain f" "fs \<noteq> []" "0 < num"
  shows "if num < length fs
    then \<exists>p. field_start (join_fields fs) num i = Inr (Some (i + p)) \<and> length (hd fs) \<le> p \<and>
      drop (Suc p) (join_fields fs) = join_fields (drop num fs)
    else field_start (join_fields fs) num i = Inr None"
  using assms
proof (induction fs arbitrary: num i rule: join_fields.induct)
  case (2 f)
  then show ?case by (simp add: field_start_skip)
next
  case (3 f g fs)
  have s: "field_start (join_fields (f # g # fs)) num i =
      (if num = 1 then Inr (Some (i + length f)) else field_start (join_fields (g # fs)) (num - 1) (Suc (i + length f)))"
    using 3 by (simp add: field_start_skip)
  show ?case
  proof (cases "num = 1")
    case True
    with s show ?thesis by (auto intro!: exI [of _ "length f"])
  next
    case False
    then obtain k where k: "num = Suc k" "0 < k" using 3 by (cases num) auto
    have IH: "if k < length (g # fs)
      then \<exists>p. field_start (join_fields (g # fs)) k (Suc (i + length f)) = Inr (Some (Suc (i + length f) + p)) \<and>
        length (hd (g # fs)) \<le> p \<and> drop (Suc p) (join_fields (g # fs)) = join_fields (drop k (g # fs))
      else field_start (join_fields (g # fs)) k (Suc (i + length f)) = Inr None"
      using 3 k by (intro "3.IH") auto
    show ?thesis
    proof (cases "k < length (g # fs)")
      case True
      with IH obtain p where p: "field_start (join_fields (g # fs)) k (Suc (i + length f)) = Inr (Some (Suc (i + length f) + p))"
        "drop (Suc p) (join_fields (g # fs)) = join_fields (drop k (g # fs))" by (auto split: if_splits)
      have "drop (Suc (Suc (length f + p))) (join_fields (f # g # fs)) = drop (Suc p) (join_fields (g # fs))" by simp
      with p s k False True show ?thesis by (auto intro!: exI [of _ "Suc (length f + p)"])
    qed (use IH s k False in simp)
  qed
qed simp

lemma get_field_join:
  assumes fs: "\<forall>f \<in> set fs. plain f" "fs \<noteq> []" "hd fs \<noteq> []" and cap: "num < length fs \<longrightarrow> length (fs ! num) < cap"
  shows "CSV_getField (join_fields fs) num cap =
    Inr (if num < length fs then (Some (fs ! num), int (length (fs ! num)) - (if num = 0 then 1 else 0)) else (None, -1))"
proof (cases "num = 0")
  case True
  have "plain (hd fs)" using fs by simp
  note t = join_fields_take [OF fs(2) this]
  have "field_start (join_fields fs) 0 0 = Inr (Some 0)"
  proof -
    obtain c f where c: "hd fs = c # f" using fs(3) by (cases "hd fs") auto
    then have "c \<noteq> CHR 0x0A" using fs(1,2) by (cases fs) (auto simp: plain_def field_char_def)
    then show ?thesis using c fs(2) by (cases fs rule: join_fields.cases) auto
  qed
  with True t cap fs(2) show ?thesis by (simp add: CSV_getField_def hd_conv_nth [symmetric])
next
  case False
  show ?thesis
  proof (cases "num < length fs")
    case lt: True
    from field_start_join [OF fs(1,2), of num 0] False lt obtain p where
      p: "field_start (join_fields fs) num 0 = Inr (Some p)" "length (hd fs) \<le> p"
        "drop (Suc p) (join_fields fs) = join_fields (drop num fs)" by auto
    have h: "drop num fs \<noteq> []" "hd (drop num fs) = fs ! num" using lt by (simp_all add: hd_drop_conv_nth)
    moreover have "plain (fs ! num)" using fs(1) lt nth_mem by blast
    ultimately have t: "takeWhile field_char (join_fields (drop num fs)) = fs ! num"
      "length (fs ! num) < length (join_fields (drop num fs))"
      "take (length (fs ! num)) (join_fields (drop num fs)) = fs ! num"
      using join_fields_take [OF h(1)] by simp_all
    have "0 < p" using p(2) fs(3) by (cases "hd fs") auto
    moreover have "Suc p + length (fs ! num) < length (join_fields fs)"
      using t(2) arg_cong [OF p(3), of length] by simp
    ultimately show ?thesis using p(1,3) t cap lt False by (simp add: CSV_getField_def)
  next
    case False
    with \<open>num \<noteq> 0\<close> field_start_join [OF fs(1,2), of num 0] show ?thesis by (simp add: CSV_getField_def)
  qed
qed

subsection \<open>Properties\<close>

text \<open>Property C13. Any script of appends and removals, on a new file, keeps the file, the array and the
  heap in step with the list of rows: ids count up and are not reused, a removal takes out the
  row of that id and leaves the others in place, in memory and in the file.\<close>

theorem csv_refines_rows:
  assumes "rows_run 0 [] ops = Some rows"
  shows "\<exists>csv. csv_run CSV_create ops = Inr csv \<and> row_inv csv rows \<and>
    csv_file csv = csv_header @ concat (map line_of rows)"
proof -
  have "rows_run (lastId CSV_create) [] ops = Some rows" using assms by (simp add: CSV_create_def)
  from csv_run_rows [OF create_rows this] obtain csv where c: "csv_run CSV_create ops = Inr csv" "row_inv csv rows"
    "hdr_size csv = hdr_size CSV_create"
    "take (hdr_size CSV_create) (csv_file csv) = take (hdr_size CSV_create) (csv_file CSV_create)" by blast
  have "take (hdr_size csv) (csv_file csv) = csv_header" using c(3,4) by (simp add: CSV_create_def)
  moreover have "drop (hdr_size csv) (csv_file csv) = concat (map line_of rows)" using c(2) by (simp add: row_inv_def)
  ultimately have "csv_file csv = csv_header @ concat (map line_of rows)" by (metis append_take_drop_id)
  with c(1,2) show ?thesis by blast
qed

theorem csv_refines_rows_witness:
  "\<exists>csv. csv_run CSV_create [Append ''a;Buy'', Append ''b;Sell'', Remove 1, Append ''c;Buy''] = Inr csv \<and>
    csv_file csv = csv_header @ line_of (2, ''b;Sell'') @ line_of (3, ''c;Buy'')"
  using csv_refines_rows [of "[Append ''a;Buy'', Append ''b;Sell'', Remove 1, Append ''c;Buy'']"
      "[(2, ''b;Sell''), (3, ''c;Buy'')]"]
  by (auto simp: good_text_def nul_def)

text \<open>\<open>CSV_getLineById\<close> returns the line of that id, and NULL exactly when no row has it,
  although it searches downwards from the index that the id suggests.\<close>

theorem csv_lookup:
  assumes "row_inv csv rows" "rows \<noteq> []"
  shows "CSV_getLineById csv ident = Inr (map_of (map (\<lambda>r. (int (fst r), line_of r)) rows) ident)"
  using assms by (rule get_line_rows)

theorem csv_lookup_witness:
  "\<exists>csv. CSV_appendNewLine CSV_create ''a;Buy'' = Inr csv \<and>
    CSV_getLineById csv 1 = Inr (Some (line_of (1, ''a;Buy''))) \<and> CSV_getLineById csv (-7) = Inr None"
proof -
  have "good_text ''a;Buy''" "lastId CSV_create + 1 < 10 ^ 9" by (simp_all add: good_text_def nul_def CSV_create_def)
  from append_rows [OF create_rows this] obtain csv where c: "CSV_appendNewLine CSV_create ''a;Buy'' = Inr csv"
    "row_inv csv [(1, ''a;Buy'')]" by (auto simp: CSV_create_def)
  from csv_lookup [OF c(2)] c(1) show ?thesis by auto
qed

text \<open>Property C14. Loading a file gives back the rows it was written from, with the id of the last one.\<close>

theorem csv_reload:
  assumes "f = h @ CHR 0x0A # concat (map line_of rows)" "CHR 0x0A \<notin> set h"
    and "sorted_wrt (<) (map fst rows)" "\<forall>r \<in> set rows. good_row r"
  shows "\<exists>csv. CSV_load (Some f) = Inr (Some csv) \<and> row_inv csv rows \<and>
    lastId csv = (if rows = [] then 0 else int (fst (last rows)))"
  using assms by (rule csv_load_rows)

theorem csv_reload_witness:
  "\<exists>csv. CSV_load (Some (csv_header @ line_of (3, ''a;Buy'') @ line_of (8, ''b;Sell''))) = Inr (Some csv) \<and>
    lastId csv = 8 \<and> entries csv = 2"
  using csv_reload [of "csv_header @ line_of (3, ''a;Buy'') @ line_of (8, ''b;Sell'')" "''Id;Date;Type;Coin;Amount;Usd''"
      "[(3, ''a;Buy''), (8, ''b;Sell'')]"]
  by (auto simp: csv_header_def good_row_def good_text_def nul_def row_inv_def rows_at_def)

text \<open>Closing a file after a removal frees a block twice: the slot behind the last entry
  keeps its pointer.\<close>

theorem csv_close_after_remove:
  assumes "row_inv csv rows" "row_at rows e ident"
  shows "\<exists>csv'. CSV_removeLineById csv ident = Inr (csv', 0) \<and> CSV_close csv' = Inl BadFree"
  using assms by (rule close_after_remove)

theorem csv_close_after_remove_witness:
  "\<exists>csv csv'. CSV_appendNewLine CSV_create ''a;Buy'' = Inr csv \<and> CSV_removeLineById csv 1 = Inr (csv', 0) \<and>
    CSV_close csv' = Inl BadFree"
proof -
  have "good_text ''a;Buy''" "lastId CSV_create + 1 < 10 ^ 9" by (simp_all add: good_text_def nul_def CSV_create_def)
  from append_rows [OF create_rows this] obtain csv where c: "CSV_appendNewLine CSV_create ''a;Buy'' = Inr csv"
    "row_inv csv [(1, ''a;Buy'')]" by (auto simp: CSV_create_def)
  have "row_at [(1, ''a;Buy'')] 0 1" by (simp add: row_at_def)
  from csv_close_after_remove [OF c(2) this] c(1) show ?thesis by auto
qed

text \<open>\<open>CSV_getField\<close> reads the field of that number of a line with fields, or reports that
  there is none; its result is the length of the field, one less for the field 0.\<close>

theorem csv_field:
  assumes "\<forall>f \<in> set fs. plain f" "fs \<noteq> []" "hd fs \<noteq> []" "num < length fs \<longrightarrow> length (fs ! num) < cap"
  shows "CSV_getField (join_fields fs) num cap =
    Inr (if num < length fs then (Some (fs ! num), int (length (fs ! num)) - (if num = 0 then 1 else 0)) else (None, -1))"
  using assms by (rule get_field_join)

theorem csv_field_witness:
  "CSV_getField (join_fields [''12'', ''2024-01-31'', ''Buy'']) 2 16 = Inr (Some ''Buy'', 3)"
  using csv_field [of "[''12'', ''2024-01-31'', ''Buy'']" 2 16] by (simp add: plain_def field_char_def)

end
