(* ===== verification/Coin.thy ===== *)
theory Coin
  imports Csv
begin

section \<open>The transactions of a coin (app/backend/coin.c)\<close>

text \<open>
  A coin of a portfolio is a transaction file. The three operations load it, close it, and return the
  json text they built (or, for a new transaction, the new contents of the file and the returned number). Floating
  point is a parameter: \<open>flops\<close> holds the operations of \<open>float\<close> and \<open>double\<close> the code uses, \<open>strtod\<close> with the number
  of characters it consumes, and the texts of \<open>%f\<close>. Arrays on the stack are their capacities.
\<close>

record ('f, 'd) flops =
  f_zero :: 'f
  d_zero :: 'd
  f_plus :: "'f \<Rightarrow> 'd \<Rightarrow> 'f"
  f_minus :: "'f \<Rightarrow> 'd \<Rightarrow> 'f"
  f_div :: "'f \<Rightarrow> 'f \<Rightarrow> 'f"
  strtod :: "string \<Rightarrow> 'd \<times> nat"
  f_text :: "'f \<Rightarrow> string"
  d_text :: "'d \<Rightarrow> string"

definition COIN_BUY :: int where "COIN_BUY = 0"
definition COIN_SELL :: int where "COIN_SELL = 1"
definition COIN_YIELD :: int where "COIN_YIELD = 2"

text \<open>\<open>len\<close> is a \<open>size_t\<close>. A text of the right length that is not one of the names gives 0.\<close>

definition Coin_operationType :: "string \<Rightarrow> nat \<Rightarrow> int" where
  "Coin_operationType str len =
     (let n = (len + 1) mod 2 ^ 64 in
      if n = length ''Buy'' + 1 then (if str = ''Buy'' then COIN_BUY else 0)
      else if n = length ''Sell'' + 1 then (if str = ''Sell'' then COIN_SELL else 0)
      else if n = length ''Yield'' + 1 then (if str = ''Yield'' then COIN_YIELD else 0)
      else -1)"

definition upper_char :: "char \<Rightarrow> char" where
  "upper_char c = (if 97 \<le> (of_char c :: nat) \<and> (of_char c :: nat) \<le> 122 then char_of (of_char c - 32 :: nat) else c)"

definition strupper :: "nat \<Rightarrow> string \<Rightarrow> string res" where
  "strupper cap src = (if length src < cap then Inr (map upper_char src) else Inl OutOfBounds)"

definition quoted :: "string \<Rightarrow> string" where
  "quoted s = CHR 0x22 # s @ [CHR 0x22]"

text \<open>A field into \<open>tmp\<close>, which keeps its contents (at first none) if there is no such field.\<close>

definition tmp_field :: "string \<Rightarrow> nat \<Rightarrow> nat \<Rightarrow> string option \<Rightarrow> (string option \<times> int) res" where
  "tmp_field line num cap tmp =
     bind_res (CSV_getField line num cap) (\<lambda>(f, n). Inr (if f = None then tmp else f, n))"

definition tmp_str :: "string option \<Rightarrow> string res" where
  "tmp_str tmp = (case tmp of None \<Rightarrow> Inl UninitRead | Some s \<Rightarrow> Inr s)"

subsection \<open>The summary of a coin\<close>

record 'f totals =
  amount_coin :: 'f
  totalBuy_usd :: 'f
  totalBuy_coin :: 'f
  totalSell_usd :: 'f

definition no_totals :: "('f, 'd) flops \<Rightarrow> 'f totals" where
  "no_totals fl = \<lparr>amount_coin = f_zero fl, totalBuy_usd = f_zero fl, totalBuy_coin = f_zero fl, totalSell_usd = f_zero fl\<rparr>"

definition count_transaction :: "('f, 'd) flops \<Rightarrow> int \<Rightarrow> 'd \<Rightarrow> 'd \<Rightarrow> 'f totals \<Rightarrow> 'f totals" where
  "count_transaction fl kind amount price t =
     (if kind = COIN_BUY then t\<lparr>amount_coin := f_plus fl (amount_coin t) amount,
        totalBuy_usd := f_plus fl (totalBuy_usd t) price, totalBuy_coin := f_plus fl (totalBuy_coin t) amount\<rparr>
      else if kind = COIN_SELL then t\<lparr>amount_coin := f_minus fl (amount_coin t) amount,
        totalSell_usd := f_plus fl (totalSell_usd t) price\<rparr>
      else if kind = COIN_YIELD then t\<lparr>amount_coin := f_plus fl (amount_coin t) amount,
        totalBuy_usd := f_plus fl (totalBuy_usd t) (d_zero fl), totalBuy_coin := f_plus fl (totalBuy_coin t) amount\<rparr>
      else t)"

definition info_line :: "('f, 'd) flops \<Rightarrow> string \<Rightarrow> 'f totals \<Rightarrow> 'f totals res" where
  "info_line fl line t =
     bind_res (tmp_field line 4 16 None) (\<lambda>(tmp, _).
     bind_res (tmp_str tmp) (\<lambda>s.
     let amount = fst (strtod fl s) in
     bind_res (tmp_field line 5 16 tmp) (\<lambda>(tmp, _).
     bind_res (tmp_str tmp) (\<lambda>s.
     let price = fst (strtod fl s) in
     bind_res (tmp_field line 2 16 tmp) (\<lambda>(tmp, n).
     bind_res (tmp_str tmp) (\<lambda>s.
       Inr (count_transaction fl (Coin_operationType s (nat (n mod 2 ^ 64))) amount price t)))))))"

text \<open>The loop over the lines from \<open>i\<close>; one more turn than there are lines is enough.\<close>

fun each_line :: "(string \<Rightarrow> 's \<Rightarrow> 's res) \<Rightarrow> csv_raw_t \<Rightarrow> nat \<Rightarrow> nat \<Rightarrow> 's \<Rightarrow> 's res" where
  "each_line f csv 0 i t = Inr t"
| "each_line f csv (Suc k) i t =
     bind_res (CSV_getLine csv (int i)) (\<lambda>l. case l of
       None \<Rightarrow> Inr t
     | Some line \<Rightarrow> bind_res (f line t) (each_line f csv k (Suc i)))"

definition info_text :: "string \<Rightarrow> string \<Rightarrow> string \<Rightarrow> string \<Rightarrow> string \<Rightarrow> string" where
  "info_text ticker amount avg buy sell =
     ''{'' @ quoted ''symbol'' @ '':'' @ quoted ticker @ '','' @ quoted ''amount'' @ '':'' @ amount @ '','' @
     quoted ''avgPrice'' @ '':'' @ avg @ '','' @ quoted ''totalBuy'' @ '':'' @ buy @ '','' @
     quoted ''totalSell'' @ '':'' @ sell @ ''}''"

definition info_format :: string where
  "info_format = info_text ''%s'' ''%f'' ''%f'' ''%f'' ''%f''"

text \<open>The result of \<open>CSV_load\<close> is not tested: without the file the struct stays uninitialised.\<close>

definition Coin_getInfo :: "('f, 'd) flops \<Rightarrow> string \<Rightarrow> string option \<Rightarrow> string res" where
  "Coin_getInfo fl name f =
     bind_res (CSV_load f) (\<lambda>r. case r of
       None \<Rightarrow> Inl UninitRead
     | Some csv \<Rightarrow>
         bind_res (strupper 32 name) (\<lambda>ticker.
         bind_res (each_line (info_line fl) csv (Suc (entries csv)) 0 (no_totals fl)) (\<lambda>t.
         bind_res (CSV_close csv) (\<lambda>_.
         bind_res (sprintf_at (replicate (length info_format + 1 + 10 + 10 * 4) None) 0
             (info_text ticker (f_text fl (amount_coin t)) (f_text fl (f_div fl (totalBuy_usd t) (totalBuy_coin t)))
               (f_text fl (totalBuy_usd t)) (f_text fl (totalSell_usd t)))) read_str))))"

subsection \<open>The list of its transactions\<close>

definition transaction_text :: "string \<Rightarrow> string \<Rightarrow> string \<Rightarrow> string \<Rightarrow> string" where
  "transaction_text ticker amount v date =
     ''{'' @ quoted ''coin'' @ '':'' @ quoted ticker @ '','' @ quoted ''amount'' @ '':'' @ amount @ '','' @
     quoted ''value'' @ '':'' @ v @ '','' @ quoted ''date'' @ '':'' @ quoted date @ ''},''"

definition transaction_format :: string where
  "transaction_format = transaction_text ''%s'' ''%f'' ''%f'' ''%s''"

definition list_line :: "('f, 'd) flops \<Rightarrow> string \<Rightarrow> string \<Rightarrow> char option list \<times> nat \<Rightarrow> (char option list \<times> nat) res" where
  "list_line fl ticker line st =
     bind_res (tmp_field line 4 32 None) (\<lambda>(tmp, _).
     bind_res (tmp_str tmp) (\<lambda>s.
     let amount = fst (strtod fl s) in
     bind_res (tmp_field line 5 32 tmp) (\<lambda>(tmp, _).
     bind_res (tmp_str tmp) (\<lambda>s.
     let v = fst (strtod fl s) in
     bind_res (tmp_field line 1 32 tmp) (\<lambda>(tmp, _).
     bind_res (tmp_str tmp) (\<lambda>date.
     let text = transaction_text ticker (d_text fl amount) (d_text fl v) date in
     bind_res (sprintf_at (fst st) (snd st) text) (\<lambda>b. Inr (b, snd st + length text))))))))"

definition Coin_getTransactions :: "('f, 'd) flops \<Rightarrow> string \<Rightarrow> string option \<Rightarrow> string res" where
  "Coin_getTransactions fl name f =
     bind_res (CSV_load f) (\<lambda>r. case r of
       None \<Rightarrow> Inl UninitRead
     | Some csv \<Rightarrow>
         bind_res (strupper 32 name) (\<lambda>ticker.
         bind_res (put_at (replicate (entries csv * (length transaction_format + 1 + 128)) None) 0 [Some CHR ''['', Some nul]) (\<lambda>b.
         bind_res (each_line (list_line fl ticker) csv (Suc (entries csv)) 0 (b, 1)) (\<lambda>(b, len).
         bind_res (put_at b (len - 1) [Some CHR '']'']) (\<lambda>b.
         bind_res (put_at b len [Some nul]) (\<lambda>b.
         bind_res (CSV_close csv) (\<lambda>_. read_str b)))))))"

subsection \<open>A new transaction\<close>

text \<open>\<open>str = strstr(str, key); str += n\<close>, and the copy of the text up to the next quote.\<close>

definition skip_key :: "string \<Rightarrow> string \<Rightarrow> nat \<Rightarrow> string res" where
  "skip_key str key n =
     (case strstr str key of
        None \<Rightarrow> Inl NullDeref
      | Some r \<Rightarrow> if length r < n then Inl OutOfBounds else Inr (drop n r))"

definition until_quote :: "nat \<Rightarrow> string \<Rightarrow> (string \<times> string) res" where
  "until_quote cap str =
     (let t = takeWhile (\<lambda>c. c \<noteq> CHR 0x22) str in
      if CHR 0x22 \<in> set str \<and> length t < cap then Inr (t, drop (length t) str) else Inl OutOfBounds)"

definition Coin_addTransacation ::
    "('f, 'd) flops \<Rightarrow> string \<Rightarrow> string option \<Rightarrow> string \<Rightarrow> (string \<times> int) res" where
  "Coin_addTransacation fl name f json =
     bind_res (CSV_load f) (\<lambda>r.
     let csv = (case r of None \<Rightarrow> CSV_create | Some c \<Rightarrow> c) in
     bind_res (strupper 32 name) (\<lambda>ticker.
     bind_res (skip_key json ''amount'' (length (''amount'' @ [CHR 0x22, CHR '':'']))) (\<lambda>str.
     let amount = fst (strtod fl str); str = drop (snd (strtod fl str)) str in
     bind_res (skip_key str ''type'' (length (''type'' @ [CHR 0x22, CHR '':'', CHR 0x22]))) (\<lambda>str.
     bind_res (until_quote 8 str) (\<lambda>(type, str).
     bind_res (skip_key str ''value'' (length (''value'' @ [CHR 0x22, CHR '':'']))) (\<lambda>str.
     let price = fst (strtod fl str); str = drop (snd (strtod fl str)) str in
     bind_res (skip_key str ''date'' (length (''date'' @ [CHR 0x22, CHR '':'', CHR 0x22]))) (\<lambda>str.
     bind_res (until_quote 32 str) (\<lambda>(date, str).
     bind_res (sprintf_at (replicate 256 None) 0
         (date @ '';'' @ type @ '';'' @ ticker @ '';'' @ d_text fl amount @ '';'' @ d_text fl price)) (\<lambda>b.
     bind_res (read_str b) (\<lambda>transaction.
     bind_res (CSV_appendNewLine csv transaction) (\<lambda>csv1.
     bind_res (CSV_close csv1) (\<lambda>_. Inr (csv_file csv1, lastId csv1 - 1)))))))))))))"

subsection \<open>Loops over the rows\<close>

fun fold_res :: "('x \<Rightarrow> 's \<Rightarrow> 's res) \<Rightarrow> 'x list \<Rightarrow> 's \<Rightarrow> 's res" where
  "fold_res f [] s = Inr s"
| "fold_res f (x # xs) s = bind_res (f x s) (fold_res f xs)"

lemma fold_res_map: "fold_res f (map g xs) s = fold_res (\<lambda>x. f (g x)) xs s"
proof (induction xs arbitrary: s)
  case (Cons x xs)
  then show ?case by (cases "f (g x) s") simp_all
qed simp

lemma fold_res_pure:
  assumes "\<And>x s. x \<in> set xs \<Longrightarrow> f x s = Inr (g x s)"
  shows "fold_res f xs s = Inr (fold g xs s)"
  using assms by (induction xs arbitrary: s) simp_all

lemma row_count: "row_inv csv rows \<Longrightarrow> length rows < 2 ^ 64"
proof (cases "rows = []")
  case False
  assume inv: "row_inv csv rows"
  then have s: "sorted_wrt (<) (map fst rows)" "\<forall>r \<in> set rows. good_row r" by (simp_all add: row_inv_def)
  have "length rows - 1 < fst (rows ! (length rows - 1))" using False by (intro sorted_ids [OF s]) simp
  moreover have "rows ! (length rows - 1) \<in> set rows" using False by simp
  ultimately show ?thesis using s(2) unfolding good_row_def by fastforce
qed simp

lemma get_line_index:
  assumes inv: "row_inv csv rows" and i: "i \<le> length rows"
  shows "CSV_getLine csv (int i) = Inr (if i < length rows then Some (line_of (rows ! i)) else None)"
proof -
  have at: "rows_at csv rows" "entries csv = length rows" using inv by (simp_all add: row_inv_def rows_at_def)
  have "int i mod 2 ^ 64 = int i" using row_count [OF inv] i by simp
  then show ?thesis using at(2) deref_row [OF at(1), of i] by (simp add: CSV_getLine_def)
qed

lemma each_line_rows:
  assumes inv: "row_inv csv rows" and i: "i \<le> length rows" and k: "length rows - i < k"
  shows "each_line f csv k i s = fold_res f (map line_of (drop i rows)) s"
  using i k
proof (induction k arbitrary: i s)
  case (Suc k)
  show ?case
  proof (cases "i < length rows")
    case True
    then have "drop i rows = rows ! i # drop (Suc i) rows" by (simp add: Cons_nth_drop_Suc)
    moreover have "each_line f csv k (Suc i) = fold_res f (map line_of (drop (Suc i) rows))"
      using True Suc.prems by (intro ext Suc.IH) simp_all
    ultimately show ?thesis using get_line_index [OF inv Suc.prems(1)] True by simp
  next
    case False
    then show ?thesis using get_line_index [OF inv Suc.prems(1)] Suc.prems(1) by simp
  qed
qed simp

lemma all_lines: "row_inv csv rows \<Longrightarrow> each_line f csv (Suc (entries csv)) 0 s = fold_res (\<lambda>r. f (line_of r)) rows s"
  using each_line_rows [of csv rows 0 "Suc (entries csv)" f s]
  by (simp add: row_inv_def rows_at_def fold_res_map)

subsection \<open>Transactions\<close>

text \<open>A transaction: its id, date, type, ticker, amount and value, as the file has them.\<close>

record transaction =
  tx_id :: nat
  tx_date :: string
  tx_type :: string
  tx_coin :: string
  tx_amount :: string
  tx_usd :: string

definition tx_line :: "string \<Rightarrow> string \<Rightarrow> string \<Rightarrow> string \<Rightarrow> string \<Rightarrow> string" where
  "tx_line date kind coin amount usd = date @ '';'' @ kind @ '';'' @ coin @ '';'' @ amount @ '';'' @ usd"

definition tx_row :: "transaction \<Rightarrow> row" where
  "tx_row x = (tx_id x, tx_line (tx_date x) (tx_type x) (tx_coin x) (tx_amount x) (tx_usd x))"

definition tx_fields :: "transaction \<Rightarrow> string list" where
  "tx_fields x = [dec (tx_id x), tx_date x, tx_type x, tx_coin x, tx_amount x, tx_usd x]"

definition good_tx :: "transaction \<Rightarrow> bool" where
  "good_tx x \<longleftrightarrow> 0 < tx_id x \<and> tx_id x < 10 ^ 9 \<and>
     (\<forall>f \<in> {tx_date x, tx_type x, tx_coin x, tx_amount x, tx_usd x}. plain f \<and> nul \<notin> set f) \<and>
     length (tx_date x) < 32 \<and> length (tx_type x) < 16 \<and> length (tx_amount x) < 16 \<and> length (tx_usd x) < 16"

lemma tx_line_fields: "line_of (tx_row x) = join_fields (tx_fields x)"
  by (simp add: line_of_def tx_row_def tx_line_def tx_fields_def)

lemma plain_dec: "plain (dec n)"
  unfolding plain_def field_char_def using dec_digits [of n] not_isdigitI by blast

lemma good_text_append: "good_text (xs @ ys) \<longleftrightarrow> good_text xs \<and> good_text ys"
  by (auto simp: good_text_def)

lemma good_text_sep: "good_text '';''"
  by (simp add: good_text_def nul_def)

lemma plain_text: "plain f \<Longrightarrow> nul \<notin> set f \<Longrightarrow> good_text f"
  unfolding plain_def field_char_def good_text_def by blast

lemma good_tx_row: "good_tx x \<Longrightarrow> good_row (tx_row x)"
  unfolding good_row_def tx_row_def fst_conv snd_conv tx_line_def good_text_append
  by (simp add: good_tx_def plain_text good_text_sep)

lemma tx_field:
  assumes "good_tx x" "num < 6" "length (tx_fields x ! num) < cap" "0 < num"
  shows "tmp_field (line_of (tx_row x)) num cap tmp = Inr (Some (tx_fields x ! num), int (length (tx_fields x ! num)))"
proof -
  have "\<forall>f \<in> set (tx_fields x). plain f" using assms(1) plain_dec by (simp add: good_tx_def tx_fields_def)
  moreover have "length (tx_fields x) = 6" by (simp add: tx_fields_def)
  moreover have "tx_fields x \<noteq> []" "hd (tx_fields x) \<noteq> []" by (simp_all add: tx_fields_def)
  ultimately show ?thesis using get_field_join [of "tx_fields x" num cap] assms(2-4)
    by (simp add: tmp_field_def tx_line_fields)
qed

text \<open>What a transaction adds to the summary; a type that is none of the three counts as \<open>Coin_operationType\<close> says.\<close>

definition tx_kind :: "transaction \<Rightarrow> int" where
  "tx_kind x = Coin_operationType (tx_type x) (length (tx_type x))"

definition count_tx :: "('f, 'd) flops \<Rightarrow> transaction \<Rightarrow> 'f totals \<Rightarrow> 'f totals" where
  "count_tx fl x = count_transaction fl (tx_kind x) (fst (strtod fl (tx_amount x))) (fst (strtod fl (tx_usd x)))"

lemma info_line_tx: "good_tx x \<Longrightarrow> info_line fl (line_of (tx_row x)) t = Inr (count_tx fl x t)"
proof -
  assume x: "good_tx x"
  have f: "tmp_field (line_of (tx_row x)) 4 16 tmp = Inr (Some (tx_amount x), int (length (tx_amount x)))"
    "tmp_field (line_of (tx_row x)) 5 16 tmp = Inr (Some (tx_usd x), int (length (tx_usd x)))"
    "tmp_field (line_of (tx_row x)) 2 16 tmp = Inr (Some (tx_type x), int (length (tx_type x)))" for tmp
    using tx_field [OF x, of 4 16 tmp] tx_field [OF x, of 5 16 tmp] tx_field [OF x, of 2 16 tmp] x
    by (simp_all add: tx_fields_def good_tx_def)
  have "int (length (tx_type x)) mod 2 ^ 64 = int (length (tx_type x))" using x by (simp add: good_tx_def)
  then show ?thesis by (simp add: info_line_def f tmp_str_def count_tx_def tx_kind_def)
qed

subsection \<open>The file of a coin\<close>

definition coin_file :: "string \<Rightarrow> transaction list \<Rightarrow> string" where
  "coin_file h xs = h @ CHR 0x0A # concat (map (\<lambda>x. line_of (tx_row x)) xs)"

definition coin_txs :: "transaction list \<Rightarrow> bool" where
  "coin_txs xs \<longleftrightarrow> sorted_wrt (<) (map tx_id xs) \<and> (\<forall>x \<in> set xs. good_tx x)"

definition last_tx :: "transaction list \<Rightarrow> nat" where
  "last_tx xs = (if xs = [] then 0 else tx_id (last xs))"

lemma load_coin:
  assumes "coin_txs xs" "CHR 0x0A \<notin> set h"
  shows "\<exists>csv st. CSV_load (Some (coin_file h xs)) = Inr (Some csv) \<and> row_inv csv (map tx_row xs) \<and>
    lastId csv = int (last_tx xs) \<and> ptrs_ok csv \<and> csv_file csv = coin_file h xs \<and> CSV_close csv = Inr st"
proof -
  have f: "coin_file h xs = h @ CHR 0x0A # concat (map line_of (map tx_row xs))"
    by (simp add: coin_file_def comp_def)
  have "sorted_wrt (<) (map fst (map tx_row xs))" "\<forall>r \<in> set (map tx_row xs). good_row r"
    using assms(1) good_tx_row by (auto simp: coin_txs_def tx_row_def comp_def)
  from csv_load_rows [OF f assms(2) this] obtain csv where c: "CSV_load (Some (coin_file h xs)) = Inr (Some csv)"
    "row_inv csv (map tx_row xs)" "lastId csv = (if map tx_row xs = [] then 0 else int (fst (last (map tx_row xs))))"
    by blast
  have "lastId csv = int (last_tx xs)" using c(3) by (simp add: last_tx_def last_map tx_row_def)
  moreover have "csv_file csv = coin_file h xs" using c(1) by (rule load_keeps_file)
  ultimately show ?thesis using c(1,2) ptrs_load [OF c(1)] close_ptrs by blast
qed

lemma length_upper [simp]: "length (map upper_char s) = length s"
  by simp

lemma upper_no_nul: "nul \<notin> set s \<Longrightarrow> nul \<notin> set (map upper_char s)"
proof -
  have "upper_char c = nul \<Longrightarrow> c = nul" for c
  proof -
    assume u: "upper_char c = nul"
    show "c = nul"
    proof (cases "97 \<le> (of_char c :: nat) \<and> (of_char c :: nat) \<le> 122")
      case True
      then have "(of_char (char_of (of_char c - 32 :: nat) :: char) :: nat) = of_char c - 32"
      proof -
        have "(of_char c :: nat) - 32 < 256" using True by linarith
        then show ?thesis by (simp add: of_char_of)
      qed
      moreover have "(of_char (char_of (of_char c - 32 :: nat) :: char) :: nat) = 0" using u True by (simp add: upper_char_def nul_def)
      ultimately show ?thesis using True by simp
    next
      case False
      then show ?thesis using u unfolding upper_char_def by (simp only: if_False)
    qed
  qed
  then show "nul \<notin> set s \<Longrightarrow> nul \<notin> set (map upper_char s)"
    unfolding set_map by (metis imageE)
qed

subsection \<open>The figures of the summary\<close>

text \<open>The kinds by the text of the type. A type of three to five letters that is none of the names counts as a purchase.\<close>

definition sold :: "transaction \<Rightarrow> bool" where "sold x \<longleftrightarrow> tx_type x = ''Sell''"
definition yielded :: "transaction \<Rightarrow> bool" where "yielded x \<longleftrightarrow> tx_type x = ''Yield''"
definition bought :: "transaction \<Rightarrow> bool" where
  "bought x \<longleftrightarrow> length (tx_type x) \<in> {3, 4, 5} \<and> \<not> sold x \<and> \<not> yielded x"

definition figures :: "('f, 'd) flops \<Rightarrow> transaction list \<Rightarrow> 'f totals" where
  "figures fl xs =
     (let amount = \<lambda>x. fst (strtod fl (tx_amount x)); price = \<lambda>x. fst (strtod fl (tx_usd x));
          got = filter (\<lambda>x. bought x \<or> yielded x) xs;
          total = foldl (f_plus fl) (f_zero fl)
      in \<lparr>amount_coin = foldl (\<lambda>s x. if sold x then f_minus fl s (amount x) else f_plus fl s (amount x)) (f_zero fl)
            (filter (\<lambda>x. bought x \<or> yielded x \<or> sold x) xs),
          totalBuy_usd = total (map (\<lambda>x. if yielded x then d_zero fl else price x) got),
          totalBuy_coin = total (map amount got),
          totalSell_usd = total (map price (filter sold xs))\<rparr>)"

lemma tx_kind_cases:
  assumes "good_tx x"
  shows "tx_kind x = (if bought x then COIN_BUY else if sold x then COIN_SELL else if yielded x then COIN_YIELD else -1)"
proof -
  have m: "(length (tx_type x) + 1) mod 2 ^ 64 = length (tx_type x) + 1" using assms by (simp add: good_tx_def)
  show ?thesis unfolding tx_kind_def Coin_operationType_def Let_def m
    by (auto simp: bought_def sold_def yielded_def COIN_BUY_def COIN_SELL_def COIN_YIELD_def)
qed

lemma figures_snoc:
  "good_tx x \<Longrightarrow> figures fl (xs @ [x]) = count_tx fl x (figures fl xs)"
  by (auto simp: count_tx_def tx_kind_cases count_transaction_def figures_def Let_def COIN_BUY_def COIN_SELL_def
    COIN_YIELD_def bought_def sold_def yielded_def)

lemma figures_fold: "\<forall>x \<in> set xs. good_tx x \<Longrightarrow> fold (count_tx fl) xs (no_totals fl) = figures fl xs"
proof (induction xs rule: rev_induct)
  case Nil
  show ?case by (simp add: figures_def no_totals_def)
qed (simp add: figures_snoc)

lemma coin_info_figures:
  assumes xs: "coin_txs xs" "CHR 0x0A \<notin> set h" and name: "length name < 32" "nul \<notin> set name"
    and texts: "\<And>v. nul \<notin> set (f_text fl v)"
  defines "t \<equiv> figures fl xs"
  defines "a \<equiv> f_text fl (amount_coin t)" and "v \<equiv> f_text fl (f_div fl (totalBuy_usd t) (totalBuy_coin t))"
    and "b \<equiv> f_text fl (totalBuy_usd t)" and "s \<equiv> f_text fl (totalSell_usd t)"
  shows "Coin_getInfo fl name (Some (coin_file h xs)) =
    (if length name + length a + length v + length b + length s \<le> 60
     then Inr (info_text (map upper_char name) a v b s) else Inl OutOfBounds)"
proof -
  from load_coin [OF xs] obtain csv st where c: "CSV_load (Some (coin_file h xs)) = Inr (Some csv)"
    "row_inv csv (map tx_row xs)" "CSV_close csv = Inr st" by blast
  have good: "\<forall>x \<in> set xs. good_tx x" using xs(1) by (simp add: coin_txs_def)
  have "each_line (info_line fl) csv (Suc (entries csv)) 0 (no_totals fl) =
      fold_res (\<lambda>x. info_line fl (line_of (tx_row x))) xs (no_totals fl)"
    unfolding all_lines [OF c(2)] fold_res_map ..
  also have "\<dots> = Inr (fold (count_tx fl) xs (no_totals fl))"
    using good by (intro fold_res_pure) (simp add: info_line_tx)
  finally have t: "each_line (info_line fl) csv (Suc (entries csv)) 0 (no_totals fl) = Inr t"
    unfolding t_def figures_fold [OF good] .
  let ?txt = "info_text (map upper_char name) a v b s"
  let ?buf = "replicate (length info_format + 1 + 10 + 10 * 4) (None :: char option)"
  have run: "Coin_getInfo fl name (Some (coin_file h xs)) = bind_res (sprintf_at ?buf 0 ?txt) read_str"
    using name(1) unfolding Coin_getInfo_def c(1) bind_res_simps option.case t c(3) strupper_def
    by (simp add: a_def v_def b_def s_def)
  have len: "length ?txt < length ?buf \<longleftrightarrow> length name + length a + length v + length b + length s \<le> 60"
    by (simp add: info_format_def info_text_def quoted_def) arith
  have nn: "nul \<notin> set ?txt"
    using upper_no_nul [OF name(2)] texts by (simp add: info_text_def quoted_def a_def v_def b_def s_def) (simp add: nul_def)
  show ?thesis
  proof (cases "length ?txt < length ?buf")
    case True
    then show ?thesis unfolding run sprintf_at_start [OF True] bind_res_simps read_str_text [OF nn] len by simp
  next
    case False
    then have "sprintf_at ?buf 0 ?txt = Inl OutOfBounds" by (simp add: sprintf_at_fault)
    with False show ?thesis unfolding run len by simp
  qed
qed

subsection \<open>The list as json\<close>

fun commas :: "string list \<Rightarrow> string" where
  "commas [] = []"
| "commas [x] = x"
| "commas (x # xs) = x @ '','' @ commas xs"

definition json_list :: "string list \<Rightarrow> string" where
  "json_list xs = ''['' @ commas xs @ '']''"

definition tx_object :: "('f, 'd) flops \<Rightarrow> string \<Rightarrow> transaction \<Rightarrow> string" where
  "tx_object fl ticker x = butlast (transaction_text ticker (d_text fl (fst (strtod fl (tx_amount x))))
     (d_text fl (fst (strtod fl (tx_usd x)))) (tx_date x))"

lemma commas_butlast: "xs \<noteq> [] \<Longrightarrow> butlast (concat (map (\<lambda>x. x @ '','') xs)) = commas xs"
  by (induction xs rule: commas.induct) (auto simp: butlast_append)

lemma commas_set: "c \<in> set (commas xs) \<Longrightarrow> c = CHR '','' \<or> (\<exists>x \<in> set xs. c \<in> set x)"
  by (induction xs rule: commas.induct) auto

lemma json_list_no_nul: "(\<And>x. x \<in> set xs \<Longrightarrow> nul \<notin> set x) \<Longrightarrow> nul \<notin> set (json_list xs)"
  using commas_set [of nul xs] by (auto simp: json_list_def nul_def)

lemma tx_object_comma:
  "transaction_text ticker (d_text fl (fst (strtod fl (tx_amount x)))) (d_text fl (fst (strtod fl (tx_usd x)))) (tx_date x) =
   tx_object fl ticker x @ '',''"
  by (simp add: tx_object_def transaction_text_def butlast_append)

text \<open>Texts written one behind the other into a block with room for them, by a loop \<open>f\<close>; then the last comma becomes the
  bracket that closes the list, before the NUL that \<open>sprintf\<close> left.\<close>

definition appends :: "('x \<Rightarrow> char option list \<times> nat \<Rightarrow> (char option list \<times> nat) res) \<Rightarrow> ('x \<Rightarrow> string) \<Rightarrow> 'x \<Rightarrow> bool" where
  "appends f g x \<longleftrightarrow> (\<forall>b n. f x (b, n) = bind_res (sprintf_at b n (g x)) (\<lambda>b'. Inr (b', n + length (g x))))"

lemma sprintf_behind:
  assumes "take (length pre) b = map Some pre" "length pre + length s < length b"
  shows "sprintf_at b (length pre) s = Inr (map Some (pre @ s @ [nul]) @ drop (length pre + length s + 1) b)"
  unfolding sprintf_at_def using assms by (simp add: put_at_def)

lemma append_texts:
  assumes "\<And>x. x \<in> set xs \<Longrightarrow> appends f g x" "xs \<noteq> []" "take (length pre) b = map Some pre"
    and "length pre + length (concat (map g xs)) < length b"
  shows "\<exists>r. fold_res f xs (b, length pre) =
    Inr (map Some (pre @ concat (map g xs) @ [nul]) @ r, length (pre @ concat (map g xs)))"
  using assms
proof (induction xs arbitrary: pre b)
  case (Cons x xs)
  let ?b = "map Some (pre @ g x @ [nul]) @ drop (length pre + length (g x) + 1) b"
  have room: "length pre + length (g x) < length b" using Cons.prems(4) by simp
  have "appends f g x" using Cons.prems(1) by simp
  then have step: "f x (b, length pre) = Inr (?b, length (pre @ g x))"
    unfolding appends_def using sprintf_behind [OF Cons.prems(3) room] by simp
  show ?case
  proof (cases "xs = []")
    case True
    then show ?thesis using step by simp
  next
    case False
    have "take (length (pre @ g x)) ?b = map Some (pre @ g x)" by simp
    moreover have "length (pre @ g x) + length (concat (map g xs)) < length ?b" using Cons.prems(4) by simp
    ultimately show ?thesis using Cons.IH [of "pre @ g x" ?b] Cons.prems(1) False
      by (simp only: fold_res.simps step bind_res_simps list.map concat.simps append_assoc list.set insert_iff) blast
  qed
qed simp

lemma json_closed:
  assumes loop: "\<And>x. x \<in> set xs \<Longrightarrow> appends f (\<lambda>x. g x @ '','') x" "xs \<noteq> []"
    and b: "b \<noteq> []" "hd b = Some CHR ''[''" and room: "1 + length (concat (map (\<lambda>x. g x @ '','') xs)) < length b"
  shows "\<exists>b' n r. fold_res f xs (b, 1) = Inr (b', n) \<and> n = length (json_list (map g xs)) \<and>
    put_at b' (n - 1) [Some CHR '']''] = Inr (map Some (json_list (map g xs) @ [nul]) @ r)"
proof -
  let ?t = "concat (map (\<lambda>x. g x @ '','') xs)"
  have "take (length ''['') b = map Some ''[''" using b by (cases b) simp_all
  from append_texts [OF loop this] room obtain r where
    r: "fold_res f xs (b, 1) = Inr (map Some (''['' @ ?t @ [nul]) @ r, length (''['' @ ?t))" by auto
  have u: "?t = commas (map g xs) @ '',''"
  proof -
    have "?t \<noteq> []" "last ?t = CHR '',''" using loop(2) by (induction xs rule: rev_induct) auto
    then have "?t = butlast ?t @ '',''" by (metis append_butlast_last_id)
    moreover have "butlast ?t = commas (map g xs)" using commas_butlast [of "map g xs"] loop(2) by (simp add: comp_def)
    ultimately show ?thesis by simp
  qed
  have "length (''['' @ ?t) = length (json_list (map g xs))" unfolding u by (simp add: json_list_def)
  moreover have "put_at (map Some (''['' @ ?t @ [nul]) @ r) (length (''['' @ ?t) - 1) [Some CHR '']''] =
      Inr (map Some (json_list (map g xs) @ [nul]) @ r)"
    unfolding u by (simp add: put_at_def json_list_def)
  ultimately show ?thesis using r by blast
qed

lemma list_line_tx:
  assumes "good_tx x"
  shows "appends (\<lambda>x. list_line fl ticker (line_of (tx_row x))) (\<lambda>x. tx_object fl ticker x @ '','') x"
proof -
  have f: "tmp_field (line_of (tx_row x)) 4 32 tmp = Inr (Some (tx_amount x), int (length (tx_amount x)))"
    "tmp_field (line_of (tx_row x)) 5 32 tmp = Inr (Some (tx_usd x), int (length (tx_usd x)))"
    "tmp_field (line_of (tx_row x)) (Suc 0) 32 tmp = Inr (Some (tx_date x), int (length (tx_date x)))" for tmp
    using tx_field [OF assms, of 4 32 tmp] tx_field [OF assms, of 5 32 tmp] tx_field [OF assms, of 1 32 tmp] assms
    by (simp_all add: tx_fields_def good_tx_def)
  show ?thesis unfolding appends_def by (simp add: list_line_def f tmp_str_def tx_object_comma)
qed

lemma entry_room:
  assumes "\<forall>x \<in> set xs. length (tx_object fl ticker x) + 1 \<le> length transaction_format + 127" "xs \<noteq> []"
  shows "1 + length (concat (map (\<lambda>x. tx_object fl ticker x @ '','') xs)) < length xs * (length transaction_format + 1 + 128)"
proof -
  have "length (concat (map (\<lambda>x. tx_object fl ticker x @ '','') xs)) \<le> length xs * (length transaction_format + 127)"
    using assms(1) by (induction xs) auto
  moreover have "length xs * (length transaction_format + 1 + 128) = length xs * (length transaction_format + 127) + 2 * length xs"
    by (simp add: algebra_simps)
  ultimately show ?thesis using assms(2) by (cases xs) simp_all
qed

lemma coin_transactions:
  assumes xs: "coin_txs xs" "CHR 0x0A \<notin> set h" and name: "length name < 32" "nul \<notin> set name"
    and texts: "\<And>v. nul \<notin> set (d_text fl v)"
    and fits: "\<forall>x \<in> set xs. length (tx_object fl (map upper_char name) x) + 1 \<le> length transaction_format + 127"
  shows "Coin_getTransactions fl name (Some (coin_file h xs)) =
    (if xs = [] then Inl OutOfBounds else Inr (json_list (map (tx_object fl (map upper_char name)) xs)))"
proof -
  from load_coin [OF xs] obtain csv st where c: "CSV_load (Some (coin_file h xs)) = Inr (Some csv)"
    "row_inv csv (map tx_row xs)" "CSV_close csv = Inr st" by blast
  have n: "entries csv = length xs" using c(2) by (simp add: row_inv_def rows_at_def)
  have good: "\<forall>x \<in> set xs. good_tx x" using xs(1) by (simp add: coin_txs_def)
  have ticker: "strupper 32 name = Inr (map upper_char name)" using name(1) by (simp add: strupper_def)
  show ?thesis
  proof (cases "xs = []")
    case True
    then show ?thesis unfolding Coin_getTransactions_def c(1) bind_res_simps option.case ticker n
      by (simp add: put_at_def)
  next
    case False
    let ?o = "tx_object fl (map upper_char name)"
    let ?t = "concat (map (\<lambda>x. ?o x @ '','') xs)"
    let ?m = "length xs * (length transaction_format + 1 + 128)"
    let ?b = "[Some CHR ''['', Some nul] @ replicate (?m - 2) (None :: char option)"
    have room: "1 + length ?t < ?m" by (rule entry_room [OF fits False])
    have t0: "0 < length ?t" using False by (cases xs) simp_all
    have init: "put_at (replicate (entries csv * (length transaction_format + 1 + 128)) None) 0 [Some CHR ''['', Some nul] = Inr ?b"
      using room t0 n by (simp add: put_at_def)
    have "1 + length ?t < length ?b" using room by simp
    from json_closed [OF list_line_tx False _ _ this] good obtain b' k r where
      b': "fold_res (\<lambda>x. list_line fl (map upper_char name) (line_of (tx_row x))) xs (?b, 1) = Inr (b', k)"
        "k = length (json_list (map ?o xs))" "put_at b' (k - 1) [Some CHR '']''] = Inr (map Some (json_list (map ?o xs) @ [nul]) @ r)"
      by auto
    have loop: "each_line (list_line fl (map upper_char name)) csv (Suc (entries csv)) 0 (?b, 1) = Inr (b', k)"
      unfolding all_lines [OF c(2)] fold_res_map by (rule b'(1))
    have fin: "put_at (map Some (json_list (map ?o xs) @ [nul]) @ r) k [Some nul] = Inr (map Some (json_list (map ?o xs) @ [nul]) @ r)"
      unfolding b'(2) by (simp add: put_at_def)
    have nn: "nul \<notin> set (json_list (map ?o xs))"
    proof (rule json_list_no_nul)
      fix y assume "y \<in> set (map ?o xs)"
      then obtain x where x: "x \<in> set xs" "y = ?o x" by auto
      then have "nul \<notin> set (tx_date x)" using good by (simp add: good_tx_def)
      then have "nul \<notin> set (?o x @ '','')" unfolding tx_object_comma [symmetric]
        using upper_no_nul [OF name(2)] texts by (simp add: transaction_text_def quoted_def) (simp add: nul_def)
      then show "nul \<notin> set y" unfolding x(2) by simp
    qed
    show ?thesis
      unfolding Coin_getTransactions_def c(1) bind_res_simps option.case ticker init loop prod.case b'(3) fin c(3)
        read_str_text [OF nn]
      using False by simp
  qed
qed

subsection \<open>Adding a transaction\<close>

lemma strstr_skip:
  assumes "z \<notin> set pat" "\<not> sublist pat xs" "pat \<noteq> []"
  shows "strstr (xs @ z # r) pat = strstr r pat"
  using assms(2)
proof (induction xs)
  case Nil
  have "\<not> prefix pat (z # r)" using assms(1,3) by (cases pat) auto
  then show ?case by simp
next
  case (Cons x xs)
  have "\<not> prefix pat (x # xs)" using Cons.prems by auto
  then have "\<not> prefix pat (x # xs @ z # r)" using prefix_in_text [of pat 0 "x # xs" z r] assms(1) by auto
  moreover have "\<not> sublist pat xs" using Cons.prems by (auto simp: sublist_Cons_right)
  ultimately show ?case using Cons.IH by simp
qed

lemma strstr_here: "pat \<noteq> [] \<Longrightarrow> strstr (pat @ r) pat = Some (pat @ r)"
  by (cases pat) simp_all

lemma skip_key_here: "key \<noteq> [] \<Longrightarrow> skip_key (key @ sep @ r) key (length (key @ sep)) = Inr r"
  by (simp add: skip_key_def strstr_here)

lemma skip_key_skip:
  "z \<notin> set key \<Longrightarrow> \<not> sublist key xs \<Longrightarrow> key \<noteq> [] \<Longrightarrow> skip_key (xs @ z # r) key n = skip_key r key n"
  by (simp add: skip_key_def strstr_skip)

lemma skip_key_1: "z \<notin> set key \<Longrightarrow> key \<noteq> [] \<Longrightarrow> skip_key (z # r) key n = skip_key r key n"
  using skip_key_skip [of z key "[]" r n] by simp

lemma until_quote_text: "CHR 0x22 \<notin> set t \<Longrightarrow> length t < cap \<Longrightarrow> until_quote cap (t @ CHR 0x22 # r) = Inr (t, CHR 0x22 # r)"
  by (simp add: until_quote_def takeWhile_append takeWhile_eq_all_conv)

text \<open>What the page sends (resources/script.js).\<close>

definition tx_json :: "string \<Rightarrow> string \<Rightarrow> string \<Rightarrow> string \<Rightarrow> string \<Rightarrow> string" where
  "tx_json coin amount kind v date =
     ''{'' @ quoted ''coin'' @ '':'' @ quoted coin @ '','' @ quoted ''amount'' @ '':'' @ amount @ '','' @
     quoted ''type'' @ '':'' @ quoted kind @ '','' @ quoted ''value'' @ '':'' @ v @ '','' @
     quoted ''date'' @ '':'' @ quoted date @ ''}''"

text \<open>\<open>strtod\<close> reads the number \<open>d\<close> from the text \<open>s\<close> before a comma, and stops there.\<close>

definition reads_number :: "('f, 'd) flops \<Rightarrow> string \<Rightarrow> 'd \<Rightarrow> bool" where
  "reads_number fl s d \<longleftrightarrow> (\<forall>r. strtod fl (s @ CHR '','' # r) = (d, length s))"

lemma json_amount:
  assumes "CHR 0x22 \<notin> set coin" "\<not> sublist ''amount'' coin"
  shows "skip_key (tx_json coin amount kind v date) ''amount'' (length (''amount'' @ [CHR 0x22, CHR '':''])) =
    Inr (amount @ CHR '','' # quoted ''type'' @ '':'' @ quoted kind @ '','' @ quoted ''value'' @ '':'' @ v @ CHR '','' #
      quoted ''date'' @ '':'' @ quoted date @ ''}'')"
proof -
  have j: "tx_json coin amount kind v date = [CHR ''{''] @ CHR 0x22 # ''coin'' @ CHR 0x22 # '':'' @ CHR 0x22 # coin @ CHR 0x22 #
     '','' @ CHR 0x22 # ''amount'' @ [CHR 0x22, CHR '':''] @ (amount @ CHR '','' # quoted ''type'' @ '':'' @ quoted kind @ '','' @
       quoted ''value'' @ '':'' @ v @ CHR '','' # quoted ''date'' @ '':'' @ quoted date @ ''}'')"
    by (simp add: tx_json_def quoted_def)
  have k: "CHR 0x22 \<notin> set ''amount''" "''amount'' \<noteq> []" by simp_all
  have s: "\<not> sublist ''amount'' [CHR ''{'']" "\<not> sublist ''amount'' ''coin''" "\<not> sublist ''amount'' '':''" "\<not> sublist ''amount'' '',''"
    by (auto dest: sublist_length_le)
  note skip = skip_key_skip [OF k(1) _ k(2)]
  show ?thesis unfolding j skip [OF s(1)] skip [OF s(2)] skip [OF s(3)] skip [OF assms(2)] skip [OF s(4)]
    by (rule skip_key_here [OF k(2)])
qed

lemma json_type:
  "skip_key (CHR '','' # quoted ''type'' @ '':'' @ quoted kind @ rest) ''type'' (length (''type'' @ [CHR 0x22, CHR '':'', CHR 0x22])) =
   Inr (kind @ CHR 0x22 # rest)"
proof -
  have "skip_key (CHR '','' # quoted ''type'' @ '':'' @ quoted kind @ rest) ''type'' n =
      skip_key (''type'' @ [CHR 0x22, CHR '':'', CHR 0x22] @ (kind @ CHR 0x22 # rest)) ''type'' n" for n
    by (simp add: quoted_def skip_key_1)
  then show ?thesis using skip_key_here [of "''type''"] by (simp only: not_Cons_self2 list.simps simp_thms)
qed

lemma json_value:
  "skip_key (CHR 0x22 # '','' @ quoted ''value'' @ '':'' @ rest) ''value'' (length (''value'' @ [CHR 0x22, CHR '':''])) = Inr rest"
proof -
  have "skip_key (CHR 0x22 # '','' @ quoted ''value'' @ '':'' @ rest) ''value'' n =
      skip_key (''value'' @ [CHR 0x22, CHR '':''] @ rest) ''value'' n" for n
    by (simp add: quoted_def skip_key_1)
  then show ?thesis using skip_key_here [of "''value''"] by (simp only: not_Cons_self2 list.simps simp_thms)
qed

lemma json_date:
  "skip_key (CHR '','' # quoted ''date'' @ '':'' @ quoted date @ rest) ''date'' (length (''date'' @ [CHR 0x22, CHR '':'', CHR 0x22])) =
   Inr (date @ CHR 0x22 # rest)"
proof -
  have "skip_key (CHR '','' # quoted ''date'' @ '':'' @ quoted date @ rest) ''date'' n =
      skip_key (''date'' @ [CHR 0x22, CHR '':'', CHR 0x22] @ (date @ CHR 0x22 # rest)) ''date'' n" for n
    by (simp add: quoted_def skip_key_1)
  then show ?thesis using skip_key_here [of "''date''"] by (simp only: not_Cons_self2 list.simps simp_thms)
qed

definition new_tx :: "('f, 'd) flops \<Rightarrow> string \<Rightarrow> transaction list \<Rightarrow> 'd \<Rightarrow> string \<Rightarrow> 'd \<Rightarrow> string \<Rightarrow> transaction" where
  "new_tx fl name xs a kind v date = \<lparr>tx_id = last_tx xs + 1, tx_date = date, tx_type = kind,
     tx_coin = map upper_char name, tx_amount = d_text fl a, tx_usd = d_text fl v\<rparr>"

lemma append_coin:
  assumes c: "row_inv csv rows" "ptrs_ok csv" and l: "lastId csv = int k" "k + 1 < 10 ^ 9" and s: "good_text s"
  shows "\<exists>csv' st. CSV_appendNewLine csv s = Inr csv' \<and> csv_file csv' = csv_file csv @ line_of (k + 1, s) \<and>
    lastId csv' = int (k + 1) \<and> CSV_close csv' = Inr st"
proof -
  have "lastId csv + 1 < 10 ^ 9" using l by simp
  from append_rows [OF c(1) s this] obtain csv' where a: "CSV_appendNewLine csv s = Inr csv'"
    "lastId csv' = lastId csv + 1" "row_inv csv' (rows @ [(nat (lastId csv + 1), s)])" "hdr_size csv' = hdr_size csv"
    "take (hdr_size csv) (csv_file csv') = take (hdr_size csv) (csv_file csv)" by blast
  have "csv_file csv' = take (hdr_size csv) (csv_file csv') @ drop (hdr_size csv') (csv_file csv')"
    unfolding a(4) by simp
  also have "\<dots> = take (hdr_size csv) (csv_file csv) @ concat (map line_of (rows @ [(nat (lastId csv + 1), s)]))"
    using a(3) unfolding a(5) by (simp add: row_inv_def)
  also have "\<dots> = (take (hdr_size csv) (csv_file csv) @ drop (hdr_size csv) (csv_file csv)) @ line_of (k + 1, s)"
    using c(1) l(1) by (simp add: row_inv_def nat_add_distrib)
  finally have "csv_file csv' = csv_file csv @ line_of (k + 1, s)" by simp
  with a(1,2) l(1) close_ptrs [OF ptrs_append [OF c(2) a(1)]] show ?thesis by auto
qed

lemma csv_header_line: "csv_header = ''Id;Date;Type;Coin;Amount;Usd'' @ CHR 0x0A # []"
  by (simp add: csv_header_def)

text \<open>The file of the coin, or none yet.\<close>

definition coin_on_disk :: "string option \<Rightarrow> string \<Rightarrow> transaction list \<Rightarrow> bool" where
  "coin_on_disk f h xs \<longleftrightarrow> coin_txs xs \<and> CHR 0x0A \<notin> set h \<and>
     (f = Some (coin_file h xs) \<or> f = None \<and> xs = [] \<and> h @ [CHR 0x0A] = csv_header)"

lemma open_coin:
  assumes "coin_on_disk f h xs"
  shows "\<exists>r. CSV_load f = Inr r \<and> (let csv = (case r of None \<Rightarrow> CSV_create | Some c \<Rightarrow> c) in
    row_inv csv (map tx_row xs) \<and> lastId csv = int (last_tx xs) \<and> ptrs_ok csv \<and> csv_file csv = coin_file h xs)"
proof (cases f)
  case None
  have "ptrs_ok CSV_create" by (simp add: ptrs_ok_def live_ptrs_def CSV_create_def)
  moreover have "csv_file CSV_create = coin_file h []" using assms None by (simp add: coin_on_disk_def coin_file_def CSV_create_def)
  moreover have "xs = []" using assms None by (simp add: coin_on_disk_def)
  ultimately show ?thesis using None create_rows
    by (auto simp: CSV_load_def last_tx_def) (simp add: CSV_create_def)
next
  case (Some g)
  with assms have x: "coin_txs xs" "CHR 0x0A \<notin> set h" "f = Some (coin_file h xs)" by (auto simp: coin_on_disk_def)
  from load_coin [OF x(1,2)] x(3) show ?thesis by auto
qed

lemma coin_file_snoc: "coin_file h xs @ line_of (tx_row x) = coin_file h (xs @ [x])"
  by (simp add: coin_file_def)

lemma drop_text: "drop (length xs) (xs @ ys) = ys"
  by simp

lemma transaction_added:
  assumes disk: "coin_on_disk f h xs" "last_tx xs + 1 < 10 ^ 9"
    and nums: "reads_number fl amount a" "reads_number fl v p"
    and name: "length name < 32"
    and json: "CHR 0x22 \<notin> set coin" "\<not> sublist ''amount'' coin" "CHR 0x22 \<notin> set kind" "CHR 0x22 \<notin> set date"
    and new: "good_tx (new_tx fl name xs a kind p date)" "length kind < 8"
  shows "Coin_addTransacation fl name f (tx_json coin amount kind v date) =
    Inr (coin_file h (xs @ [new_tx fl name xs a kind p date]), int (last_tx xs))"
proof -
  let ?x = "new_tx fl name xs a kind p date"
  let ?s = "tx_line date kind (map upper_char name) (d_text fl a) (d_text fl p)"
  from open_coin [OF disk(1)] obtain r where r: "CSV_load f = Inr r"
    "let csv = (case r of None \<Rightarrow> CSV_create | Some c \<Rightarrow> c) in
      row_inv csv (map tx_row xs) \<and> lastId csv = int (last_tx xs) \<and> ptrs_ok csv \<and> csv_file csv = coin_file h xs" by blast
  define csv where "csv = (case r of None \<Rightarrow> CSV_create | Some c \<Rightarrow> c)"
  have csv: "row_inv csv (map tx_row xs)" "lastId csv = int (last_tx xs)" "ptrs_ok csv" "csv_file csv = coin_file h xs"
    using r(2) by (simp_all add: csv_def Let_def)
  have row: "tx_row ?x = (last_tx xs + 1, ?s)" by (simp add: tx_row_def new_tx_def)
  have gs: "good_text ?s" using good_tx_row [OF new(1)] by (simp add: row good_row_def)
  from append_coin [OF csv(1,3,2) disk(2) gs] obtain csv1 st where csv1: "CSV_appendNewLine csv ?s = Inr csv1"
    "csv_file csv1 = coin_file h (xs @ [?x])" "lastId csv1 = int (last_tx xs + 1)" "CSV_close csv1 = Inr st"
    unfolding csv(4) row [symmetric] coin_file_snoc by blast
  have ticker: "strupper 32 name = Inr (map upper_char name)" using name by (simp add: strupper_def)
  have date: "length date < 32" using new(1) by (simp add: good_tx_def new_tx_def)
  have num: "strtod fl (amount @ CHR '','' # t) = (a, length amount)" "strtod fl (v @ CHR '','' # t) = (p, length v)" for t
    using nums by (simp_all add: reads_number_def)
  have "length ?s < length (replicate 256 (None :: char option))"
    using new name by (simp add: tx_line_def good_tx_def new_tx_def)
  note b = sprintf_at_start [OF this]
  have nn: "nul \<notin> set ?s" using gs by (simp add: good_text_def)
  have line: "date @ '';'' @ kind @ '';'' @ map upper_char name @ '';'' @ d_text fl a @ '';'' @ d_text fl p = ?s"
    by (simp add: tx_line_def)
  show ?thesis
    unfolding Coin_addTransacation_def r(1) bind_res_simps csv_def [symmetric] Let_def ticker json_amount [OF json(1,2)]
      num fst_conv snd_conv drop_text json_type until_quote_text [OF json(3) new(2)] prod.case json_value json_date
      until_quote_text [OF json(4) date] line b read_str_text [OF nn] csv1(1,2,4)
    by (simp add: csv1(3))
qed

subsection \<open>Properties\<close>

text \<open>A posted transaction ends up in the file of its coin: one line more, with the next id, the date and
  the type as posted, the ticker in capital letters and the two numbers reprinted; what was in the file stays.
  A coin without a file gets one, with the header. The returned number is the id of the transaction before it.\<close>

theorem coin_added:
  assumes "coin_on_disk f h xs" "last_tx xs + 1 < 10 ^ 9"
    and "reads_number fl amount a" "reads_number fl v p"
    and "length name < 32"
    and "CHR 0x22 \<notin> set coin" "\<not> sublist ''amount'' coin" "CHR 0x22 \<notin> set kind" "CHR 0x22 \<notin> set date"
    and "good_tx (new_tx fl name xs a kind p date)" "length kind < 8"
  shows "Coin_addTransacation fl name f (tx_json coin amount kind v date) =
    Inr (coin_file h (xs @ [new_tx fl name xs a kind p date]), int (last_tx xs))"
  using assms by (rule transaction_added)

text \<open>For the witnesses: whole numbers in place of floating point.\<close>

definition whole_ops :: "(int, int) flops" where
  "whole_ops = \<lparr>f_zero = 0, d_zero = 0, f_plus = (+), f_minus = (-), f_div = (div),
     strtod = (\<lambda>s. (strtol_val s, strtol_len s)), f_text = dec_int, d_text = dec_int\<rparr>"

definition sample_txs :: "transaction list" where
  "sample_txs = [\<lparr>tx_id = 1, tx_date = ''31/01/2024'', tx_type = ''Buy'', tx_coin = ''BTC'', tx_amount = ''2'', tx_usd = ''90''\<rparr>,
     \<lparr>tx_id = 3, tx_date = ''01/02/2024'', tx_type = ''Yield'', tx_coin = ''BTC'', tx_amount = ''1'', tx_usd = ''7''\<rparr>,
     \<lparr>tx_id = 4, tx_date = ''02/02/2024'', tx_type = ''Sell'', tx_coin = ''BTC'', tx_amount = ''1'', tx_usd = ''50''\<rparr>]"

lemma sample_good: "coin_txs sample_txs"
  by (simp add: coin_txs_def sample_txs_def good_tx_def plain_def field_char_def nul_def)

lemma dec_int_no_nul: "nul \<notin> set (dec_int i)"
  using dec_no_nul by (simp add: dec_int_def) (simp add: nul_def)

lemma whole_digit: "strtod whole_ops (''5'' @ CHR '','' # r) = (5, 1)" "strtod whole_ops (''9'' @ CHR '','' # r) = (9, 1)"
  by (simp_all add: whole_ops_def strtol_val_def strtol_len_def digits_val_def digit_val_def isspace_def isdigit_def)

lemma whole_texts: "f_text whole_ops = dec_int" "d_text whole_ops = dec_int" "f_div whole_ops = (div)"
  by (simp_all add: whole_ops_def)

lemma small_decs:
  "dec (Suc 0) = ''1''" "dec_int 1 = ''1''" "dec_int 2 = ''2''" "dec_int 5 = ''5''" "dec_int 7 = ''7''" "dec_int 9 = ''9''"
  "dec_int 30 = ''30''" "dec_int 50 = ''50''" "dec_int 90 = ''90''"
  by code_simp+

lemma upper_btc: "map upper_char ''btc'' = ''BTC''"
  by code_simp

text \<open>The first transaction of a new coin.\<close>

definition first_tx :: transaction where
  "first_tx = \<lparr>tx_id = 1, tx_date = ''31/01/2024'', tx_type = ''Buy'', tx_coin = ''BTC'', tx_amount = ''5'', tx_usd = ''9''\<rparr>"

lemma first_new: "new_tx whole_ops ''btc'' [] 5 ''Buy'' 9 ''31/01/2024'' = first_tx"
  by (simp add: new_tx_def last_tx_def whole_texts small_decs upper_btc [simplified] first_tx_def)

lemma first_good: "good_tx first_tx"
  by (simp add: first_tx_def good_tx_def plain_def field_char_def nul_def)

lemma first_nums: "reads_number whole_ops ''5'' 5" "reads_number whole_ops ''9'' 9"
  using whole_digit by (simp_all add: reads_number_def)

theorem coin_added_witness:
  "\<exists>f. Coin_addTransacation whole_ops ''btc'' None (tx_json ''BTC'' ''5'' ''Buy'' ''9'' ''31/01/2024'') = Inr (f, 0) \<and>
    f = csv_header @ ''1;31/01/2024;Buy;BTC;5;9'' @ [CHR 0x0A]"
proof -
  let ?h = "''Id;Date;Type;Coin;Amount;Usd''"
  have disk: "coin_on_disk None ?h []" by (simp add: coin_on_disk_def coin_txs_def csv_header_def)
  have "Coin_addTransacation whole_ops ''btc'' None (tx_json ''BTC'' ''5'' ''Buy'' ''9'' ''31/01/2024'') =
      Inr (coin_file ?h ([] @ [new_tx whole_ops ''btc'' [] 5 ''Buy'' 9 ''31/01/2024'']), int (last_tx []))"
    using disk _ first_nums by (rule coin_added) (simp_all add: first_new first_good last_tx_def sublist_Cons_right)
  moreover have "coin_file ?h ([] @ [first_tx]) = csv_header @ ''1;31/01/2024;Buy;BTC;5;9'' @ [CHR 0x0A]"
    by (simp add: first_tx_def coin_file_def line_of_def tx_row_def tx_line_def csv_header_def small_decs)
  ultimately show ?thesis by (simp add: first_new last_tx_def)
qed

text \<open>Property C27. The summary of a coin: the amount held is what was bought and earned less what was sold, the price
  paid sums the purchases only, the average divides it by what was bought and earned, all in the order of the file. A type
  of three to five letters that is not a name counts as a purchase. The block for the text has room
  for 60 characters of ticker and numbers; one more overflows it.\<close>

theorem coin_info:
  assumes "coin_txs xs" "CHR 0x0A \<notin> set h" "length name < 32" "nul \<notin> set name" "\<And>v. nul \<notin> set (f_text fl v)"
    and "a = f_text fl (amount_coin (figures fl xs))"
    and "v = f_text fl (f_div fl (totalBuy_usd (figures fl xs)) (totalBuy_coin (figures fl xs)))"
    and "b = f_text fl (totalBuy_usd (figures fl xs))" "s = f_text fl (totalSell_usd (figures fl xs))"
  shows "Coin_getInfo fl name (Some (coin_file h xs)) =
    (if length name + length a + length v + length b + length s \<le> 60
     then Inr (info_text (map upper_char name) a v b s) else Inl OutOfBounds)"
  unfolding assms(6-9) using assms(1-5) by (rule coin_info_figures)

lemma sample_figures:
  "figures whole_ops sample_txs = \<lparr>amount_coin = 2, totalBuy_usd = 90, totalBuy_coin = 3, totalSell_usd = 50\<rparr>"
  by (simp add: figures_def sample_txs_def whole_ops_def bought_def sold_def yielded_def strtol_val_def digits_val_def
    digit_val_def isspace_def isdigit_def)

theorem coin_info_witness:
  "Coin_getInfo whole_ops ''btc'' (Some (coin_file ''h'' sample_txs)) = Inr (info_text ''BTC'' ''2'' ''30'' ''90'' ''50'')"
proof -
  note t = upper_btc upper_btc [simplified]
  note f = sample_figures
  note d = small_decs
  have "Coin_getInfo whole_ops ''btc'' (Some (coin_file ''h'' sample_txs)) =
    (if length ''btc'' + length ''2'' + length ''30'' + length ''90'' + length ''50'' \<le> 60
     then Inr (info_text (map upper_char ''btc'') ''2'' ''30'' ''90'' ''50'') else Inl OutOfBounds)"
    using sample_good by (rule coin_info) (simp_all add: f whole_texts d dec_int_no_nul, simp_all add: nul_def)
  then show ?thesis by (simp add: t)
qed

text \<open>Two transactions of the sample as json.\<close>

lemma two_objects:
  "map (tx_object whole_ops ''BTC'') (take 2 sample_txs) = [butlast (transaction_text ''BTC'' ''2'' ''90'' ''31/01/2024''),
    butlast (transaction_text ''BTC'' ''1'' ''7'' ''01/02/2024'')]"
  by (simp add: sample_txs_def tx_object_def whole_ops_def strtol_val_def digits_val_def digit_val_def isspace_def
    isdigit_def small_decs)

lemma two_fit: "\<forall>x \<in> set (take 2 sample_txs). length (tx_object whole_ops ''BTC'' x) + 1 \<le> length transaction_format + 127"
proof -
  have "\<forall>y \<in> set (map (tx_object whole_ops ''BTC'') (take 2 sample_txs)). length y + 1 \<le> length transaction_format + 127"
    unfolding two_objects by (simp add: transaction_text_def transaction_format_def quoted_def)
  then show ?thesis by simp
qed

lemma two_good: "coin_txs (take 2 sample_txs)"
  by (simp add: coin_txs_def sample_txs_def good_tx_def plain_def field_char_def nul_def)

end
