(* ===== verification/Portfolio.thy ===== *)
theory Portfolio
  imports Coin
begin

section \<open>Portfolios: a directory of coins (app/backend/portfolio.c)\<close>

text \<open>
  The file system the program sees: the contents of the regular files and the entries of the directories (in the
  order \<open>readdir\<close> gives them), by path. A path is a name: two names of one file (through \<open>..\<close>) are two paths here.
  What only the system decides is a parameter: whether a directory can be made, and where a new entry shows up.
\<close>

record fs =
  fs_files :: "string \<Rightarrow> string option"
  fs_dirs :: "string \<Rightarrow> string list option"

record os =
  os_mkdir :: "string \<Rightarrow> bool"
  os_place :: "string \<Rightarrow> string list \<Rightarrow> string list"

definition OpenDirectory :: "os \<Rightarrow> fs \<Rightarrow> string \<Rightarrow> fs \<times> string list option" where
  "OpenDirectory os fs p =
     (case fs_dirs fs p of
        Some es \<Rightarrow> (fs, Some es)
      | None \<Rightarrow>
          if fs_files fs p = None \<and> os_mkdir os p
          then (fs\<lparr>fs_dirs := (fs_dirs fs)(p := Some [''.'', ''..''])\<rparr>, Some [''.'', ''..''])
          else (fs, None))"

definition underscores :: "string \<Rightarrow> string" where
  "underscores s = map (\<lambda>c. if c = CHR '' '' then CHR ''_'' else c) s"

definition PortfolioCreate :: "os \<Rightarrow> fs \<Rightarrow> string \<Rightarrow> string \<Rightarrow> fs \<times> int" where
  "PortfolioCreate os fs path name =
     (let (fs, dir) = OpenDirectory os fs (path @ underscores name)
      in (fs, if dir = None then -1 else 0))"

text \<open>The path of an entry of a directory, in an array of 256 characters.\<close>

definition entry_path :: "string \<Rightarrow> string \<Rightarrow> string" where
  "entry_path dir e = dir @ ''/'' @ e"

definition is_reg :: "fs \<Rightarrow> string \<Rightarrow> bool" where
  "is_reg fs p \<longleftrightarrow> fs_files fs p \<noteq> None"

definition PortfolioCountCoins :: "fs \<Rightarrow> string \<Rightarrow> string list \<Rightarrow> nat" where
  "PortfolioCountCoins fs dir es = length (filter (\<lambda>e. is_reg fs (entry_path dir e)) es)"

text \<open>The name of a coin: what is before the first dot; without a dot the copy runs past the end.\<close>

definition coin_name :: "string \<Rightarrow> string res" where
  "coin_name e =
     (let n = takeWhile (\<lambda>c. c \<noteq> CHR ''.'') e
      in if CHR ''.'' \<in> set e \<and> length n < 16 then Inr n else Inl OutOfBounds)"

definition list_entry ::
    "('f, 'd) flops \<Rightarrow> fs \<Rightarrow> string \<Rightarrow> string \<Rightarrow> char option list \<times> nat \<Rightarrow> (char option list \<times> nat) res" where
  "list_entry fl fs dir e st =
     (let file = entry_path dir e in
      bind_res (require OutOfBounds (length file < 256)) (\<lambda>_.
      if is_reg fs file then
        bind_res (coin_name e) (\<lambda>name.
        bind_res (Coin_getInfo fl name (fs_files fs file)) (\<lambda>coin.
        bind_res (sprintf_at (fst st) (snd st) (coin @ '','')) (\<lambda>b. Inr (b, snd st + length (coin @ '','')))))
      else Inr st))"

text \<open>The block it returns (\<open>None\<close> is NULL) is as the code leaves it: the NUL behind the list is the one \<open>sprintf\<close> wrote.\<close>

definition PortfolioGetCoinsList :: "('f, 'd) flops \<Rightarrow> os \<Rightarrow> fs \<Rightarrow> string \<Rightarrow> (fs \<times> char option list option) res" where
  "PortfolioGetCoinsList fl os fs portfolio =
     (case OpenDirectory os fs portfolio of
        (fs, None) \<Rightarrow> Inr (fs, None)
      | (fs, Some es) \<Rightarrow>
          bind_res (require OutOfBounds (length portfolio < 256)) (\<lambda>_.
          bind_res (put_at (replicate (4096 * 2) None) 0 [Some CHR ''['']) (\<lambda>b.
          bind_res (fold_res (list_entry fl fs portfolio) es (b, 1)) (\<lambda>(b, size).
          bind_res (put_at b (size - 1) [Some CHR '']'']) (\<lambda>b. Inr (fs, Some b))))))"

definition lower_char :: "char \<Rightarrow> char" where
  "lower_char c = (if 65 \<le> (of_char c :: nat) \<and> (of_char c :: nat) \<le> 90 then char_of (of_char c + 32 :: nat) else c)"

definition strlower :: "nat \<Rightarrow> string \<Rightarrow> string res" where
  "strlower cap src = (if length src < cap then Inr (map lower_char src) else Inl OutOfBounds)"

definition csv_path :: "string \<Rightarrow> string \<Rightarrow> string res" where
  "csv_path portfolio ticker =
     (let p = entry_path portfolio (ticker @ ''.csv'') in if length p < 256 then Inr p else Inl OutOfBounds)"

definition PortfolioGetCoinTransactions :: "('f, 'd) flops \<Rightarrow> fs \<Rightarrow> string \<Rightarrow> string \<Rightarrow> string res" where
  "PortfolioGetCoinTransactions fl fs portfolio coin =
     bind_res (strlower 32 coin) (\<lambda>ticker.
     bind_res (csv_path portfolio ticker) (\<lambda>path.
     Coin_getTransactions fl coin (fs_files fs path)))"

text \<open>Writing a file. A new one needs its directory; without it \<open>fopen\<close> gives NULL, which \<open>CSV_create\<close> writes to.\<close>

definition dir_of :: "string \<Rightarrow> string" where
  "dir_of p = rev (drop 1 (dropWhile (\<lambda>c. c \<noteq> CHR ''/'') (rev p)))"

definition base_of :: "string \<Rightarrow> string" where
  "base_of p = rev (takeWhile (\<lambda>c. c \<noteq> CHR ''/'') (rev p))"

definition can_open :: "fs \<Rightarrow> string \<Rightarrow> bool" where
  "can_open fs p \<longleftrightarrow> fs_files fs p \<noteq> None \<or> fs_dirs fs p = None \<and> fs_dirs fs (dir_of p) \<noteq> None"

definition write_file :: "os \<Rightarrow> fs \<Rightarrow> string \<Rightarrow> string \<Rightarrow> fs" where
  "write_file os fs p content =
     (let fs1 = fs\<lparr>fs_files := (fs_files fs)(p := Some content)\<rparr>
      in if fs_files fs p \<noteq> None then fs1
         else fs1\<lparr>fs_dirs := (fs_dirs fs)(dir_of p := map_option (os_place os (base_of p)) (fs_dirs fs (dir_of p)))\<rparr>)"

definition PortfolioAddCoinTransactions ::
    "('f, 'd) flops \<Rightarrow> os \<Rightarrow> fs \<Rightarrow> string \<Rightarrow> string \<Rightarrow> (fs \<times> string) res" where
  "PortfolioAddCoinTransactions fl os fs portfolio json =
     bind_res (skip_key json ''coin'' (length (''coin'' @ [CHR 0x22, CHR '':'', CHR 0x22]))) (\<lambda>str.
     bind_res (until_quote 32 str) (\<lambda>(t, _).
     let ticker = map lower_char (map lower_char t) in
     bind_res (csv_path portfolio ticker) (\<lambda>path.
     bind_res (require NullDeref (can_open fs path)) (\<lambda>_.
     bind_res (Coin_addTransacation fl ticker (fs_files fs path) json) (\<lambda>(content, _).
     Inr (write_file os fs path content, json))))))"

subsection \<open>Paths\<close>

definition plain_name :: "string \<Rightarrow> bool" where
  "plain_name e \<longleftrightarrow> CHR ''/'' \<notin> set e"

lemma entry_dir_base:
  assumes "plain_name e"
  shows "dir_of (entry_path p e) = p" "base_of (entry_path p e) = e"
proof -
  have r: "rev (entry_path p e) = rev e @ CHR ''/'' # rev p" by (simp add: entry_path_def)
  have n: "c \<noteq> CHR ''/''" if "c \<in> set (rev e)" for c using assms that by (auto simp: plain_name_def)
  show "dir_of (entry_path p e) = p"
    unfolding dir_of_def r by (subst dropWhile_append2) (simp_all add: n)
  show "base_of (entry_path p e) = e"
    unfolding base_of_def r by (subst takeWhile_append2) (simp_all add: n)
qed

lemma entry_path_inj:
  "plain_name e \<Longrightarrow> plain_name e' \<Longrightarrow> entry_path p e = entry_path q e' \<longleftrightarrow> p = q \<and> e = e'"
  using entry_dir_base by metis

subsection \<open>The portfolio as a map\<close>

text \<open>The ticker of a coin as a file name, and what a portfolio holds: the transactions by ticker.\<close>

definition ticker_ok :: "string \<Rightarrow> bool" where
  "ticker_ok t \<longleftrightarrow> length t < 16 \<and> plain_name t \<and> CHR ''.'' \<notin> set t \<and> nul \<notin> set t"

definition csv_name :: "string \<Rightarrow> string" where
  "csv_name t = t @ ''.csv''"

definition holds_coin :: "string option \<Rightarrow> transaction list \<Rightarrow> bool" where
  "holds_coin f xs \<longleftrightarrow> coin_txs xs \<and> (\<exists>h. CHR 0x0A \<notin> set h \<and> f = Some (coin_file h xs))"

definition dot_entries :: "string set" where
  "dot_entries = {''.'', ''..''}"

definition portfolio_at :: "fs \<Rightarrow> string \<Rightarrow> (string \<Rightarrow> transaction list option) \<Rightarrow> bool" where
  "portfolio_at fs p m \<longleftrightarrow> length p < 200 \<and>
     (\<exists>es. fs_dirs fs p = Some es \<and> distinct es \<and> set es = dot_entries \<union> csv_name ` dom m) \<and>
     (\<forall>e. plain_name e \<longrightarrow> (is_reg fs (entry_path p e) \<longleftrightarrow> e \<in> csv_name ` dom m)) \<and>
     (\<forall>e. plain_name e \<longrightarrow> fs_dirs fs (entry_path p e) \<noteq> None \<longrightarrow> e \<in> dot_entries) \<and>
     (\<forall>t xs. m t = Some xs \<longrightarrow> ticker_ok t \<and> holds_coin (fs_files fs (entry_path p (csv_name t))) xs)"

lemma portfolio_entries:
  assumes "portfolio_at fs p m"
  obtains es where "fs_dirs fs p = Some es" "distinct es" "set es = dot_entries \<union> csv_name ` dom m"
proof -
  from assms have "\<exists>es. fs_dirs fs p = Some es \<and> distinct es \<and> set es = dot_entries \<union> csv_name ` dom m"
    unfolding portfolio_at_def by (elim conjE)
  with that show thesis by (elim exE conjE)
qed

lemma portfolio_subdirs:
  "portfolio_at fs p m \<Longrightarrow> plain_name e \<Longrightarrow> fs_dirs fs (entry_path p e) \<noteq> None \<Longrightarrow> e \<in> dot_entries"
  by (simp add: portfolio_at_def)

lemma portfolio_coin:
  "portfolio_at fs p m \<Longrightarrow> m t = Some xs \<Longrightarrow> ticker_ok t \<and> holds_coin (fs_files fs (entry_path p (csv_name t))) xs"
  by (simp add: portfolio_at_def)

lemma portfolio_ticker: "portfolio_at fs p m \<Longrightarrow> t \<in> dom m \<Longrightarrow> ticker_ok t"
  using portfolio_coin by blast

text \<open>Where the system puts a new entry is its choice.\<close>

definition places_entries :: "os \<Rightarrow> bool" where
  "places_entries os \<longleftrightarrow> (\<forall>e es. set (os_place os e es) = insert e (set es) \<and>
     (distinct es \<longrightarrow> e \<notin> set es \<longrightarrow> distinct (os_place os e es)))"

lemma csv_name_inj [simp]: "csv_name t = csv_name u \<longleftrightarrow> t = u"
  by (simp add: csv_name_def)

lemma csv_name_dots [simp]: "csv_name t \<notin> dot_entries"
proof -
  have "length (csv_name t) > 2" by (simp add: csv_name_def)
  moreover have "\<forall>e \<in> dot_entries. length e \<le> 2" by (simp add: dot_entries_def)
  ultimately show ?thesis by fastforce
qed

lemma csv_name_image [simp]: "csv_name t \<in> csv_name ` A \<longleftrightarrow> t \<in> A"
  by auto

lemma plain_csv [simp]: "plain_name (csv_name t) = plain_name t"
  by (simp add: csv_name_def plain_name_def)

text \<open>A file written in a portfolio: there it is the coin's, and every other portfolio is as before.\<close>

lemma write_dirs:
  assumes "plain_name e"
  shows "fs_dirs (write_file os fs (entry_path p e) c) q =
    (if q = p \<and> fs_files fs (entry_path p e) = None then map_option (os_place os e) (fs_dirs fs p) else fs_dirs fs q)"
  using assms by (simp add: write_file_def Let_def entry_dir_base)

lemma write_files: "fs_files (write_file os fs p c) = (fs_files fs)(p := Some c)"
  by (simp add: write_file_def Let_def)

lemma longer_path: "entry_path p e \<noteq> p"
  by (simp add: entry_path_def)

lemma write_here:
  assumes at: "portfolio_at fs p m" and os: "places_entries os" and t: "ticker_ok t" and xs: "holds_coin (Some c) xs"
  shows "portfolio_at (write_file os fs (entry_path p (csv_name t)) c) p (m(t := Some xs))"
proof -
  let ?p = "entry_path p (csv_name t)"
  let ?fs = "write_file os fs ?p c"
  have tp: "plain_name (csv_name t)" using t by (simp add: ticker_ok_def)
  from at obtain es where es: "fs_dirs fs p = Some es" "distinct es" "set es = dot_entries \<union> csv_name ` dom m"
    by (rule portfolio_entries)
  have reg: "is_reg fs (entry_path p e) \<longleftrightarrow> e \<in> csv_name ` dom m" if "plain_name e" for e
    using at that by (simp add: portfolio_at_def)
  have sub: "fs_dirs fs (entry_path p e) \<noteq> None \<Longrightarrow> e \<in> dot_entries" if "plain_name e" for e
    using at that by (simp add: portfolio_at_def)
  have coins: "ticker_ok u \<and> holds_coin (fs_files fs (entry_path p (csv_name u))) ys" if "m u = Some ys" for u ys
    using at that by (simp add: portfolio_at_def)
  have old: "fs_files fs ?p = None \<longleftrightarrow> t \<notin> dom m" using reg [OF tp] unfolding is_reg_def csv_name_image by blast
  have dom: "dom (m(t := Some xs)) = insert t (dom m)" by auto
  have "\<exists>es. fs_dirs ?fs p = Some es \<and> distinct es \<and> set es = dot_entries \<union> csv_name ` insert t (dom m)"
  proof (cases "t \<in> dom m")
    case True
    then have "fs_files fs ?p \<noteq> None" using old by simp
    then have "fs_dirs ?fs p = Some es" using es(1) by (auto simp: write_dirs [OF tp])
    then show ?thesis using es(2,3) True by (simp add: insert_absorb)
  next
    case False
    then have "csv_name t \<notin> set es" using es(3) by auto
    then have "distinct (os_place os (csv_name t) es)" "set (os_place os (csv_name t) es) = insert (csv_name t) (set es)"
      using os es(2) by (simp_all add: places_entries_def)
    moreover have "fs_dirs ?fs p = Some (os_place os (csv_name t) es)" using es(1) old False by (simp add: write_dirs [OF tp])
    ultimately show ?thesis using es(3) by auto
  qed
  moreover have "is_reg ?fs (entry_path p e) \<longleftrightarrow> e \<in> csv_name ` insert t (dom m)" if "plain_name e" for e
    using reg [OF that] entry_path_inj [OF that tp, of p p] by (auto simp: is_reg_def write_files)
  moreover have "fs_dirs ?fs (entry_path p e) \<noteq> None \<Longrightarrow> e \<in> dot_entries" if "plain_name e" for e
    using sub [OF that] by (simp add: write_dirs [OF tp] longer_path)
  moreover have "ticker_ok u \<and> holds_coin (fs_files ?fs (entry_path p (csv_name u))) ys"
    if "(m(t := Some xs)) u = Some ys" for u ys
  proof (cases "u = t")
    case True
    then show ?thesis using that t xs by (simp add: write_files)
  next
    case False
    then have u: "m u = Some ys" using that by simp
    then have "plain_name (csv_name u)" using coins by (simp add: ticker_ok_def)
    from entry_path_inj [OF this tp, of p p] False coins [OF u] show ?thesis by (simp add: write_files)
  qed
  moreover have "length p < 200" using at by (simp add: portfolio_at_def)
  ultimately show ?thesis unfolding portfolio_at_def dom by simp
qed

lemma write_elsewhere:
  assumes at: "portfolio_at fs q m" and ne: "q \<noteq> p" and e: "plain_name e"
    and qd: "\<And>d. plain_name d \<Longrightarrow> entry_path q d \<noteq> p"
  shows "portfolio_at (write_file os fs (entry_path p e) c) q m"
proof -
  let ?fs = "write_file os fs (entry_path p e) c"
  have files: "fs_files ?fs (entry_path q d) = fs_files fs (entry_path q d)" if "plain_name d" for d
    using entry_path_inj [OF that e, of q p] ne by (simp add: write_files)
  have "fs_dirs ?fs q = fs_dirs fs q" using ne by (simp add: write_dirs [OF e])
  moreover have "fs_dirs ?fs (entry_path q d) = fs_dirs fs (entry_path q d)" if "plain_name d" for d
    using qd [OF that] by (simp add: write_dirs [OF e])
  moreover have "is_reg ?fs (entry_path q d) = is_reg fs (entry_path q d)" if "plain_name d" for d
    using files [OF that] by (simp add: is_reg_def)
  moreover have "holds_coin (fs_files ?fs (entry_path q (csv_name t))) xs" if "m t = Some xs" for t xs
  proof -
    have "ticker_ok t" "holds_coin (fs_files fs (entry_path q (csv_name t))) xs" using at that by (simp_all add: portfolio_at_def)
    then show ?thesis using files [of "csv_name t"] by (simp add: ticker_ok_def)
  qed
  ultimately show ?thesis using at unfolding portfolio_at_def by (metis (no_types, lifting))
qed

subsection \<open>Posting a transaction\<close>

lemma lower_lower: "map lower_char (map lower_char s) = map lower_char s"
proof -
  have "lower_char (lower_char c) = lower_char c" for c
  proof (cases "65 \<le> (of_char c :: nat) \<and> (of_char c :: nat) \<le> 90")
    case True
    have "(of_char (lower_char c) :: nat) = of_char c + 32"
    proof -
      have "(of_char c :: nat) + 32 < 256" using True by linarith
      then show ?thesis using True by (simp add: lower_char_def of_char_of)
    qed
    then show ?thesis using True by (simp add: lower_char_def [of "lower_char c"])
  next
    case False
    then have "lower_char c = c" unfolding lower_char_def by (simp only: if_False)
    then show ?thesis by simp
  qed
  then show ?thesis by simp
qed

lemma last_tx_max:
  assumes "coin_txs xs" "x \<in> set xs"
  shows "tx_id x \<le> last_tx xs"
proof -
  obtain ys y where ys: "xs = ys @ [y]" using assms(2) by (cases xs rule: rev_cases) auto
  have "sorted_wrt (<) (map tx_id (ys @ [y]))" using assms(1) ys by (simp add: coin_txs_def)
  then have "\<forall>z \<in> set ys. tx_id z < tx_id y" by (simp add: sorted_wrt_append)
  then show ?thesis using assms(2) ys by (auto simp: last_tx_def)
qed

lemma coin_txs_snoc: "coin_txs xs \<Longrightarrow> good_tx x \<Longrightarrow> tx_id x = last_tx xs + 1 \<Longrightarrow> coin_txs (xs @ [x])"
  using last_tx_max [of xs] by (auto simp: coin_txs_def sorted_wrt_append le_imp_less_Suc)

definition coin_txs_of :: "(string \<Rightarrow> transaction list option) \<Rightarrow> string \<Rightarrow> transaction list" where
  "coin_txs_of m t = (case m t of None \<Rightarrow> [] | Some xs \<Rightarrow> xs)"

lemma portfolio_file:
  assumes at: "portfolio_at fs p m" and t: "ticker_ok t"
  shows "\<exists>h. coin_on_disk (fs_files fs (entry_path p (csv_name t))) h (coin_txs_of m t)"
proof (cases "m t")
  case None
  have "plain_name (csv_name t)" using t by (simp add: ticker_ok_def)
  with at have "is_reg fs (entry_path p (csv_name t)) \<longleftrightarrow> csv_name t \<in> csv_name ` dom m"
    by (simp add: portfolio_at_def)
  then have "fs_files fs (entry_path p (csv_name t)) = None" using None unfolding is_reg_def csv_name_image by blast
  then have "coin_on_disk (fs_files fs (entry_path p (csv_name t))) ''Id;Date;Type;Coin;Amount;Usd'' []"
    by (simp add: coin_on_disk_def coin_txs_def csv_header_def)
  then show ?thesis using None by (auto simp: coin_txs_of_def)
next
  case (Some xs)
  then have "holds_coin (fs_files fs (entry_path p (csv_name t))) xs" using at by (simp add: portfolio_at_def)
  then show ?thesis using Some by (auto simp: holds_coin_def coin_on_disk_def coin_txs_of_def)
qed

lemma portfolio_open:
  assumes at: "portfolio_at fs p m" and t: "ticker_ok t"
  shows "csv_path p t = Inr (entry_path p (csv_name t))" "can_open fs (entry_path p (csv_name t))"
proof -
  have tp: "plain_name (csv_name t)" using t by (simp add: ticker_ok_def)
  have "length p < 200" using at by (simp add: portfolio_at_def)
  then show "csv_path p t = Inr (entry_path p (csv_name t))"
    using t by (simp add: csv_path_def entry_path_def csv_name_def ticker_ok_def)
  have "fs_dirs fs (entry_path p (csv_name t)) = None"
  proof (rule ccontr)
    assume "fs_dirs fs (entry_path p (csv_name t)) \<noteq> None"
    then have "csv_name t \<in> dot_entries" by (rule portfolio_subdirs [OF at tp])
    then show False by simp
  qed
  moreover have "fs_dirs fs p \<noteq> None" using portfolio_entries [OF at] by (metis option.distinct(1))
  ultimately show "can_open fs (entry_path p (csv_name t))" by (simp add: can_open_def entry_dir_base [OF tp])
qed

lemma json_coin:
  "skip_key (tx_json coin amount kind v date) ''coin'' (length (''coin'' @ [CHR 0x22, CHR '':'', CHR 0x22])) =
   Inr (coin @ CHR 0x22 # '','' @ quoted ''amount'' @ '':'' @ amount @ '','' @ quoted ''type'' @ '':'' @ quoted kind @ '','' @
     quoted ''value'' @ '':'' @ v @ '','' @ quoted ''date'' @ '':'' @ quoted date @ ''}'')" (is "_ = Inr ?r")
proof -
  have "skip_key (tx_json coin amount kind v date) ''coin'' n =
      skip_key (''coin'' @ [CHR 0x22, CHR '':'', CHR 0x22] @ ?r) ''coin'' n" for n
    by (simp add: tx_json_def quoted_def skip_key_1)
  then show ?thesis using skip_key_here [of "''coin''"] by (simp only: not_Cons_self2 list.simps simp_thms)
qed

lemma post_portfolio:
  assumes at: "portfolio_at fs p m" and os: "places_entries os"
    and t: "t = map lower_char coin" "ticker_ok t" and xs: "xs = coin_txs_of m t" "last_tx xs + 1 < 10 ^ 9"
    and nums: "reads_number fl amount a" "reads_number fl v b"
    and json: "CHR 0x22 \<notin> set coin" "\<not> sublist ''amount'' coin" "CHR 0x22 \<notin> set kind" "CHR 0x22 \<notin> set date"
    and new: "x = new_tx fl t xs a kind b date" "good_tx x" "length kind < 8"
  shows "\<exists>c. PortfolioAddCoinTransactions fl os fs p (tx_json coin amount kind v date) =
      Inr (write_file os fs (entry_path p (csv_name t)) c, tx_json coin amount kind v date) \<and>
    portfolio_at (write_file os fs (entry_path p (csv_name t)) c) p (m(t := Some (xs @ [x])))"
proof -
  let ?p = "entry_path p (csv_name t)"
  from portfolio_file [OF at t(2)] obtain h where disk: "coin_on_disk (fs_files fs ?p) h xs" unfolding xs(1) by blast
  have len: "length t < 32" "length coin < 32" using t by (simp_all add: ticker_ok_def)
  have add: "Coin_addTransacation fl t (fs_files fs ?p) (tx_json coin amount kind v date) = Inr (coin_file h (xs @ [x]), int (last_tx xs))"
    unfolding new(1) using disk xs(2) nums len(1) json new(2,3) unfolding new(1) by (rule transaction_added)
  have tick: "map lower_char (map lower_char coin) = t" unfolding lower_lower t(1) ..
  have run: "PortfolioAddCoinTransactions fl os fs p (tx_json coin amount kind v date) =
      Inr (write_file os fs ?p (coin_file h (xs @ [x])), tx_json coin amount kind v date)"
    unfolding PortfolioAddCoinTransactions_def json_coin bind_res_simps until_quote_text [OF json(1) len(2)] prod.case Let_def
      tick portfolio_open(1) [OF at t(2)] using portfolio_open(2) [OF at t(2)] add by simp
  have "coin_txs xs" "CHR 0x0A \<notin> set h" using disk by (simp_all add: coin_on_disk_def)
  then have "holds_coin (Some (coin_file h (xs @ [x]))) (xs @ [x])"
    using coin_txs_snoc [of xs x] new(1,2) by (auto simp: holds_coin_def new_tx_def)
  from write_here [OF at os t(2) this] run show ?thesis by blast
qed

subsection \<open>Listing the coins\<close>

definition coin_summary :: "('f, 'd) flops \<Rightarrow> string \<Rightarrow> transaction list \<Rightarrow> string" where
  "coin_summary fl t xs = (let f = figures fl xs in
     info_text (map upper_char t) (f_text fl (amount_coin f)) (f_text fl (f_div fl (totalBuy_usd f) (totalBuy_coin f)))
       (f_text fl (totalBuy_usd f)) (f_text fl (totalSell_usd f)))"

text \<open>The summary of a coin that fits its block has at most 120 characters.\<close>

lemma info_text_length: "length (info_text t a v b s) = 60 + length t + length a + length v + length b + length s"
  by (simp add: info_text_def quoted_def)

lemma coin_summary_get:
  assumes xs: "holds_coin f xs" and t: "length t < 32" "nul \<notin> set t" and texts: "\<And>v. nul \<notin> set (f_text fl v)"
    and fits: "length (coin_summary fl t xs) \<le> 120"
  shows "Coin_getInfo fl t f = Inr (coin_summary fl t xs)"
proof -
  obtain h where h: "coin_txs xs" "CHR 0x0A \<notin> set h" "f = Some (coin_file h xs)" using xs by (auto simp: holds_coin_def)
  show ?thesis using coin_info_figures [where fl = fl, OF h(1,2) t texts] fits
    unfolding h(3) coin_summary_def Let_def info_text_length by simp
qed

lemma coin_summary_no_nul: "nul \<notin> set t \<Longrightarrow> (\<And>v. nul \<notin> set (f_text fl v)) \<Longrightarrow> nul \<notin> set (coin_summary fl t xs)"
  using upper_no_nul [of t] by (simp add: coin_summary_def Let_def info_text_def quoted_def) (simp add: nul_def)

definition ticker_of :: "string \<Rightarrow> string" where
  "ticker_of e = takeWhile (\<lambda>c. c \<noteq> CHR ''.'') e"

lemma ticker_of_csv [simp]: "CHR ''.'' \<notin> set t \<Longrightarrow> ticker_of (csv_name t) = t"
proof -
  assume "CHR ''.'' \<notin> set t"
  then have "\<And>c. c \<in> set t \<Longrightarrow> c \<noteq> CHR ''.''" by auto
  then show ?thesis unfolding ticker_of_def csv_name_def by (subst takeWhile_append2) simp_all
qed

lemma coin_name_csv: "ticker_ok t \<Longrightarrow> coin_name (csv_name t) = Inr t"
  using ticker_of_csv [of t] by (simp add: coin_name_def ticker_ok_def ticker_of_def csv_name_def)

text \<open>The entries that are coins, in the order of the directory.\<close>

definition tickers :: "string list \<Rightarrow> string list" where
  "tickers es = map ticker_of (filter (\<lambda>e. e \<notin> dot_entries) es)"

lemma fold_res_filter:
  "(\<And>e s. e \<in> set es \<Longrightarrow> \<not> P e \<Longrightarrow> f e s = Inr s) \<Longrightarrow> fold_res f es s = fold_res f (filter P es) s"
proof (induction es arbitrary: s)
  case (Cons e es)
  show ?case
  proof (cases "P e")
    case True
    then show ?thesis using Cons.IH Cons.prems by (cases "f e s") simp_all
  next
    case False
    then show ?thesis using Cons.IH Cons.prems by simp
  qed
qed simp

lemma tickers_portfolio:
  assumes at: "portfolio_at fs p m" and es: "distinct es" "set es = dot_entries \<union> csv_name ` dom m"
  shows "filter (\<lambda>e. e \<notin> dot_entries) es = map csv_name (tickers es)" "set (tickers es) = dom m" "distinct (tickers es)"
proof -
  let ?fs = "filter (\<lambda>e. e \<notin> dot_entries) es"
  have ok: "ticker_ok t" if "t \<in> dom m" for t using portfolio_ticker [OF at that] .
  have s: "set ?fs = csv_name ` dom m" unfolding set_filter es(2) using csv_name_dots by auto
  have inv: "csv_name (ticker_of e) = e" if "e \<in> set ?fs" for e
  proof -
    have "e \<in> csv_name ` dom m" using that unfolding s .
    then obtain t where t: "t \<in> dom m" "e = csv_name t" by auto
    then show ?thesis using ok [OF t(1)] by (simp add: ticker_ok_def)
  qed
  then show f: "?fs = map csv_name (tickers es)" unfolding tickers_def map_map
    by (subst map_idI) (simp_all add: inv)
  have "csv_name ` set (tickers es) = csv_name ` dom m" using s f by (metis set_map)
  moreover have "inj csv_name" by (simp add: inj_def)
  ultimately show "set (tickers es) = dom m" by (simp add: inj_image_eq_iff)
  have "distinct (map csv_name (tickers es))" using es(1) f by (metis distinct_filter)
  then show "distinct (tickers es)" by (simp add: distinct_map)
qed

lemma list_entry_coin:
  assumes at: "portfolio_at fs p m" and t: "m t = Some xs" and texts: "\<And>v. nul \<notin> set (f_text fl v)"
    and fits: "length (coin_summary fl t xs) \<le> 120"
  shows "list_entry fl fs p (csv_name t) (b, n) =
    bind_res (sprintf_at b n (coin_summary fl t xs @ '','')) (\<lambda>b'. Inr (b', n + length (coin_summary fl t xs @ '','')))"
proof -
  have ok: "ticker_ok t" "holds_coin (fs_files fs (entry_path p (csv_name t))) xs" using portfolio_coin [OF at t] by simp_all
  have "is_reg fs (entry_path p (csv_name t))" using ok(2) by (auto simp: holds_coin_def is_reg_def)
  moreover have "length (entry_path p (csv_name t)) < 256"
    using at ok(1) by (simp add: portfolio_at_def entry_path_def csv_name_def ticker_ok_def)
  moreover have "Coin_getInfo fl t (fs_files fs (entry_path p (csv_name t))) = Inr (coin_summary fl t xs)"
    using ok texts fits by (intro coin_summary_get) (simp_all add: ticker_ok_def)
  ultimately show ?thesis by (simp add: list_entry_def coin_name_csv [OF ok(1)])
qed

lemma list_entry_dots:
  assumes at: "portfolio_at fs p m" and e: "e \<in> dot_entries"
  shows "list_entry fl fs p e st = Inr st"
proof -
  have "e \<notin> csv_name ` dom m" using e csv_name_dots by (metis imageE)
  moreover have pe: "plain_name e" "length e \<le> 2" using e by (auto simp: plain_name_def dot_entries_def)
  ultimately have "\<not> is_reg fs (entry_path p e)" using at by (simp add: portfolio_at_def)
  moreover have "length (entry_path p e) < 256" using at pe(2) by (simp add: portfolio_at_def entry_path_def)
  ultimately show ?thesis by (simp add: list_entry_def)
qed

lemma length_concat_le: "(\<And>x. x \<in> set xs \<Longrightarrow> length (f x) \<le> k) \<Longrightarrow> length (concat (map f xs)) \<le> k * length xs"
  by (induction xs) (force simp: add_mono)+

lemma portfolio_list:
  assumes at: "portfolio_at fs p m" and texts: "\<And>v. nul \<notin> set (f_text fl v)"
    and fits: "\<And>t xs. m t = Some xs \<Longrightarrow> length (coin_summary fl t xs) \<le> 120" "card (dom m) \<le> 67"
  shows "\<exists>b ts. PortfolioGetCoinsList fl os fs p = Inr (fs, Some b) \<and> distinct ts \<and> set ts = dom m \<and>
    read_str b = (if ts = [] then Inl UninitRead else Inr (json_list (map (\<lambda>t. coin_summary fl t (the (m t))) ts)))"
proof -
  from portfolio_entries [OF at] obtain es where es: "fs_dirs fs p = Some es" "distinct es" "set es = dot_entries \<union> csv_name ` dom m" .
  note ts = tickers_portfolio [OF at es(2,3)]
  let ?ts = "tickers es" and ?b = "Some CHR ''['' # replicate 8191 (None :: char option)"
  let ?g = "\<lambda>t. coin_summary fl t (the (m t))"
  have loop: "fold_res (list_entry fl fs p) es st = fold_res (\<lambda>t. list_entry fl fs p (csv_name t)) ?ts st" for st
  proof -
    have "fold_res (list_entry fl fs p) es st = fold_res (list_entry fl fs p) (map csv_name ?ts) st"
      unfolding ts(1) [symmetric] using list_entry_dots [OF at] by (intro fold_res_filter) auto
    then show ?thesis by (simp only: fold_res_map)
  qed
  have p: "length p < 256" using at by (simp add: portfolio_at_def)
  have init: "put_at (replicate (4096 * 2) None) 0 [Some CHR ''[''] = Inr ?b" by (simp add: put_at_def)
  have run: "PortfolioGetCoinsList fl os fs p = bind_res (fold_res (\<lambda>t. list_entry fl fs p (csv_name t)) ?ts (?b, 1))
      (\<lambda>(b, size). bind_res (put_at b (size - 1) [Some CHR '']'']) (\<lambda>b. Inr (fs, Some b)))"
    unfolding PortfolioGetCoinsList_def OpenDirectory_def es(1) option.case prod.case init loop using p by simp
  show ?thesis
  proof (cases "?ts = []")
    case True
    have r: "replicate 8191 x = x # replicate 8190 x" for x :: "char option" by (simp flip: replicate_Suc)
    have "PortfolioGetCoinsList fl os fs p = Inr (fs, Some (Some CHR '']'' # replicate 8191 None))"
      unfolding run True by (simp add: put_at_def)
    moreover have "read_str (Some CHR '']'' # replicate 8191 None) = Inl UninitRead" unfolding r by (simp add: nul_def)
    ultimately show ?thesis using ts(2) True by (intro exI [of _ "Some CHR '']'' # replicate 8191 None"] exI [of _ "[]"]) simp
  next
    case False
    have app: "appends (\<lambda>t. list_entry fl fs p (csv_name t)) (\<lambda>t. ?g t @ '','') t" if "t \<in> set ?ts" for t
    proof -
      from that have "t \<in> dom m" unfolding ts(2) .
      then obtain xs where xs: "m t = Some xs" by auto
      show ?thesis unfolding appends_def xs option.sel by (intro allI list_entry_coin [OF at xs texts fits(1) [OF xs]])
    qed
    have "length (concat (map (\<lambda>t. ?g t @ '','') ?ts)) \<le> 121 * length ?ts"
    proof -
      have "length (?g t @ '','') \<le> 121" if "t \<in> set ?ts" for t using that ts(2) fits(1) by fastforce
      then show ?thesis by (rule length_concat_le)
    qed
    moreover have "length ?ts \<le> 67" using fits(2) ts(2,3) distinct_card [of ?ts] by simp
    ultimately have room: "1 + length (concat (map (\<lambda>t. ?g t @ '','') ?ts)) < length ?b" by simp
    from json_closed [where f = "\<lambda>t. list_entry fl fs p (csv_name t)" and g = ?g, OF app False _ _ room] obtain b' n r where
      r: "fold_res (\<lambda>t. list_entry fl fs p (csv_name t)) ?ts (?b, 1) = Inr (b', n)"
        "put_at b' (n - 1) [Some CHR '']''] = Inr (map Some (json_list (map ?g ?ts) @ [nul]) @ r)" by auto
    have "nul \<notin> set (json_list (map ?g ?ts))"
    proof (rule json_list_no_nul)
      fix y assume "y \<in> set (map ?g ?ts)"
      then obtain t where t: "t \<in> dom m" "y = ?g t" using ts(2) by auto
      then have "nul \<notin> set t" using portfolio_ticker [OF at] by (simp add: ticker_ok_def)
      from coin_summary_no_nul [OF this texts] show "nul \<notin> set y" unfolding t(2) .
    qed
    note s = read_str_text [OF this, of r]
    show ?thesis unfolding run r(1) bind_res_simps prod.case r(2) using s ts(2,3) False by auto
  qed
qed

subsection \<open>Creating a portfolio\<close>

lemma new_portfolio:
  assumes p: "p = path @ underscores name" "length p < 200"
    and none: "fs_dirs fs p = None" "fs_files fs p = None" "os_mkdir os p"
    and under: "\<And>e. plain_name e \<Longrightarrow> fs_files fs (entry_path p e) = None \<and> fs_dirs fs (entry_path p e) = None"
  shows "\<exists>fs'. PortfolioCreate os fs path name = (fs', 0) \<and> portfolio_at fs' p Map.empty \<and> fs_files fs' = fs_files fs"
proof -
  let ?fs = "fs\<lparr>fs_dirs := (fs_dirs fs)(p := Some [''.'', ''..''])\<rparr>"
  have "PortfolioCreate os fs path name = (?fs, 0)"
    unfolding PortfolioCreate_def p(1) [symmetric] OpenDirectory_def using none by simp
  moreover have "portfolio_at ?fs p Map.empty"
    using p(2) under by (simp add: portfolio_at_def is_reg_def longer_path dot_entries_def)
  ultimately show ?thesis by simp
qed

subsection \<open>Properties\<close>

text \<open>Property C26. A portfolio is a map from tickers to transactions, and posting a transaction updates it at the coin's
  ticker, in small letters, with one transaction more; every other portfolio stays what it was.\<close>

theorem portfolio_refines_map:
  assumes "portfolio_at fs p m" "places_entries os"
    and "t = map lower_char coin" "ticker_ok t" "xs = coin_txs_of m t" "last_tx xs + 1 < 10 ^ 9"
    and "reads_number fl amount a" "reads_number fl v b"
    and "CHR 0x22 \<notin> set coin" "\<not> sublist ''amount'' coin" "CHR 0x22 \<notin> set kind" "CHR 0x22 \<notin> set date"
    and "x = new_tx fl t xs a kind b date" "good_tx x" "length kind < 8"
  shows "\<exists>fs'. PortfolioAddCoinTransactions fl os fs p (tx_json coin amount kind v date) =
      Inr (fs', tx_json coin amount kind v date) \<and> portfolio_at fs' p (m(t := Some (xs @ [x]))) \<and>
    (\<forall>q m'. q \<noteq> p \<and> (\<forall>e. plain_name e \<longrightarrow> entry_path q e \<noteq> p) \<and> portfolio_at fs q m' \<longrightarrow> portfolio_at fs' q m')"
proof -
  from post_portfolio [OF assms] obtain c where c: "PortfolioAddCoinTransactions fl os fs p (tx_json coin amount kind v date) =
      Inr (write_file os fs (entry_path p (csv_name t)) c, tx_json coin amount kind v date)"
    "portfolio_at (write_file os fs (entry_path p (csv_name t)) c) p (m(t := Some (xs @ [x])))" by blast
  have "plain_name (csv_name t)" using assms(4) by (simp add: ticker_ok_def)
  then have "portfolio_at (write_file os fs (entry_path p (csv_name t)) c) q m'"
    if "q \<noteq> p" "\<forall>e. plain_name e \<longrightarrow> entry_path q e \<noteq> p" "portfolio_at fs q m'" for q m'
    using that by (intro write_elsewhere) simp_all
  with c show ?thesis by blast
qed

text \<open>For the witnesses: a system that puts new entries in front, and the portfolio of a new user.\<close>

definition demo_os :: os where
  "demo_os = \<lparr>os_mkdir = (\<lambda>_. True), os_place = (\<lambda>e es. if e \<in> set es then es else e # es)\<rparr>"

definition demo_fs :: fs where
  "demo_fs = fst (PortfolioCreate demo_os \<lparr>fs_files = Map.empty, fs_dirs = Map.empty\<rparr> ''data/'' ''al ice'')"

lemma demo_places: "places_entries demo_os"
  by (auto simp: places_entries_def demo_os_def)

lemma demo_portfolio: "portfolio_at demo_fs ''data/al_ice'' Map.empty"
proof -
  have "\<exists>fs'. PortfolioCreate demo_os \<lparr>fs_files = Map.empty, fs_dirs = Map.empty\<rparr> ''data/'' ''al ice'' = (fs', 0) \<and>
    portfolio_at fs' ''data/al_ice'' Map.empty \<and> fs_files fs' = fs_files \<lparr>fs_files = Map.empty, fs_dirs = Map.empty\<rparr>"
    by (rule new_portfolio) (simp_all add: underscores_def demo_os_def)
  then show ?thesis by (auto simp: demo_fs_def)
qed

lemma lower_btc: "map lower_char ''BTC'' = ''btc''"
  by code_simp

lemma btc_ok: "ticker_ok ''btc''"
  by (simp add: ticker_ok_def plain_name_def nul_def)

theorem portfolio_refines_map_witness:
  "\<exists>fs'. PortfolioAddCoinTransactions whole_ops demo_os demo_fs ''data/al_ice'' (tx_json ''BTC'' ''5'' ''Buy'' ''9'' ''31/01/2024'') =
      Inr (fs', tx_json ''BTC'' ''5'' ''Buy'' ''9'' ''31/01/2024'') \<and>
    portfolio_at fs' ''data/al_ice'' (Map.empty(''btc'' := Some ([] @ [first_tx])))"
proof -
  have "first_tx = new_tx whole_ops ''btc'' [] 5 ''Buy'' 9 ''31/01/2024''" by (rule first_new [symmetric])
  from portfolio_refines_map [OF demo_portfolio demo_places lower_btc [symmetric] btc_ok _ _ first_nums _ _ _ _ this first_good]
  show ?thesis by (simp add: coin_txs_of_def last_tx_def sublist_Cons_right) blast
qed

lemma single_list: "distinct ts \<Longrightarrow> set ts = {a} \<Longrightarrow> ts = [a]"
proof -
  assume ts: "distinct ts" "set ts = {a}"
  then have "length ts = 1" using distinct_card [of ts] by simp
  then obtain b where "ts = [b]" by (auto simp: length_Suc_conv)
  with ts(2) show "ts = [a]" by simp
qed

text \<open>The coins of a portfolio come back as a json list with one summary for each ticker of the map, in the
  order of the directory, for up to 67 coins whose summaries fit. The list of a portfolio without coins ends
  without a NUL, in memory that was never written.\<close>

theorem portfolio_listed:
  assumes "portfolio_at fs p m" "\<And>v. nul \<notin> set (f_text fl v)"
    and "\<And>t xs. m t = Some xs \<Longrightarrow> length (coin_summary fl t xs) \<le> 120" "card (dom m) \<le> 67"
  shows "\<exists>b ts. PortfolioGetCoinsList fl os fs p = Inr (fs, Some b) \<and> distinct ts \<and> set ts = dom m \<and>
    read_str b = (if ts = [] then Inl UninitRead else Inr (json_list (map (\<lambda>t. coin_summary fl t (the (m t))) ts)))"
  using assms by (rule portfolio_list)

theorem portfolio_listed_witness:
  "(\<exists>b. PortfolioGetCoinsList whole_ops demo_os demo_fs ''data/al_ice'' = Inr (demo_fs, Some b) \<and> read_str b = Inl UninitRead) \<and>
   (\<exists>fs b. PortfolioGetCoinsList whole_ops demo_os fs ''data/al_ice'' = Inr (fs, Some b) \<and>
      read_str b = Inr (json_list [info_text ''BTC'' ''2'' ''30'' ''90'' ''50'']))"
proof -
  have n: "nul \<notin> set (f_text whole_ops v)" for v by (simp add: whole_texts dec_int_no_nul)
  have s: "coin_summary whole_ops ''btc'' sample_txs = info_text ''BTC'' ''2'' ''30'' ''90'' ''50''"
    by (simp add: coin_summary_def sample_figures whole_texts small_decs upper_btc [simplified])
  let ?m = "Map.empty(''btc'' := Some sample_txs)"
  have "holds_coin (Some (coin_file ''h'' sample_txs)) sample_txs" using sample_good unfolding holds_coin_def by (intro conjI exI [of _ "''h''"]) simp_all
  from write_here [OF demo_portfolio demo_places btc_ok this] obtain fs where fs: "portfolio_at fs ''data/al_ice'' ?m" by blast
  have fits: "length (coin_summary whole_ops t xs) \<le> 120" if "?m t = Some xs" for t xs
    using that by (auto simp: s info_text_length split: if_splits)
  have dm: "dom ?m = {''btc''}" by simp
  have "card (dom ?m) \<le> 67" unfolding dm by simp
  from portfolio_listed [of fs _ ?m whole_ops demo_os, OF fs n fits this] obtain b ts where b:
    "PortfolioGetCoinsList whole_ops demo_os fs ''data/al_ice'' = Inr (fs, Some b)" "distinct ts" "set ts = dom ?m"
    "read_str b = (if ts = [] then Inl UninitRead else Inr (json_list (map (\<lambda>t. coin_summary whole_ops t (the (?m t))) ts)))"
    by blast
  have "read_str b = Inr (json_list [info_text ''BTC'' ''2'' ''30'' ''90'' ''50''])"
    using b(4) unfolding single_list [OF b(2) b(3) [unfolded dm]] by (simp add: s)
  moreover have "\<exists>b. PortfolioGetCoinsList whole_ops demo_os demo_fs ''data/al_ice'' = Inr (demo_fs, Some b) \<and>
      read_str b = Inl UninitRead"
    using portfolio_listed [OF demo_portfolio n, of demo_os] by auto
  ultimately show ?thesis using b(1) by blast
qed

text \<open>The transactions of a coin of the portfolio, whatever the case of the letters in the request, are
  the json list of what the map holds. A coin the portfolio does not have is read from a file that was
  never opened.\<close>

theorem portfolio_transactions:
  assumes "portfolio_at fs p m" "t = map lower_char coin" "ticker_ok t" "nul \<notin> set coin" "\<And>v. nul \<notin> set (d_text fl v)"
    and "\<forall>x \<in> set (coin_txs_of m t). length (tx_object fl (map upper_char coin) x) + 1 \<le> length transaction_format + 127"
    and "m t \<noteq> Some []"
  shows "PortfolioGetCoinTransactions fl fs p coin =
    (case m t of None \<Rightarrow> Inl UninitRead | Some xs \<Rightarrow> Inr (json_list (map (tx_object fl (map upper_char coin)) xs)))"
proof -
  have len: "length coin < 32" "strlower 32 coin = Inr t" using assms(2,3) by (simp_all add: ticker_ok_def strlower_def)
  have run: "PortfolioGetCoinTransactions fl fs p coin = Coin_getTransactions fl coin (fs_files fs (entry_path p (csv_name t)))"
    using len(2) portfolio_open(1) [OF assms(1,3)] by (simp add: PortfolioGetCoinTransactions_def)
  show ?thesis
  proof (cases "m t")
    case None
    with portfolio_file [OF assms(1,3)] obtain h where "coin_on_disk (fs_files fs (entry_path p (csv_name t))) h []"
      by (auto simp: coin_txs_of_def)
    have "csv_name t \<notin> csv_name ` dom m" using None by (simp add: domIff)
    moreover have "plain_name (csv_name t)" using assms(3) by (simp add: ticker_ok_def)
    ultimately have "fs_files fs (entry_path p (csv_name t)) = None"
      using assms(1) unfolding portfolio_at_def is_reg_def by (elim conjE) blast
    then show ?thesis unfolding run None by (simp add: Coin_getTransactions_def CSV_load_def)
  next
    case (Some xs)
    then have "holds_coin (fs_files fs (entry_path p (csv_name t))) xs" using portfolio_coin [OF assms(1)] by blast
    then obtain h where h: "coin_txs xs" "CHR 0x0A \<notin> set h" "fs_files fs (entry_path p (csv_name t)) = Some (coin_file h xs)"
      by (auto simp: holds_coin_def)
    have "xs \<noteq> []" "coin_txs_of m t = xs" using Some assms(7) by (auto simp: coin_txs_of_def)
    then show ?thesis unfolding run h(3) Some using coin_transactions [where fl = fl, OF h(1,2) len(1) assms(4,5)] assms(6) by simp
  qed
qed

theorem portfolio_transactions_witness:
  "\<exists>fs. PortfolioGetCoinTransactions whole_ops fs ''data/al_ice'' ''BTC'' =
      Inr (json_list [butlast (transaction_text ''BTC'' ''2'' ''90'' ''31/01/2024''), butlast (transaction_text ''BTC'' ''1'' ''7'' ''01/02/2024'')]) \<and>
    PortfolioGetCoinTransactions whole_ops demo_fs ''data/al_ice'' ''BTC'' = Inl UninitRead"
proof -
  have n: "nul \<notin> set (d_text whole_ops v)" for v by (simp add: whole_texts dec_int_no_nul)
  have u: "map upper_char ''BTC'' = ''BTC''" by code_simp
  have c: "nul \<notin> set ''BTC''" by (simp add: nul_def)
  let ?m = "Map.empty(''btc'' := Some (take 2 sample_txs))"
  have "holds_coin (Some (coin_file ''h'' (take 2 sample_txs))) (take 2 sample_txs)" using two_good unfolding holds_coin_def by (intro conjI exI [of _ "''h''"]) simp_all
  from write_here [OF demo_portfolio demo_places btc_ok this] obtain fs where fs: "portfolio_at fs ''data/al_ice'' ?m" by blast
  have m: "?m ''btc'' = Some (take 2 sample_txs)" "coin_txs_of ?m ''btc'' = take 2 sample_txs" by (simp_all add: coin_txs_of_def)
  have ne: "?m ''btc'' \<noteq> Some []" by (simp add: sample_txs_def)
  have fit: "\<forall>x \<in> set (coin_txs_of ?m ''btc''). length (tx_object whole_ops (map upper_char ''BTC'') x) + 1 \<le> length transaction_format + 127"
    unfolding m(2) u by (rule two_fit)
  have "PortfolioGetCoinTransactions whole_ops fs ''data/al_ice'' ''BTC'' = Inr (json_list (map (tx_object whole_ops ''BTC'') (take 2 sample_txs)))"
    using portfolio_transactions [OF fs lower_btc [symmetric] btc_ok c n fit ne] unfolding m(1) u by simp
  moreover have "PortfolioGetCoinTransactions whole_ops demo_fs ''data/al_ice'' ''BTC'' = Inl UninitRead"
    using portfolio_transactions [OF demo_portfolio lower_btc [symmetric] btc_ok c n] by (simp add: coin_txs_of_def)
  ultimately show ?thesis unfolding two_objects by blast
qed

end
