(* ===== verification/App.thy ===== *)
theory App
  imports Portfolio Session Request
begin

section \<open>The portfolio application (app/app.c)\<close>

text \<open>
  The handlers of the ten routes. Each takes the state (the session engine and the file system), the strings the
  request points to and the response, and gives both back; \<open>None\<close> is a call that waits and does not return.
  What the handlers get from outside is the record \<open>env\<close>: floating point, the system, the fresh uuid, what
  \<open>realloc\<close> leaves in a new user, and the three paths that \<open>app_start\<close> sets. Printing is left out.
\<close>

record app_state =
  ses :: engine
  disk :: fs

record areq =
  a_args :: "string option"
  a_suffix :: "string option"
  a_body :: "string option"
  a_raw :: string

record ('f, 'd) env =
  env_fl :: "('f, 'd) flops"
  env_os :: os
  env_uuid :: string
  env_junk :: user_t
  portfolios_path :: string
  view_path :: string
  resources_path :: string

type_synonym result = "(app_state \<times> http_response_t) option res"

definition HTTP_302_FOUND :: int where "HTTP_302_FOUND = 5"
definition HTTP_303_SEE_OTHER :: int where "HTTP_303_SEE_OTHER = 6"
definition HTTP_401_UNAUTHORIZED :: int where "HTTP_401_UNAUTHORIZED = 11"

subsection \<open>Replies and files\<close>

definition set_head :: "http_response_t \<Rightarrow> int \<Rightarrow> string \<Rightarrow> http_response_t res" where
  "set_head r c type = bind_res (http_set_response_code r c) (\<lambda>r. http_set_content_type r type True)"

definition literal_reply :: "http_response_t \<Rightarrow> int \<Rightarrow> nat \<Rightarrow> string \<Rightarrow> http_response_t res" where
  "literal_reply r c len text =
     bind_res (set_head r c ''text/html'') (\<lambda>r. Inr (http_set_body r len (text @ [nul]) False))"

definition not_found_reply :: "http_response_t \<Rightarrow> http_response_t res" where
  "not_found_reply r = literal_reply r HTTP_400_BAD_REQUEST 22 ''<h1>404 Not Found</h1>''"

definition bad_request_reply :: "http_response_t \<Rightarrow> http_response_t res" where
  "bad_request_reply r = literal_reply r HTTP_400_BAD_REQUEST 24 ''<h1>400 Bad Request</h1>''"

definition unauthorized_reply :: "http_response_t \<Rightarrow> http_response_t res" where
  "unauthorized_reply r = literal_reply r HTTP_401_UNAUTHORIZED 24 ''<h1>401 UNAUTHORIZED</h1>''"

definition redirect_reply :: "http_response_t \<Rightarrow> int \<Rightarrow> string \<Rightarrow> http_response_t res" where
  "redirect_reply r c loc = bind_res (set_head r c ''text/html'') (\<lambda>r. http_set_redirect r loc)"

definition gen_path :: "nat \<Rightarrow> string \<Rightarrow> string \<Rightarrow> string res" where
  "gen_path cap base name = (if length (base @ name) < cap then Inr (base @ name) else Inl OutOfBounds)"

text \<open>A missing file and an empty one have size 0.\<close>

definition get_file :: "fs \<Rightarrow> string \<Rightarrow> nat \<times> string" where
  "get_file fs p = (case fs_files fs p of None \<Rightarrow> (0, []) | Some c \<Rightarrow> (length c, c))"

text \<open>The type is what follows the first dot of the whole path, in an array of 64 characters.\<close>

definition set_content_type :: "string \<Rightarrow> http_response_t \<Rightarrow> http_response_t res" where
  "set_content_type file r =
     (case strchr file CHR ''.'' of
        None \<Rightarrow> Inl NullDeref
      | Some s \<Rightarrow>
          let type = drop 1 s;
              text = (if prefix ''js'' type \<or> prefix ''json'' type then ''application/'' else ''text/'') @ type
          in bind_res (require OutOfBounds (length text < 64)) (\<lambda>_. http_set_content_type r text True))"

definition file_reply :: "fs \<Rightarrow> string \<Rightarrow> string \<Rightarrow> (string \<Rightarrow> http_response_t \<Rightarrow> http_response_t res) \<Rightarrow>
    http_response_t \<Rightarrow> http_response_t res" where
  "file_reply fs base name set_type r =
     bind_res (gen_path 256 base name) (\<lambda>p.
     case get_file fs p of (len, text) \<Rightarrow>
       if len = 0 then not_found_reply r
       else bind_res (http_set_response_code r HTTP_200_OK) (\<lambda>r.
            bind_res (set_type p r) (\<lambda>r. Inr (http_set_body r len text True))))"

definition get_user_portfolio_path :: "string \<Rightarrow> engine \<Rightarrow> nat \<Rightarrow> string res" where
  "get_user_portfolio_path dir e session =
     bind_res (http_session_get_username e session) (\<lambda>name.
       if length dir + length name < 256 then Inr (dir @ underscores name) else Inl OutOfBounds)"

text \<open>The state stays, only the response is new.\<close>

definition answer :: "app_state \<Rightarrow> http_response_t res \<Rightarrow> result" where
  "answer s r = bind_res r (\<lambda>r. Inr (Some (s, r)))"

subsection \<open>Pages\<close>

definition crypto_get_resource :: "('f, 'd) env \<Rightarrow> app_state \<Rightarrow> areq \<Rightarrow> http_response_t \<Rightarrow> result" where
  "crypto_get_resource env s q r =
     (if a_args q \<noteq> None then answer s (bad_request_reply r)
      else case a_suffix q of
        None \<Rightarrow> answer s (redirect_reply r HTTP_303_SEE_OTHER ''/login'')
      | Some sx \<Rightarrow> answer s (file_reply (disk s) (resources_path env) sx set_content_type r))"

text \<open>A page that is shown without a session and leads home with one.\<close>

definition guest_page :: "string \<Rightarrow> ('f, 'd) env \<Rightarrow> app_state \<Rightarrow> areq \<Rightarrow> http_response_t \<Rightarrow> result" where
  "guest_page page env s q r =
     (if a_args q \<noteq> None \<or> a_suffix q \<noteq> None then answer s (bad_request_reply r)
      else bind_res (http_session_get (ses s) (a_raw q)) (\<lambda>session.
        if session \<noteq> None then answer s (redirect_reply r HTTP_303_SEE_OTHER ''/home'')
        else answer s (file_reply (disk s) (view_path env) page set_content_type r)))"

definition crypto_get_register :: "('f, 'd) env \<Rightarrow> app_state \<Rightarrow> areq \<Rightarrow> http_response_t \<Rightarrow> result" where
  "crypto_get_register = guest_page ''register.html''"

definition crypto_get_login :: "('f, 'd) env \<Rightarrow> app_state \<Rightarrow> areq \<Rightarrow> http_response_t \<Rightarrow> result" where
  "crypto_get_login = guest_page ''login.html''"

definition crypto_get_home :: "('f, 'd) env \<Rightarrow> app_state \<Rightarrow> areq \<Rightarrow> http_response_t \<Rightarrow> result" where
  "crypto_get_home env s q r =
     (if a_args q \<noteq> None \<or> a_suffix q \<noteq> None then answer s (bad_request_reply r)
      else bind_res (http_session_get (ses s) (a_raw q)) (\<lambda>session.
        if session = None then answer s (redirect_reply r HTTP_303_SEE_OTHER ''/login'')
        else answer s (file_reply (disk s) (view_path env) ''index.html''
               (\<lambda>_ r. http_set_content_type r ''text/html'' True) r)))"

subsection \<open>Users\<close>

text \<open>A copy up to the next quote into a zeroed array of \<open>cap\<close> characters: it may fill it, without a NUL.\<close>

definition copy_quoted :: "nat \<Rightarrow> string \<Rightarrow> (char list \<times> string) res" where
  "copy_quoted cap str =
     (let t = takeWhile (\<lambda>c. c \<noteq> CHR 0x22) str in
      if CHR 0x22 \<in> set str \<and> length t \<le> cap
      then Inr (t @ replicate (cap - length t) nul, drop (length t) str) else Inl OutOfBounds)"

text \<open>The value behind a key, if the key is there; the array stays zeroed if it is not.\<close>

definition json_field :: "nat \<Rightarrow> string \<Rightarrow> string \<Rightarrow> (char list \<times> string) option res" where
  "json_field cap str key =
     (case strstr str key of
        None \<Rightarrow> Inr None
      | Some s \<Rightarrow>
          let n = length (key @ [CHR 0x22, CHR '':'', CHR 0x22]) in
          if length s < n then Inl OutOfBounds
          else bind_res (copy_quoted cap (drop n s)) (\<lambda>x. Inr (Some x)))"

definition credentials :: "string \<Rightarrow> (char list \<times> char list) res" where
  "credentials body =
     bind_res (json_field 126 body ''username'') (\<lambda>u. case u of
       None \<Rightarrow> Inr (replicate 126 nul, replicate 126 nul)
     | Some (username, str) \<Rightarrow>
         bind_res (json_field 126 str ''password'') (\<lambda>p. case p of
           None \<Rightarrow> Inr (username, replicate 126 nul)
         | Some (password, _) \<Rightarrow> Inr (username, password)))"

text \<open>What both forms start with: the checks of the request and the fields.\<close>

definition with_credentials :: "app_state \<Rightarrow> areq \<Rightarrow> http_response_t \<Rightarrow> (string \<Rightarrow> string \<Rightarrow> result) \<Rightarrow> result" where
  "with_credentials s q r k =
     (case a_body q of
        None \<Rightarrow> answer s (bad_request_reply r)
      | Some body \<Rightarrow>
          if a_args q \<noteq> None \<or> a_suffix q \<noteq> None then answer s (bad_request_reply r)
          else bind_res (http_session_get (ses s) (a_raw q)) (\<lambda>session.
            if session \<noteq> None then answer s (set_head r HTTP_400_BAD_REQUEST ''text/plain'')
            else bind_res (credentials body) (\<lambda>(username, password).
              if hd username = nul \<or> hd password = nul then answer s (bad_request_reply r)
              else bind_res (c_str username) (\<lambda>username. bind_res (c_str password) (\<lambda>password. k username password)))))"

definition registered_text :: string where
  "registered_text = ''{'' @ quoted ''message'' @ '': '' @ quoted ''User registered successfully'' @ ''}''"

text \<open>The reply of a failed registration is overwritten.\<close>

definition crypto_post_register :: "('f, 'd) env \<Rightarrow> app_state \<Rightarrow> areq \<Rightarrow> http_response_t \<Rightarrow> result" where
  "crypto_post_register env s q r =
     with_credentials s q r (\<lambda>username password.
       bind_res (http_session_register_user (env_junk env) (ses s) username password) (\<lambda>reg. case reg of
         None \<Rightarrow> Inr None
       | Some (e, ok) \<Rightarrow>
           bind_res (if ok then Inr r else bad_request_reply r) (\<lambda>r.
           let (fs, _) = PortfolioCreate (env_os env) (disk s) (portfolios_path env) username in
           bind_res (set_head r HTTP_201_CREATED ''application/json'') (\<lambda>r.
           Inr (Some (\<lparr>ses = e, disk = fs\<rparr>, http_set_body r (length registered_text) (registered_text @ [nul]) False))))))"

definition crypto_post_login :: "('f, 'd) env \<Rightarrow> app_state \<Rightarrow> areq \<Rightarrow> http_response_t \<Rightarrow> result" where
  "crypto_post_login env s q r =
     with_credentials s q r (\<lambda>username password.
       bind_res (http_session_login_user (env_uuid env) (ses s) username password) (\<lambda>(e, session). case session of
         None \<Rightarrow> answer (s\<lparr>ses := e\<rparr>) (literal_reply r HTTP_401_UNAUTHORIZED 24 ''<h1>401 UNAUTHORIZED</h1>'')
       | Some i \<Rightarrow>
           answer (s\<lparr>ses := e\<rparr>)
             (bind_res (http_session_set_cookie e i r) (\<lambda>r. redirect_reply r HTTP_302_FOUND ''/home''))))"

definition crypto_post_logout :: "('f, 'd) env \<Rightarrow> app_state \<Rightarrow> areq \<Rightarrow> http_response_t \<Rightarrow> result" where
  "crypto_post_logout env s q r =
     bind_res (http_session_get (ses s) (a_raw q)) (\<lambda>session.
     bind_res (if session \<noteq> None then http_session_logout_user (ses s) (a_raw q) else Inr (ses s)) (\<lambda>e.
     answer (s\<lparr>ses := e\<rparr>) (redirect_reply r HTTP_303_SEE_OTHER ''/login'')))"

subsection \<open>Coins\<close>

definition crypto_get_coins :: "('f, 'd) env \<Rightarrow> app_state \<Rightarrow> areq \<Rightarrow> http_response_t \<Rightarrow> result" where
  "crypto_get_coins env s q r =
     bind_res (http_session_get (ses s) (a_raw q)) (\<lambda>session. case session of
       None \<Rightarrow> answer s (unauthorized_reply r)
     | Some i \<Rightarrow>
         if a_args q \<noteq> None then answer s (bad_request_reply r)
         else bind_res (set_head r HTTP_200_OK ''application/json'') (\<lambda>r.
              bind_res (get_user_portfolio_path (portfolios_path env) (ses s) i) (\<lambda>portfolio.
              bind_res (PortfolioGetCoinsList (env_fl env) (env_os env) (disk s) portfolio) (\<lambda>(fs, list). case list of
                None \<Rightarrow> Inl NullDeref
              | Some b \<Rightarrow> bind_res (read_str b) (\<lambda>json.
                  Inr (Some (s\<lparr>disk := fs\<rparr>, http_set_body r (length json) (json @ [nul]) True)))))))"

definition crypto_get_coin :: "('f, 'd) env \<Rightarrow> app_state \<Rightarrow> areq \<Rightarrow> http_response_t \<Rightarrow> result" where
  "crypto_get_coin env s q r =
     bind_res (http_session_get (ses s) (a_raw q)) (\<lambda>session. case session of
       None \<Rightarrow> answer s (unauthorized_reply r)
     | Some i \<Rightarrow>
         (case a_args q of
            None \<Rightarrow> answer s (bad_request_reply r)
          | Some coin \<Rightarrow>
              bind_res (set_head r HTTP_200_OK ''application/json'') (\<lambda>r.
              bind_res (get_user_portfolio_path (portfolios_path env) (ses s) i) (\<lambda>portfolio.
              bind_res (PortfolioGetCoinTransactions (env_fl env) (disk s) portfolio coin) (\<lambda>json.
              Inr (Some (s, http_set_body r (length json) (json @ [nul]) True)))))))"

definition crypto_post_coin :: "('f, 'd) env \<Rightarrow> app_state \<Rightarrow> areq \<Rightarrow> http_response_t \<Rightarrow> result" where
  "crypto_post_coin env s q r =
     (case a_body q of
        None \<Rightarrow> answer s (bad_request_reply r)
      | Some body \<Rightarrow>
          if a_args q \<noteq> None \<or> a_suffix q \<noteq> None then answer s (bad_request_reply r)
          else bind_res (http_session_get (ses s) (a_raw q)) (\<lambda>session. case session of
            None \<Rightarrow> answer s (unauthorized_reply r)
          | Some i \<Rightarrow>
              bind_res (get_user_portfolio_path (portfolios_path env) (ses s) i) (\<lambda>portfolio.
              bind_res (PortfolioAddCoinTransactions (env_fl env) (env_os env) (disk s) portfolio body) (\<lambda>(fs, _).
              bind_res (set_head r HTTP_201_CREATED ''application/json'') (\<lambda>r.
              Inr (Some (s\<lparr>disk := fs\<rparr>, http_set_body r (length body) (body @ [nul]) False)))))))"

subsection \<open>Starting\<close>

text \<open>\<open>strtoul\<close> in base 10: the value and the text behind the number.\<close>

definition strtoul :: "string \<Rightarrow> nat \<times> string" where
  "strtoul s =
     (let r = dropWhile isspace s;
          neg = (r \<noteq> [] \<and> hd r = CHR ''-'');
          t = (if r \<noteq> [] \<and> (hd r = CHR ''-'' \<or> hd r = CHR ''+'') then tl r else r);
          ds = takeWhile isdigit t; v = digits_val ds
      in if ds = [] then (0, s)
         else (if v \<ge> 2 ^ 64 then 2 ^ 64 - 1 else if neg then (2 ^ 64 - v) mod 2 ^ 64 else v, drop (length ds) t))"

text \<open>The cases of the \<open>switch\<close> fall through.\<close>

definition get_timeout :: "string \<Rightarrow> nat" where
  "get_timeout s =
     (case strtoul s of (n, remain) \<Rightarrow>
        if 2 \<le> length remain then 0
        else if remain = ''h'' then n * 60 mod 2 ^ 64 * 60 mod 2 ^ 64
        else if remain = ''m'' then n * 60 mod 2 ^ 64
        else n)"

text \<open>What \<open>getopt_long\<close> reports, until its \<open>-1\<close>.\<close>

datatype app_option = Root string | Timeout string | Unknown

fun app_options :: "app_option list \<Rightarrow> string option \<Rightarrow> nat \<Rightarrow> string option \<times> nat" where
  "app_options [] root t = (root, t)"
| "app_options (Root p # os) root t = app_options os (Some p) t"
| "app_options (Timeout s # os) root t = app_options os root (get_timeout s)"
| "app_options (Unknown # os) root t = (root, t)"

type_synonym ('f, 'd) app_handler = "('f, 'd) env \<Rightarrow> app_state \<Rightarrow> areq \<Rightarrow> http_response_t \<Rightarrow> result"

definition app_routes :: "((string \<times> int) \<times> ('f, 'd) app_handler) list" where
  "app_routes =
     [(([], HTTP_GET), crypto_get_resource), ((''login'', HTTP_GET), crypto_get_login),
      ((''login'', HTTP_POST), crypto_post_login), ((''logout'', HTTP_GET), crypto_post_logout),
      ((''register'', HTTP_GET), crypto_get_register), ((''register'', HTTP_POST), crypto_post_register),
      ((''home'', HTTP_GET), crypto_get_home), ((''coins'', HTTP_GET), crypto_get_coins),
      ((''coin'', HTTP_GET), crypto_get_coin), ((''coin'', HTTP_POST), crypto_post_coin)]"

text \<open>The results of the registrations are ignored.\<close>

fun register_routes_in :: "'h pathname option \<Rightarrow> ((string \<times> int) \<times> 'h) list \<Rightarrow> 'h pathname option res" where
  "register_routes_in t [] = Inr t"
| "register_routes_in t (((p, type), h) # rs) =
     bind_res (http_register_method t (CHR ''/'' # p) type h) (\<lambda>(t, _). register_routes_in t rs)"

text \<open>Without a root nothing is started. \<open>data\<close> is what the files of the server hold, by the path of their directory;
  \<open>None\<close> is an engine that is not running, and one that runs is not started again.\<close>

definition app_start :: "(string \<Rightarrow> (nat \<times> user_t list) option) \<Rightarrow> app_option list \<Rightarrow> ('f, 'd) env \<Rightarrow> engine option \<Rightarrow>
    ('f, 'd) app_handler pathname option \<Rightarrow> (('f, 'd) env \<times> engine option \<times> ('f, 'd) app_handler pathname option) res" where
  "app_start data opts env e tree =
     (case app_options opts None 0 of
        (None, _) \<Rightarrow> Inr (env, e, tree)
      | (Some root, timeout) \<Rightarrow>
          let env1 = env\<lparr>portfolios_path := root @ ''/data/portfolios/'', view_path := root @ ''/view/'',
                resources_path := (root @ ''/view/'') @ ''resources/''\<rparr>;
              e1 = (if e = None then Some (http_session_engine_start 10 (data (root @ ''/data/.server/'')) timeout) else e)
          in bind_res (register_routes_in tree app_routes) (\<lambda>t. Inr (env1, e1, t)))"

subsection \<open>Replies\<close>

lemma set_content_type_ok:
  assumes "length type \<le> 64" "nul \<notin> set type"
  shows "http_set_content_type r type True = Inr (r\<lparr>content_type := crlf @ ''Content-Type: '' @ type @ ''; charset=utf-8''\<rparr>)"
proof -
  let ?s = "crlf @ ''Content-Type: '' @ type @ ''; charset=utf-8''"
  have "length ?s < length (replicate 128 (None :: char option))" using assms(1) by (simp add: crlf_def)
  note b = sprintf_at_start [OF this]
  have "nul \<notin> set ?s" using assms(2) by (simp add: crlf_def) (simp add: nul_def)
  from read_str_text [OF this] show ?thesis unfolding http_set_content_type_def if_P [OF TrueI] Let_def b by simp
qed

lemma set_redirect_ok:
  assumes "length loc \<le> 64" "nul \<notin> set loc"
  shows "http_set_redirect r loc = Inr (r\<lparr>location := crlf @ ''Location: '' @ loc\<rparr>)"
proof -
  let ?s = "crlf @ ''Location: '' @ loc"
  have "length ?s < length (replicate 128 (None :: char option))" using assms(1) by (simp add: crlf_def)
  note b = sprintf_at_start [OF this]
  have "nul \<notin> set ?s" using assms(2) by (simp add: crlf_def) (simp add: nul_def)
  from read_str_text [OF this] show ?thesis unfolding http_set_redirect_def b by simp
qed

text \<open>A head that is set: the code of the table, the reason and the type.\<close>

lemma set_head_ok:
  assumes "0 \<le> c" "nat c < length HttpResponses" "length type \<le> 64" "nul \<notin> set type"
  shows "\<exists>r'. set_head r c type = Inr r' \<and> code r' = fst (HttpResponses ! nat c) \<and> header_buf r' = header_buf r"
  using assms set_content_type_ok [OF assms(3,4)] by (simp add: set_head_def http_set_response_code_def)

lemma head_known:
  assumes "c \<in> {HTTP_200_OK, HTTP_201_CREATED, HTTP_302_FOUND, HTTP_303_SEE_OTHER, HTTP_400_BAD_REQUEST, HTTP_401_UNAUTHORIZED}"
    and "type \<in> {''text/html'', ''text/plain'', ''application/json''}"
  shows "\<exists>r'. set_head r c type = Inr r' \<and> code r' = fst (HttpResponses ! nat c) \<and> header_buf r' = header_buf r"
  using assms
  by (intro set_head_ok) (auto simp: HTTP_200_OK_def HTTP_201_CREATED_def HTTP_302_FOUND_def HTTP_303_SEE_OTHER_def
    HTTP_400_BAD_REQUEST_def HTTP_401_UNAUTHORIZED_def HttpResponses_def nul_def)

lemma codes:
  "fst (HttpResponses ! nat HTTP_200_OK) = 200" "fst (HttpResponses ! nat HTTP_201_CREATED) = 201"
  "fst (HttpResponses ! nat HTTP_302_FOUND) = 302" "fst (HttpResponses ! nat HTTP_303_SEE_OTHER) = 303"
  "fst (HttpResponses ! nat HTTP_400_BAD_REQUEST) = 400" "fst (HttpResponses ! nat HTTP_401_UNAUTHORIZED) = 401"
  by (simp_all add: HTTP_200_OK_def HTTP_201_CREATED_def HTTP_302_FOUND_def HTTP_303_SEE_OTHER_def
    HTTP_400_BAD_REQUEST_def HTTP_401_UNAUTHORIZED_def HttpResponses_def)

lemma literal_ok:
  assumes "c \<in> {HTTP_400_BAD_REQUEST, HTTP_401_UNAUTHORIZED}"
  shows "\<exists>r'. literal_reply r c len text = Inr r' \<and> code r' = fst (HttpResponses ! nat c)"
proof -
  from head_known [of c "''text/html''" r] assms obtain r' where "set_head r c ''text/html'' = Inr r'"
    "code r' = fst (HttpResponses ! nat c)" by auto
  then show ?thesis by (simp add: literal_reply_def http_set_body_def)
qed

lemma redirect_ok:
  assumes "c \<in> {HTTP_302_FOUND, HTTP_303_SEE_OTHER}" "loc \<in> {''/login'', ''/home''}"
  shows "\<exists>r'. redirect_reply r c loc = Inr r' \<and> code r' = fst (HttpResponses ! nat c) \<and> header_buf r' = header_buf r"
proof -
  from head_known [of c "''text/html''" r] assms(1) obtain r' where r': "set_head r c ''text/html'' = Inr r'"
    "code r' = fst (HttpResponses ! nat c)" "header_buf r' = header_buf r" by auto
  have "http_set_redirect r' loc = Inr (r'\<lparr>location := crlf @ ''Location: '' @ loc\<rparr>)"
    using assms(2) by (intro set_redirect_ok) (auto simp: nul_def)
  with r' show ?thesis by (simp add: redirect_reply_def)
qed

subsection \<open>The fields of a form\<close>

definition login_json :: "string \<Rightarrow> string \<Rightarrow> string" where
  "login_json nm pw = ''{'' @ quoted ''username'' @ '':'' @ quoted nm @ '','' @ quoted ''password'' @ '':'' @ quoted pw @ ''}''"

definition form_field :: "string \<Rightarrow> bool" where
  "form_field s \<longleftrightarrow> s \<noteq> [] \<and> length s < 126 \<and> CHR 0x22 \<notin> set s \<and> nul \<notin> set s"

lemma copy_quoted_text:
  "CHR 0x22 \<notin> set t \<Longrightarrow> length t \<le> cap \<Longrightarrow>
   copy_quoted cap (t @ CHR 0x22 # r) = Inr (t @ replicate (cap - length t) nul, CHR 0x22 # r)"
  by (simp add: copy_quoted_def takeWhile_append takeWhile_eq_all_conv)

lemma json_field_here:
  assumes "key \<noteq> []" "CHR 0x22 \<notin> set t" "length t \<le> cap"
    and "strstr str key = Some (key @ [CHR 0x22, CHR '':'', CHR 0x22] @ t @ CHR 0x22 # r)"
  shows "json_field cap str key = Inr (Some (t @ replicate (cap - length t) nul, CHR 0x22 # r))"
proof -
  have "drop (length (key @ [CHR 0x22, CHR '':'', CHR 0x22])) (key @ [CHR 0x22, CHR '':'', CHR 0x22] @ t @ CHR 0x22 # r) =
      t @ CHR 0x22 # r" by simp
  moreover have "\<not> length (key @ [CHR 0x22, CHR '':'', CHR 0x22] @ t @ CHR 0x22 # r) < length (key @ [CHR 0x22, CHR '':'', CHR 0x22])"
    by simp
  ultimately show ?thesis unfolding json_field_def assms(4) option.case Let_def
    using copy_quoted_text [OF assms(2,3)] by (simp only: if_False bind_res_simps)
qed

lemma strstr_skip_1: "z \<notin> set pat \<Longrightarrow> pat \<noteq> [] \<Longrightarrow> strstr (z # r) pat = strstr r pat"
  using strstr_skip [of z pat "[]" r] by simp

lemma credentials_json:
  assumes nm: "form_field nm" and pw: "form_field pw"
  shows "credentials (login_json nm pw) = Inr (nm @ replicate (126 - length nm) nul, pw @ replicate (126 - length pw) nul)"
proof -
  let ?rest = "CHR '','' # CHR 0x22 # ''password'' @ [CHR 0x22, CHR '':'', CHR 0x22] @ pw @ CHR 0x22 # ''}''"
  have u: "strstr (login_json nm pw) ''username'' = Some (''username'' @ [CHR 0x22, CHR '':'', CHR 0x22] @ nm @ CHR 0x22 # ?rest)"
  proof -
    have "strstr (login_json nm pw) ''username'' = strstr (''username'' @ [CHR 0x22, CHR '':'', CHR 0x22] @ nm @ CHR 0x22 # ?rest) ''username''"
      by (simp add: login_json_def quoted_def strstr_skip_1)
    also have "\<dots> = Some (''username'' @ [CHR 0x22, CHR '':'', CHR 0x22] @ nm @ CHR 0x22 # ?rest)"
      by (rule strstr_here) simp
    finally show ?thesis .
  qed
  have p: "strstr (CHR 0x22 # ?rest) ''password'' = Some (''password'' @ [CHR 0x22, CHR '':'', CHR 0x22] @ pw @ CHR 0x22 # ''}'')"
  proof -
    have "strstr (CHR 0x22 # ?rest) ''password'' = strstr (''password'' @ [CHR 0x22, CHR '':'', CHR 0x22] @ pw @ CHR 0x22 # ''}'') ''password''"
      by (simp add: strstr_skip_1)
    also have "\<dots> = Some (''password'' @ [CHR 0x22, CHR '':'', CHR 0x22] @ pw @ CHR 0x22 # ''}'')"
      by (rule strstr_here) simp
    finally show ?thesis .
  qed
  have f: "CHR 0x22 \<notin> set nm" "length nm \<le> 126" "CHR 0x22 \<notin> set pw" "length pw \<le> 126"
    using nm pw by (simp_all add: form_field_def)
  show ?thesis unfolding credentials_def json_field_here [OF _ f(1,2) u, simplified] bind_res_simps option.case prod.case
      json_field_here [OF _ f(3,4) p, simplified] ..
qed

lemma form_field_array:
  assumes "form_field s"
  shows "hd (s @ replicate (126 - length s) nul) \<noteq> nul" "c_str (s @ replicate (126 - length s) nul) = Inr s"
proof -
  show "hd (s @ replicate (126 - length s) nul) \<noteq> nul" using assms by (cases s) (auto simp: form_field_def)
  have "126 - length s = Suc (125 - length s)" using assms unfolding form_field_def by linarith
  then show "c_str (s @ replicate (126 - length s) nul) = Inr s"
    using c_str_text [of s "replicate (125 - length s) nul"] assms by (simp add: form_field_def)
qed

lemma with_credentials_json:
  assumes "a_body q = Some (login_json nm pw)" "a_args q = None" "a_suffix q = None"
    "http_session_get (ses s) (a_raw q) = Inr None" "form_field nm" "form_field pw"
  shows "with_credentials s q r k = k nm pw"
  unfolding with_credentials_def assms(1-4) option.case credentials_json [OF assms(5,6)] bind_res_simps prod.case
    form_field_array(2) [OF assms(5)] form_field_array(2) [OF assms(6)]
  using form_field_array(1) [OF assms(5)] form_field_array(1) [OF assms(6)] by simp

subsection \<open>Registering the routes\<close>

lemma register_all_routes:
  "register_all register_key t rs = Some t' \<Longrightarrow> register_routes_in (Some t) rs = Inr (Some t')"
proof (induction rs arbitrary: t)
  case (Cons r rs)
  obtain p type h where r: "r = ((p, type), h)" by (metis surj_pair)
  with Cons.prems obtain t1 where t1: "register_key t (p, type) h = Some t1" "register_all register_key t1 rs = Some t'"
    by (auto split: option.splits)
  then have "http_register_method (Some t) (CHR ''/'' # p) type h = Inr (Some t1, 0)"
    by (auto simp: register_key_def split: sum.splits option.splits prod.splits if_splits)
  then show ?case using Cons.IH [OF t1(2)] r by simp
qed simp

lemma app_routes_valid:
  "\<forall>(k, h) \<in> set (app_routes :: ((string \<times> int) \<times> ('f, 'd) app_handler) list). valid_key k"
  "distinct (map fst (app_routes :: ((string \<times> int) \<times> ('f, 'd) app_handler) list))"
  by (simp_all add: app_routes_def valid_key_def no_slash_def http_methods)

subsection \<open>Users and their portfolios\<close>

text \<open>A request in the session of a user.\<close>

definition session_of :: "('f, 'd) env \<Rightarrow> app_state \<Rightarrow> areq \<Rightarrow> string \<Rightarrow> bool" where
  "session_of env s q nm \<longleftrightarrow> length (portfolios_path env) + length nm < 256 \<and>
     (\<exists>i. http_session_get (ses s) (a_raw q) = Inr (Some i) \<and> http_session_get_username (ses s) i = Inr nm)"

definition home_of :: "('f, 'd) env \<Rightarrow> string \<Rightarrow> string" where
  "home_of env nm = portfolios_path env @ underscores nm"

lemma session_path:
  assumes "session_of env s q nm"
  obtains i where "http_session_get (ses s) (a_raw q) = Inr (Some i)"
    "get_user_portfolio_path (portfolios_path env) (ses s) i = Inr (home_of env nm)"
  using assms that by (auto simp: session_of_def get_user_portfolio_path_def home_of_def)

lemma session_of_disk [simp]: "session_of env (s\<lparr>disk := d\<rparr>) q nm = session_of env s q nm"
  by (simp add: session_of_def)

lemma coins_reply:
  assumes q: "session_of env s q nm" "a_args q = None" and at: "portfolio_at (disk s) (home_of env nm) m" "m \<noteq> Map.empty"
    and texts: "\<And>v. nul \<notin> set (f_text (env_fl env) v)"
    and fits: "\<And>t xs. m t = Some xs \<Longrightarrow> length (coin_summary (env_fl env) t xs) \<le> 120" "card (dom m) \<le> 67"
  shows "\<exists>ts r'. crypto_get_coins env s q r = Inr (Some (s, r')) \<and> code r' = 200 \<and> distinct ts \<and> set ts = dom m \<and>
    take (payload_size r') (payload r') = json_list (map (\<lambda>t. coin_summary (env_fl env) t (the (m t))) ts)"
proof -
  from q(1) obtain i where i: "http_session_get (ses s) (a_raw q) = Inr (Some i)"
    "get_user_portfolio_path (portfolios_path env) (ses s) i = Inr (home_of env nm)" by (rule session_path)
  from portfolio_list [where fl = "env_fl env" and os = "env_os env", OF at(1) texts fits] obtain b ts where
    b: "PortfolioGetCoinsList (env_fl env) (env_os env) (disk s) (home_of env nm) = Inr (disk s, Some b)" "distinct ts"
      "set ts = dom m" "read_str b = (if ts = [] then Inl UninitRead else
        Inr (json_list (map (\<lambda>t. coin_summary (env_fl env) t (the (m t))) ts)))" by blast
  have "dom m \<noteq> {}" using at(2) by simp
  then have "ts \<noteq> []" using b(3) by (metis list.set(1))
  with b(4) have j: "read_str b = Inr (json_list (map (\<lambda>t. coin_summary (env_fl env) t (the (m t))) ts))" by simp
  from head_known [of HTTP_200_OK "''application/json''" r] obtain r1 where
    r1: "set_head r HTTP_200_OK ''application/json'' = Inr r1" "code r1 = 200" by (auto simp: codes)
  have "crypto_get_coins env s q r = Inr (Some (s, http_set_body r1
      (length (json_list (map (\<lambda>t. coin_summary (env_fl env) t (the (m t))) ts)))
      (json_list (map (\<lambda>t. coin_summary (env_fl env) t (the (m t))) ts) @ [nul]) True))"
    unfolding crypto_get_coins_def i(1) bind_res_simps option.case q(2) r1(1) i(2) b(1) prod.case j by simp
  then show ?thesis using b(2,3) r1(2) by (simp add: http_set_body_def) blast
qed

lemma post_reply:
  assumes q: "session_of env s q nm" "a_args q = None" "a_suffix q = None" "a_body q = Some body"
    and post: "PortfolioAddCoinTransactions (env_fl env) (env_os env) (disk s) (home_of env nm) body = Inr (fs', body)"
  shows "\<exists>r'. crypto_post_coin env s q r = Inr (Some (s\<lparr>disk := fs'\<rparr>, r')) \<and> code r' = 201 \<and>
    take (payload_size r') (payload r') = body"
proof -
  from q(1) obtain i where i: "http_session_get (ses s) (a_raw q) = Inr (Some i)"
    "get_user_portfolio_path (portfolios_path env) (ses s) i = Inr (home_of env nm)" by (rule session_path)
  from head_known [of HTTP_201_CREATED "''application/json''" r] obtain r1 where
    r1: "set_head r HTTP_201_CREATED ''application/json'' = Inr r1" "code r1 = 201" by (auto simp: codes)
  have "crypto_post_coin env s q r = Inr (Some (s\<lparr>disk := fs'\<rparr>, http_set_body r1 (length body) (body @ [nul]) False))"
    unfolding crypto_post_coin_def q(4) option.case q(2,3) using i r1(1) post by simp
  then show ?thesis using r1(2) by (simp add: http_set_body_def)
qed

text \<open>For the witnesses: an environment, requests, and a server on which bob has registered.\<close>

definition demo_env :: "(int, int) env" where
  "demo_env = \<lparr>env_fl = whole_ops, env_os = demo_os, env_uuid = demo_uuid, env_junk = zero_user,
     portfolios_path = ''data/'', view_path = ''view/'', resources_path = ''view/resources/''\<rparr>"

definition no_files :: fs where
  "no_files = \<lparr>fs_files = Map.empty, fs_dirs = Map.empty\<rparr>"

definition form_req :: "string \<Rightarrow> string \<Rightarrow> areq" where
  "form_req nm pw = \<lparr>a_args = None, a_suffix = None, a_body = Some (login_json nm pw), a_raw = []\<rparr>"

lemma demo_registered: "\<exists>e u. engine_inv e \<and> user_get e ''bob'' True = Inr (Some u)"
proof -
  let ?e = "http_session_engine_start (Suc 1) None 0"
  have r: "engine_reachable ?e" by (rule engine_reachable.start) simp
  note inv = engine_reachable_inv [OF r]
  from register_returns [OF inv start_empty(2,1,3,4)] obtain e where
    run: "http_session_register_user zero_user ?e ''bob'' ''pw'' = Inr (Some (e, True))" by blast
  have ok: "field_ok ''bob''" "field_ok ''pw''" by (simp_all add: field_ok_def name_size_def nul_def)
  from register_found [OF inv start_empty(2,1) ok run] show ?thesis by blast
qed

lemma guest_refused:
  assumes "http_session_get (ses s) (a_raw q) = Inr None"
    and "h \<in> {crypto_get_home, crypto_get_coins, crypto_get_coin, crypto_post_coin}"
  shows "\<exists>r'. code r' \<in> {303, 400, 401} \<and> (\<forall>d. h env (s\<lparr>disk := d\<rparr>) q r = Inr (Some (s\<lparr>disk := d\<rparr>, r')))"
proof -
  from literal_ok [of HTTP_400_BAD_REQUEST r] obtain b where b: "bad_request_reply r = Inr b" "code b = 400"
    by (auto simp: bad_request_reply_def codes)
  from literal_ok [of HTTP_401_UNAUTHORIZED r] obtain u where u: "unauthorized_reply r = Inr u" "code u = 401"
    by (auto simp: unauthorized_reply_def codes)
  from redirect_ok [of HTTP_303_SEE_OTHER "''/login''" r] obtain l where l: "redirect_reply r HTTP_303_SEE_OTHER ''/login'' = Inr l" "code l = 303"
    by (auto simp: codes)
  have home: "crypto_get_home env (s\<lparr>disk := d\<rparr>) q r =
      Inr (Some (s\<lparr>disk := d\<rparr>, if a_args q \<noteq> None \<or> a_suffix q \<noteq> None then b else l))" for d
    using assms(1) b(1) l(1) by (simp add: crypto_get_home_def answer_def)
  have coins: "crypto_get_coins env (s\<lparr>disk := d\<rparr>) q r = Inr (Some (s\<lparr>disk := d\<rparr>, u))"
    "crypto_get_coin env (s\<lparr>disk := d\<rparr>) q r = Inr (Some (s\<lparr>disk := d\<rparr>, u))" for d
    using assms(1) u(1) by (simp_all add: crypto_get_coins_def crypto_get_coin_def answer_def)
  have post: "crypto_post_coin env (s\<lparr>disk := d\<rparr>) q r =
      Inr (Some (s\<lparr>disk := d\<rparr>, if a_body q = None \<or> a_args q \<noteq> None \<or> a_suffix q \<noteq> None then b else u))" for d
    using assms(1) b(1) u(1) by (cases "a_body q") (simp_all add: crypto_post_coin_def answer_def)
  have "\<exists>r' \<in> {b, u, l}. \<forall>d. h env (s\<lparr>disk := d\<rparr>) q r = Inr (Some (s\<lparr>disk := d\<rparr>, r'))"
    using assms(2) home coins post by auto
  then show ?thesis using b(2) u(2) l(2) by auto
qed

lemma start_routes:
  fixes env :: "('f, 'd) env"
  assumes "app_options opts None 0 = (Some root, timeout)"
  shows "\<exists>env' tree. app_start data opts env None (Some http_init_url_paths) =
      Inr (env', Some (http_session_engine_start 10 (data (root @ ''/data/.server/'')) timeout), Some tree) \<and>
    portfolios_path env' = root @ ''/data/portfolios/'' \<and>
    (\<forall>k. valid_key k \<longrightarrow> key_handler tree k = map_of app_routes k)"
proof -
  from registered_routes [OF app_routes_valid] obtain tree :: "('f, 'd) app_handler pathname" where
    t: "register_all register_key http_init_url_paths app_routes = Some tree"
      "\<forall>k. valid_key k \<longrightarrow> key_handler tree k = map_of app_routes k" by blast
  from register_all_routes [OF t(1)] t(2) assms show ?thesis by (simp add: app_start_def)
qed

subsection \<open>Properties\<close>

text \<open>With a root, \<open>app_start\<close> starts the sessions with the last timeout given, sets the paths and registers the ten
  routes: on a new server each of them, and no other path of that form, is answered by its handler.\<close>

theorem app_started:
  fixes env :: "('f, 'd) env"
  assumes "app_options opts None 0 = (Some root, timeout)"
  shows "\<exists>env' tree. app_start data opts env None (Some http_init_url_paths) =
      Inr (env', Some (http_session_engine_start 10 (data (root @ ''/data/.server/'')) timeout), Some tree) \<and>
    portfolios_path env' = root @ ''/data/portfolios/'' \<and>
    (\<forall>k. valid_key k \<longrightarrow> key_handler tree k = map_of app_routes k)"
  using assms by (rule start_routes)

theorem app_started_witness:
  "\<exists>env tree. app_start (\<lambda>_. None) [Root ''/srv'', Timeout ''2h''] demo_env None (Some http_init_url_paths) =
      Inr (env, Some (http_session_engine_start 10 None 7200), Some tree) \<and>
    key_handler tree (''coin'', HTTP_POST) = Some crypto_post_coin \<and> key_handler tree (''stats'', HTTP_GET) = None"
proof -
  have "app_options [Root ''/srv'', Timeout ''2h''] None 0 = (Some ''/srv'', 7200)"
    by (simp add: get_timeout_def strtoul_def isspace_def isdigit_def digits_val_def digit_val_def)
  from app_started [OF this, of "\<lambda>_. None" demo_env] obtain env tree where
    t: "app_start (\<lambda>_. None) [Root ''/srv'', Timeout ''2h''] demo_env None (Some http_init_url_paths) =
      Inr (env, Some (http_session_engine_start 10 None 7200), Some tree)"
      "\<forall>k. valid_key k \<longrightarrow> key_handler tree k = map_of app_routes k" by blast
  have "valid_key (''coin'', HTTP_POST)" "valid_key (''stats'', HTTP_GET)" by (simp_all add: valid_key_def no_slash_def)
  with t show ?thesis by (auto simp: app_routes_def http_methods)
qed


text \<open>Without a session no handler of the application's data does anything: the page leads to the login, the
  coins answer 401 (or 400 if the request is malformed), nothing changes, and the answer does not depend on the files.\<close>

theorem guests_refused:
  assumes "http_session_get (ses s) (a_raw q) = Inr None"
    and "h \<in> {crypto_get_home, crypto_get_coins, crypto_get_coin, crypto_post_coin}"
  shows "\<exists>r'. code r' \<in> {303, 400, 401} \<and> (\<forall>d. h env (s\<lparr>disk := d\<rparr>) q r = Inr (Some (s\<lparr>disk := d\<rparr>, r')))"
  using assms by (rule guest_refused)

theorem guests_refused_witness:
  "\<exists>r'. crypto_get_coins demo_env \<lparr>ses = http_session_engine_start 1 None 0, disk = demo_fs\<rparr> (form_req ''a'' ''b'') new_response =
    Inr (Some (\<lparr>ses = http_session_engine_start 1 None 0, disk = demo_fs\<rparr>, r'))"
proof -
  let ?s = "\<lparr>ses = http_session_engine_start 1 None 0, disk = demo_fs\<rparr>"
  have "http_session_get (ses ?s) (a_raw (form_req ''a'' ''b'')) = Inr None"
    by (simp add: http_session_get_def form_req_def get_cookie_strstr)
  from guests_refused [OF this, of crypto_get_coins demo_env new_response] obtain r' where
    "\<forall>d. crypto_get_coins demo_env (?s\<lparr>disk := d\<rparr>) (form_req ''a'' ''b'') new_response = Inr (Some (?s\<lparr>disk := d\<rparr>, r'))" by auto
  from spec [OF this, of demo_fs] show ?thesis by auto
qed


text \<open>Property C24. A coin that a user posts is in the user's portfolio and in the next list of its coins: the post is answered 201 with
  its own text, every other portfolio stays, and the list has one summary for each ticker of the updated map.\<close>

theorem posted_coin_shown:
  assumes "session_of env s q nm" "a_args q = None" "a_suffix q = None" "a_body q = Some (tx_json coin amount kind v date)"
    and "session_of env s q' nm" "a_args q' = None"
    and "portfolio_at (disk s) (home_of env nm) m" "places_entries (env_os env)" "\<And>v. nul \<notin> set (f_text (env_fl env) v)"
    and "t = map lower_char coin" "ticker_ok t" "xs = coin_txs_of m t" "last_tx xs + 1 < 10 ^ 9"
    and "reads_number (env_fl env) amount a" "reads_number (env_fl env) v b"
    and "CHR 0x22 \<notin> set coin" "\<not> sublist ''amount'' coin" "CHR 0x22 \<notin> set kind" "CHR 0x22 \<notin> set date"
    and "x = new_tx (env_fl env) t xs a kind b date" "good_tx x" "length kind < 8"
    and "m' = m(t := Some (xs @ [x]))" "\<And>t xs. m' t = Some xs \<Longrightarrow> length (coin_summary (env_fl env) t xs) \<le> 120"
      "card (dom m') \<le> 67"
  shows "\<exists>s' r1 r2 ts. crypto_post_coin env s q r = Inr (Some (s', r1)) \<and> code r1 = 201 \<and> ses s' = ses s \<and>
    take (payload_size r1) (payload r1) = tx_json coin amount kind v date \<and> portfolio_at (disk s') (home_of env nm) m' \<and>
    crypto_get_coins env s' q' r = Inr (Some (s', r2)) \<and> code r2 = 200 \<and> distinct ts \<and> set ts = dom m' \<and>
    take (payload_size r2) (payload r2) = json_list (map (\<lambda>t. coin_summary (env_fl env) t (the (m' t))) ts)"
proof -
  from post_portfolio [OF assms(7,8,10-22)] obtain fs' where
    post: "PortfolioAddCoinTransactions (env_fl env) (env_os env) (disk s) (home_of env nm) (tx_json coin amount kind v date) =
      Inr (fs', tx_json coin amount kind v date)" and at: "portfolio_at fs' (home_of env nm) m'"
    unfolding assms(23) by blast
  from post_reply [OF assms(1-4) post] obtain r1 where r1: "crypto_post_coin env s q r = Inr (Some (s\<lparr>disk := fs'\<rparr>, r1))"
    "code r1 = 201" "take (payload_size r1) (payload r1) = tx_json coin amount kind v date" by blast
  have "portfolio_at (disk (s\<lparr>disk := fs'\<rparr>)) (home_of env nm) m'" "m' \<noteq> Map.empty" "session_of env (s\<lparr>disk := fs'\<rparr>) q' nm"
    using at assms(5) by (simp_all add: assms(23))
  from coins_reply [OF this(3) assms(6) this(1,2) assms(9,24,25)] obtain ts r2 where
    "crypto_get_coins env (s\<lparr>disk := fs'\<rparr>) q' r = Inr (Some (s\<lparr>disk := fs'\<rparr>, r2))" "code r2 = 200" "distinct ts" "set ts = dom m'"
    "take (payload_size r2) (payload r2) = json_list (map (\<lambda>t. coin_summary (env_fl env) t (the (m' t))) ts)" by blast
  with r1 at show ?thesis by (intro exI [of _ "s\<lparr>disk := fs'\<rparr>"] exI [of _ r1] exI [of _ r2] exI [of _ ts]) simp
qed

lemma register_capacity:
  "http_session_register_user junk e nm pw = Inr (Some (e', ok)) \<Longrightarrow> sm_capacity e' = sm_capacity e"
  by (auto simp: http_session_register_user_def expand_users_def bind_res_Inr Let_def split: if_splits)

lemma login_capacity:
  "http_session_login_user uuid e nm pw = Inr (e', Some i) \<Longrightarrow> sm_capacity e' \<le> 2 * sm_capacity e"
  by (auto simp: http_session_login_user_def bind_res_Inr add_ref_def expand_sessions_def Let_def
      split: if_splits option.splits)

text \<open>Users whose names differ only in spaces and underscores share one portfolio: each sees, lists and changes the
  coins of the other.\<close>

theorem names_share_portfolio:
  assumes "session_of env s q nm" "session_of env s q' nm'" "underscores nm = underscores nm'"
    and "a_args q = a_args q'" "a_suffix q = a_suffix q'" "a_body q = a_body q'"
    and "h \<in> {crypto_get_coins, crypto_get_coin, crypto_post_coin}"
  shows "h env s q r = h env s q' r"
proof -
  from assms(1) obtain i where i: "http_session_get (ses s) (a_raw q) = Inr (Some i)"
    "get_user_portfolio_path (portfolios_path env) (ses s) i = Inr (home_of env nm)" by (rule session_path)
  from assms(2) obtain j where j: "http_session_get (ses s) (a_raw q') = Inr (Some j)"
    "get_user_portfolio_path (portfolios_path env) (ses s) j = Inr (home_of env nm')" by (rule session_path)
  have home: "home_of env nm' = home_of env nm" using assms(3) by (simp add: home_of_def)
  have "crypto_get_coins env s q r = crypto_get_coins env s q' r"
    unfolding crypto_get_coins_def i(1) j(1) bind_res_simps option.case i(2) j(2) home assms(4) ..
  moreover have "crypto_get_coin env s q r = crypto_get_coin env s q' r"
    unfolding crypto_get_coin_def i(1) j(1) bind_res_simps option.case i(2) j(2) home assms(4) ..
  moreover have "crypto_post_coin env s q r = crypto_post_coin env s q' r"
    unfolding crypto_post_coin_def i(1) j(1) bind_res_simps option.case i(2) j(2) home assms(4-6) ..
  ultimately show ?thesis using assms(7) by auto
qed

lemma session_by_cookie:
  assumes "uuid_ok uuid" "http_get_cookie raw ''session_id'' = Some (uuid @ rest)"
  shows "http_session_get e raw = http_session_get_by_id e uuid"
proof -
  have l: "length uuid = 36" "nul \<notin> set uuid" using assms(1) by (simp_all add: uuid_ok_def id_size_def)
  have "c_str (take 36 ((uuid @ rest) @ [nul]) @ [nul]) = Inr uuid" using l c_str_text [OF l(2), of "[]"] by simp
  then show ?thesis using assms(2) l by (simp add: http_session_get_def id_size_def)
qed

definition two_users :: engine where
  "two_users = (http_session_engine_start 2 None 0)\<lparr>um_last := 2,
     users := [zero_user\<lparr>u_name := ''al ice'' @ [nul]\<rparr>, zero_user\<lparr>u_name := ''al_ice'' @ [nul]\<rparr>],
     sessions := [\<lparr>sid = demo_uuid @ [nul], expire_s = 9, user_ref = Some 0\<rparr>,
       \<lparr>sid = replicate 36 CHR ''b'' @ [nul], expire_s = 9, user_ref = Some 1\<rparr>]\<rparr>"

definition cookie_req :: "string \<Rightarrow> areq" where
  "cookie_req uuid = \<lparr>a_args = None, a_suffix = None, a_body = None, a_raw = ''Cookie: session_id='' @ uuid\<rparr>"

lemma cookie_req_session: "uuid_ok uuid \<Longrightarrow> http_session_get e (a_raw (cookie_req uuid)) = http_session_get_by_id e uuid"
  by (rule session_by_cookie [of _ _ "[]"]) (simp_all add: cookie_req_def get_cookie_strstr)

theorem names_share_portfolio_witness:
  "crypto_get_coins demo_env \<lparr>ses = two_users, disk = demo_fs\<rparr> (cookie_req demo_uuid) new_response =
   crypto_get_coins demo_env \<lparr>ses = two_users, disk = demo_fs\<rparr> (cookie_req (replicate 36 CHR ''b'')) new_response"
proof -
  let ?b = "replicate 36 CHR ''b''"
  have b: "uuid_ok ?b" by (simp add: uuid_ok_def id_size_def nul_def)
  have ne: "demo_uuid \<noteq> ?b" by (simp add: demo_uuid_def numeral_eq_Suc)
  note first = uuid_first [OF demo_uuid_ok] uuid_first [OF b]
  have "http_session_get_by_id two_users demo_uuid = Inr (Some 0)" "http_session_get_by_id two_users ?b = Inr (Some 1)"
    using first ne by (simp_all add: http_session_get_by_id_def two_users_def http_session_engine_start_def load_user_db_def)
  moreover have "http_session_get_username two_users 0 = Inr ''al ice''" "http_session_get_username two_users 1 = Inr ''al_ice''"
    by (simp_all add: http_session_get_username_def two_users_def http_session_engine_start_def load_user_db_def c_str_def nul_def)
  ultimately have "session_of demo_env \<lparr>ses = two_users, disk = demo_fs\<rparr> (cookie_req demo_uuid) ''al ice''"
    "session_of demo_env \<lparr>ses = two_users, disk = demo_fs\<rparr> (cookie_req ?b) ''al_ice''"
    using cookie_req_session [OF demo_uuid_ok] cookie_req_session [OF b] by (simp_all add: session_of_def demo_env_def)
  from names_share_portfolio [OF this] show ?thesis by (simp add: underscores_def cookie_req_def)
qed





text \<open>The entry with the fresh id fits into the first block of the header.\<close>

lemma new_cookie:
  assumes "uuid_ok uuid"
  shows "\<exists>r. http_add_header_entry new_response ''Set-Cookie'' (''session_id='' @ uuid) = Inr r \<and>
    header_text r = Inr (header_entry ''Set-Cookie'' (''session_id='' @ uuid))"
proof -
  let ?e = "''session_id='' @ uuid"
  have u: "length uuid = 36" "nul \<notin> set uuid" using assms by (simp_all add: uuid_ok_def id_size_def)
  have "length (header_entry ''Set-Cookie'' ?e) = 61" using u(1) by (simp add: header_entry_def crlf_def)
  moreover have "nul \<notin> set ?e" "nul \<notin> set ''Set-Cookie''" using u(2) by (simp_all add: nul_def)
  moreover have "header_size new_response = 0" "length (header_buf new_response) = header_buf_size new_response"
    by (simp_all add: new_response_def)
  ultimately obtain b where "http_add_header_entry new_response ''Set-Cookie'' ?e =
      Inr (new_response\<lparr>header_buf_size := 128, header_buf := b\<rparr>)"
    "length b = 128" "read_str b = Inr (header_entry ''Set-Cookie'' ?e)"
    using add_header_ok [of new_response "''Set-Cookie''" ?e] by (auto simp: new_response_def grown_def)
  then show ?thesis by (auto simp: header_text_def)
qed

text \<open>The reply to a login: 302 with the cookie of the session, or 401.\<close>

lemma login_replies:
  assumes "a_body q = Some (login_json nm pw)" "a_args q = None" "a_suffix q = None" "form_field nm" "form_field pw"
    and "http_session_get (ses s) (a_raw q) = Inr None" "uuid_ok (env_uuid env)"
    and run: "http_session_login_user (env_uuid env) (ses s) nm pw = Inr (e, session)"
    and cookie: "\<And>i. session = Some i \<Longrightarrow> http_session_set_cookie e i new_response =
      http_add_header_entry new_response ''Set-Cookie'' (''session_id='' @ env_uuid env)"
  shows "\<exists>r. crypto_post_login env s q new_response = Inr (Some (s\<lparr>ses := e\<rparr>, r)) \<and>
    (case session of None \<Rightarrow> code r = 401
     | Some i \<Rightarrow> code r = 302 \<and> header_text r = Inr (header_entry ''Set-Cookie'' (''session_id='' @ env_uuid env)))"
proof -
  have login: "crypto_post_login env s q new_response = (case session of
        None \<Rightarrow> answer (s\<lparr>ses := e\<rparr>) (literal_reply new_response HTTP_401_UNAUTHORIZED 24 ''<h1>401 UNAUTHORIZED</h1>'')
      | Some i \<Rightarrow> answer (s\<lparr>ses := e\<rparr>)
          (bind_res (http_session_set_cookie e i new_response) (\<lambda>r. redirect_reply r HTTP_302_FOUND ''/home'')))"
    unfolding crypto_post_login_def with_credentials_json [OF assms(1-3,6,4,5)] run by simp
  show ?thesis
  proof (cases session)
    case None
    from literal_ok [of HTTP_401_UNAUTHORIZED new_response 24 "''<h1>401 UNAUTHORIZED</h1>''"] obtain r where
      "literal_reply new_response HTTP_401_UNAUTHORIZED 24 ''<h1>401 UNAUTHORIZED</h1>'' = Inr r" "code r = 401"
      by (auto simp: codes)
    with None login show ?thesis by (simp add: answer_def)
  next
    case (Some i)
    from new_cookie [OF assms(7)] cookie [OF Some] obtain r where r: "http_session_set_cookie e i new_response = Inr r"
      "header_text r = Inr (header_entry ''Set-Cookie'' (''session_id='' @ env_uuid env))" by auto
    from redirect_ok [of HTTP_302_FOUND "''/home''" r] obtain r2 where
      r2: "redirect_reply r HTTP_302_FOUND ''/home'' = Inr r2" "code r2 = 302" "header_buf r2 = header_buf r" by (auto simp: codes)
    have "header_text r2 = Inr (header_entry ''Set-Cookie'' (''session_id='' @ env_uuid env))"
      using r(2) unfolding header_text_def r2(3) .
    with Some r(1) r2 login show ?thesis by (simp add: answer_def)
  qed
qed

text \<open>Property C23. Registering through the form makes a user that logs in through the form: the registration is answered 201 and creates
  the empty portfolio of the user, the login with the same password 302 with the cookie of a new session, and one with
  another password 401.\<close>

theorem registered_user_enters:
  assumes "engine_reachable (ses s)" "um_entries (ses s) < um_capacity (ses s)" "user_get (ses s) nm False = Inr None"
    "alive (work (ses s))" "\<not> push_blocked (work (ses s))"
      "sm_capacity (ses s) < 2 ^ 62"
    and "form_field nm" "form_field pw" "form_field pw'" "uuid_ok (env_uuid env)"
    and "a_body q = Some (login_json nm pw)" "a_args q = None" "a_suffix q = None" "http_get_cookie (a_raw q) ''session_id'' = None"
    and "fs_dirs (disk s) (home_of env nm) = None" "fs_files (disk s) (home_of env nm) = None"
      "os_mkdir (env_os env) (home_of env nm)" "length (home_of env nm) < 200"
      "\<And>e. plain_name e \<Longrightarrow> fs_files (disk s) (entry_path (home_of env nm) e) = None \<and> fs_dirs (disk s) (entry_path (home_of env nm) e) = None"
  shows "\<exists>s1 r1. crypto_post_register env s q new_response = Inr (Some (s1, r1)) \<and> code r1 = 201 \<and>
    portfolio_at (disk s1) (home_of env nm) Map.empty \<and>
    (if pw' = pw
     then \<exists>s2 r2 h. crypto_post_login env s1 (q\<lparr>a_body := Some (login_json nm pw')\<rparr>) new_response = Inr (Some (s2, r2)) \<and>
       code r2 = 302 \<and> header_text r2 = Inr h \<and> h = header_entry ''Set-Cookie'' (''session_id='' @ env_uuid env)
     else \<exists>r2. crypto_post_login env s1 (q\<lparr>a_body := Some (login_json nm pw')\<rparr>) new_response = Inr (Some (s1, r2)) \<and> code r2 = 401)"
proof -
  let ?q = "q\<lparr>a_body := Some (login_json nm pw')\<rparr>"
  have ok: "field_ok nm" "field_ok pw" using assms(7,8) by (simp_all add: form_field_def field_ok_def name_size_def)
  from registered_user_logs_in [OF assms(1-5) ok, of "env_junk env" "env_uuid env"] obtain e1 e2 i where
    reg: "http_session_register_user (env_junk env) (ses s) nm pw = Inr (Some (e1, True))"
    and enter: "http_session_login_user (env_uuid env) e1 nm pw = Inr (e2, Some i)"
    and refuse: "pw' \<noteq> pw \<Longrightarrow> http_session_login_user (env_uuid env) e1 nm pw' = Inr (e1, None)" by blast
  have none: "http_session_get e (a_raw q) = Inr None" for e using assms(14) by (simp add: http_session_get_def)
  from new_portfolio [of "home_of env nm" "portfolios_path env" nm "disk s" "env_os env"] assms(15-19) obtain fs1 where
    port: "PortfolioCreate (env_os env) (disk s) (portfolios_path env) nm = (fs1, 0)" "portfolio_at fs1 (home_of env nm) Map.empty"
    by (auto simp: home_of_def)
  from head_known [of HTTP_201_CREATED "''application/json''" new_response] obtain r1 where
    r1: "set_head new_response HTTP_201_CREATED ''application/json'' = Inr r1" "code r1 = 201" by (auto simp: codes)
  let ?s1 = "\<lparr>ses = e1, disk = fs1\<rparr>"
  have run: "crypto_post_register env s q new_response =
      Inr (Some (?s1, http_set_body r1 (length registered_text) (registered_text @ [nul]) False))"
    unfolding crypto_post_register_def with_credentials_json [OF assms(11-13) none assms(7,8)] reg using port(1) r1(1) by simp
  have reach: "engine_reachable e1" by (rule engine_reachable.register [OF assms(1,2) reg])
  have "sm_capacity e2 < 2 ^ 63" using login_capacity [OF enter] register_capacity [OF reg] assms(6) by simp
  note cookie = cookie_flags_lost [OF reach assms(10) enter this]
  have "if pw' = pw
     then \<exists>s2 r2 h. crypto_post_login env ?s1 ?q new_response = Inr (Some (s2, r2)) \<and>
       code r2 = 302 \<and> header_text r2 = Inr h \<and> h = header_entry ''Set-Cookie'' (''session_id='' @ env_uuid env)
     else \<exists>r2. crypto_post_login env ?s1 ?q new_response = Inr (Some (?s1, r2)) \<and> code r2 = 401"
    using login_replies [of ?q nm pw' ?s1 env e2 "Some i"] login_replies [of ?q nm pw' ?s1 env e1 None]
      enter refuse cookie none assms(7,9,10,12,13) by auto
  with run r1(2) port(2) show ?thesis
    by (intro exI [of _ ?s1] exI [of _ "http_set_body r1 (length registered_text) (registered_text @ [nul]) False"])
      (simp add: http_set_body_def)
qed

theorem registered_user_enters_witness:
  "\<exists>s1 r1 s2 r2. crypto_post_register demo_env \<lparr>ses = http_session_engine_start (Suc 1) None 0, disk = no_files\<rparr>
      (form_req ''bob'' ''pw'') new_response = Inr (Some (s1, r1)) \<and> code r1 = 201 \<and>
    crypto_post_login demo_env s1 (form_req ''bob'' ''pw'') new_response = Inr (Some (s2, r2)) \<and> code r2 = 302"
proof -
  let ?s = "\<lparr>ses = http_session_engine_start (Suc 1) None 0, disk = no_files\<rparr>"
  let ?q = "form_req ''bob'' ''pw''"
  have q: "?q\<lparr>a_body := Some (login_json ''bob'' ''pw'')\<rparr> = ?q" by (simp add: form_req_def)
  have "sm_capacity (ses ?s) < 2 ^ 62" by (simp add: http_session_engine_start_def load_user_db_def)
  from registered_user_enters [of ?s "''bob''" "''pw''" "''pw''" demo_env ?q, unfolded q, OF _ _ _ _ _ this]
  show ?thesis using engine_reachable.start [of "Suc 1" 0] start_empty [of 1 0] demo_uuid_ok
    by (fastforce simp: form_field_def nul_def form_req_def get_cookie_strstr no_files_def demo_env_def home_of_def
      underscores_def demo_os_def)
qed


lemma first_summary: "length (coin_summary whole_ops ''btc'' [first_tx]) \<le> 120"
proof -
  have "figures whole_ops [first_tx] = \<lparr>amount_coin = 5, totalBuy_usd = 9, totalBuy_coin = 5, totalSell_usd = 0\<rparr>"
    by (simp add: first_tx_def figures_def whole_ops_def bought_def sold_def yielded_def strtol_val_def digits_val_def
      digit_val_def isspace_def isdigit_def)
  moreover have "dec_int 0 = ''0''" by code_simp
  ultimately show ?thesis by (simp add: coin_summary_def info_text_length whole_texts small_decs)
qed

theorem posted_coin_shown_witness:
  "\<exists>s s' r1 r2. crypto_post_coin demo_env s (cookie_req demo_uuid\<lparr>a_body := Some (tx_json ''BTC'' ''5'' ''Buy'' ''9'' ''31/01/2024'')\<rparr>) new_response =
      Inr (Some (s', r1)) \<and> code r1 = 201 \<and>
    crypto_get_coins demo_env s' (cookie_req demo_uuid) new_response = Inr (Some (s', r2)) \<and>
    take (payload_size r2) (payload r2) = json_list [coin_summary whole_ops ''btc'' [first_tx]]"
proof -
  obtain e e' i where e: "engine_reachable e" "\<forall>s \<in> set (sessions e). sid s \<noteq> demo_uuid @ [nul]"
    "http_session_login_user demo_uuid e ''bob'' ''pw'' = Inr (e', Some i)" "sm_capacity e' < 2 ^ 63"
    using demo_login by blast
  have "http_get_cookie (a_raw (cookie_req demo_uuid)) ''session_id'' = Some (demo_uuid @ [])"
    by (simp add: cookie_req_def get_cookie_strstr)
  note found = login_found [OF engine_reachable_inv [OF e(1)] demo_uuid_ok e(2-4) this]
  obtain fs where fs: "portfolio_at fs ''data/bob'' Map.empty"
    using new_portfolio [of "''data/bob''" "''data/''" "''bob''" no_files demo_os]
    by (auto simp: underscores_def no_files_def demo_os_def)
  let ?s = "\<lparr>ses = e', disk = fs\<rparr>"
  let ?q = "cookie_req demo_uuid\<lparr>a_body := Some (tx_json ''BTC'' ''5'' ''Buy'' ''9'' ''31/01/2024'')\<rparr>"
  let ?m = "Map.empty(''btc'' := Some ([] @ [first_tx]))"
  have so: "session_of demo_env ?s q ''bob''" if "a_raw q = a_raw (cookie_req demo_uuid)" for q
    using found that by (simp add: session_of_def demo_env_def)
  have home: "home_of demo_env ''bob'' = ''data/bob''" by (simp add: home_of_def demo_env_def underscores_def)
  have dm: "dom ?m = {''btc''}" by simp
  have n: "nul \<notin> set (f_text (env_fl demo_env) v)" for v by (simp add: demo_env_def whole_texts dec_int_no_nul)
  have fl: "env_fl demo_env = whole_ops" "env_os demo_env = demo_os" by (simp_all add: demo_env_def)
  have "\<exists>s' r1 r2 ts. crypto_post_coin demo_env ?s ?q new_response = Inr (Some (s', r1)) \<and> code r1 = 201 \<and> ses s' = ses ?s \<and>
    take (payload_size r1) (payload r1) = tx_json ''BTC'' ''5'' ''Buy'' ''9'' ''31/01/2024'' \<and>
    portfolio_at (disk s') (home_of demo_env ''bob'') ?m \<and>
    crypto_get_coins demo_env s' (cookie_req demo_uuid) new_response = Inr (Some (s', r2)) \<and> code r2 = 200 \<and> distinct ts \<and>
    set ts = dom ?m \<and>
    take (payload_size r2) (payload r2) = json_list (map (\<lambda>t. coin_summary (env_fl demo_env) t (the (?m t))) ts)"
  proof (rule posted_coin_shown [where nm = "''bob''" and m = Map.empty and t = "''btc''" and xs = "[]" and x = first_tx
        and a = 5 and b = 9])
    show "session_of demo_env ?s ?q ''bob''" "session_of demo_env ?s (cookie_req demo_uuid) ''bob''" by (rule so, simp)+
    show "portfolio_at (disk ?s) (home_of demo_env ''bob'') Map.empty" using fs by (simp add: home)
    show "places_entries (env_os demo_env)" unfolding fl by (rule demo_places)
    show "length (coin_summary (env_fl demo_env) t xs) \<le> 120" if "?m t = Some xs" for t xs
      using that first_summary unfolding fl by (auto split: if_splits)
    show "card (dom ?m) \<le> 67" unfolding dm by simp
  qed (use n fl lower_btc btc_ok first_nums first_good in
      \<open>simp_all add: cookie_req_def coin_txs_of_def last_tx_def sublist_Cons_right first_new\<close>)
  then obtain s' r1 r2 ts where r: "crypto_post_coin demo_env ?s ?q new_response = Inr (Some (s', r1))" "code r1 = 201"
    "crypto_get_coins demo_env s' (cookie_req demo_uuid) new_response = Inr (Some (s', r2))" "distinct ts" "set ts = dom ?m"
    "take (payload_size r2) (payload r2) = json_list (map (\<lambda>t. coin_summary (env_fl demo_env) t (the (?m t))) ts)" by blast
  have "take (payload_size r2) (payload r2) = json_list [coin_summary whole_ops ''btc'' [first_tx]]"
    using r(6) unfolding single_list [OF r(4) r(5) [unfolded dm]] fl by simp
  with r(1-3) show ?thesis by blast
qed

end
