(* ===== verification/ServerMain.thy ===== *)
theory ServerMain
  imports Services AsyncEngine Worker SessionTask App
begin

section \<open>The program (server/server.c)\<close>

text \<open>
  \<open>main\<close> reads its options, builds the server, starts the application and the listener, waits for the signal and takes
  everything down again. Inputs: what \<open>getopt_long\<close> reports, the number of processors, whether the socket of an address
  and port can be opened, and the files the application finds. The two services it hands to the pool are recorded
  in \<open>sys_handed\<close>, in order; what the pool does with them is the subject of \<open>Services\<close>.
\<close>

subsection \<open>The options\<close>

text \<open>\<open>ShortFlag\<close> is one of the letters that \<open>short_opts\<close> has and the \<open>switch\<close> has not.\<close>

datatype server_option =
    Port string | Ip string | Connections string | Tasks string | Key string | Pem string
  | Verbose | Help | ShortFlag | BadOption

record server_args =
  port_arg :: int
  ip_arg :: "string option"
  connections_arg :: int
  tasks_arg :: int
  key_arg :: "string option"
  pem_arg :: "string option"

definition no_args :: server_args where
  "no_args = \<lparr>port_arg = -1, ip_arg = None, connections_arg = 20, tasks_arg = 0, key_arg = None, pem_arg = None\<rparr>"

text \<open>An exit code, or the arguments.\<close>

fun server_options :: "server_option list \<Rightarrow> server_args \<Rightarrow> int + server_args" where
  "server_options [] a = Inr a"
| "server_options (Port s # os) a = server_options os (a\<lparr>port_arg := atoi s\<rparr>)"
| "server_options (Ip s # os) a = server_options os (a\<lparr>ip_arg := Some s\<rparr>)"
| "server_options (Connections s # os) a = server_options os (a\<lparr>connections_arg := atoi s\<rparr>)"
| "server_options (Tasks s # os) a = server_options os (a\<lparr>tasks_arg := atoi s\<rparr>)"
| "server_options (Key s # os) a = server_options os (a\<lparr>key_arg := Some s\<rparr>)"
| "server_options (Pem s # os) a = server_options os (a\<lparr>pem_arg := Some s\<rparr>)"
| "server_options (Verbose # os) a = server_options os a"
| "server_options (Help # os) a = Inl 0"
| "server_options (ShortFlag # os) a = Inl (-1)"
| "server_options (BadOption # os) a = Inl (-1)"

definition args_missing :: "server_args \<Rightarrow> bool" where
  "args_missing a \<longleftrightarrow> port_arg a = -1 \<or> port_arg a = 0 \<or> connections_arg a < 1 \<or> pem_arg a = None \<or> key_arg a = None"

subsection \<open>Starting\<close>

datatype service = SessionTask | Listener | Serve nat

record ('f, 'd) system =
  sys_pool :: "service async_ctrl"
  sys_server :: http_server_t
  sys_tree :: "('f, 'd) app_handler pathname option"
  sys_sessions :: "engine option"
  sys_env :: "('f, 'd) env"
  sys_handed :: "service list"

definition HTTP_DEFAULT_TASKS :: int where "HTTP_DEFAULT_TASKS = 0"

text \<open>\<open>http_server_init\<close>: the server, its tree and the engine of the tasks.\<close>

definition server_init :: "nat \<Rightarrow> int \<Rightarrow> ('f, 'd) env \<Rightarrow> ('f, 'd) system option" where
  "server_init nprocs n env =
     map_option (\<lambda>(pool, _). \<lparr>sys_pool = pool, sys_server = http_server_init, sys_tree = Some http_init_url_paths,
         sys_sessions = None, sys_env = env, sys_handed = []\<rparr>)
       (async_engine_start nprocs (nat (if n < 0 then HTTP_DEFAULT_TASKS else n)) async_ctrl)"

text \<open>\<open>app_start\<close> on it: if it starts the sessions, their task is handed to the pool.\<close>

definition start_app :: "(string \<Rightarrow> (nat \<times> user_t list) option) \<Rightarrow> app_option list \<Rightarrow> ('f, 'd) system \<Rightarrow> ('f, 'd) system res" where
  "start_app data opts s =
     bind_res (app_start data opts (sys_env s) (sys_sessions s) (sys_tree s)) (\<lambda>(env, e, t).
       Inr (s\<lparr>sys_env := env, sys_sessions := e, sys_tree := t,
         sys_handed := sys_handed s @ (if sys_sessions s = None \<and> e \<noteq> None then [SessionTask] else [])\<rparr>))"

text \<open>The end of \<open>main\<close>: an exit code, or the running server. The port of the socket has 16 bits.\<close>

definition server_main :: "nat \<Rightarrow> (string option \<Rightarrow> nat \<Rightarrow> int \<times> bool) \<Rightarrow> (string \<Rightarrow> (nat \<times> user_t list) option) \<Rightarrow>
    server_option list \<Rightarrow> app_option list \<Rightarrow> ('f, 'd) env \<Rightarrow> (int + ('f, 'd) system) option res" where
  "server_main nprocs socket data opts app_opts env =
     (case server_options opts no_args of
        Inl c \<Rightarrow> Inr (Some (Inl c))
      | Inr a \<Rightarrow>
          if args_missing a then Inr (Some (Inl (-1)))
          else case server_init nprocs (tasks_arg a) env of
            None \<Rightarrow> Inr None
          | Some s \<Rightarrow> bind_res (start_app data app_opts s) (\<lambda>s1.
              case socket (ip_arg a) (nat (port_arg a mod 2 ^ 16)) of (fd, bound) \<Rightarrow>
              case http_server_start fd bound (nat (connections_arg a)) (sys_server s1) of (sv, r) \<Rightarrow>
                Inr (Some (if r = 0 then Inr (s1\<lparr>sys_server := sv, sys_handed := sys_handed s1 @ [Listener]\<rparr>) else Inl 0))))"

subsection \<open>Stopping\<close>

text \<open>The blocks of the tree: of each node, named by its route, the array of children and the node.\<close>

datatype block = Children "nat list" | Node "nat list"

function http_url_path_clean :: "nat list \<Rightarrow> 'h pathname \<Rightarrow> block list" where
  "http_url_path_clean r t =
     concat (map (\<lambda>i. http_url_path_clean (r @ [i]) (paths t ! i)) [0..<length (paths t)]) @ [Children r, Node r]"
  by pat_completeness auto
termination
  by (relation "measure (\<lambda>(_, t). size t)") (auto simp: size_child)

declare http_url_path_clean.simps [simp del]

text \<open>\<open>http_session_engine_stop\<close>: what is left are the files, the count and the database. An engine that was not
  started has no task to await. \<open>seen\<close>: the task reads the flag once more before it saves; \<open>c\<close> is its counter.\<close>

definition http_session_engine_stop :: "bool \<Rightarrow> nat \<Rightarrow> engine option \<Rightarrow> (nat \<times> user_t list) option res" where
  "http_session_engine_stop seen c e =
     (case e of
        None \<Rightarrow> Inl NullDeref
      | Some e1 \<Rightarrow> bind_res (session_task [(True, \<not> seen), (False, False)] (c, e1)) (\<lambda>r.
          Inr (map_option (\<lambda>(_, _, e2). (meta_file e2, db_file e2)) r)))"

definition app_stop :: "bool \<Rightarrow> nat \<Rightarrow> ('f, 'd) system \<Rightarrow> (('f, 'd) system \<times> (nat \<times> user_t list)) option res" where
  "app_stop seen c s =
     bind_res (http_session_engine_stop seen c (sys_sessions s)) (\<lambda>r.
       Inr (map_option (Pair (s\<lparr>sys_sessions := None\<rparr>)) r))"

text \<open>The blocks of the tree it frees, and the stacks it unmaps.\<close>

definition http_server_clean :: "('f, 'd) system \<Rightarrow> (block list \<times> nat list) option res" where
  "http_server_clean s =
     bind_res (if sv_active (sys_server s) then http_server_stop (sys_server s) else Inr (Done (sys_server s))) (\<lambda>t. case t of
       Waits _ \<Rightarrow> Inr None
     | Done _ \<Rightarrow> Inr (Some (case sys_tree s of None \<Rightarrow> [] | Some t \<Rightarrow> http_url_path_clean [] t,
         snd (async_engine_stop (sys_pool s)))))"

text \<open>What \<open>main\<close> does after the signal.\<close>

definition server_shutdown :: "bool \<Rightarrow> nat \<Rightarrow> ('f, 'd) system \<Rightarrow> ((nat \<times> user_t list) \<times> block list) option res" where
  "server_shutdown seen c s =
     bind_res (http_server_stop (sys_server s)) (\<lambda>t. case t of
       Waits _ \<Rightarrow> Inr None
     | Done sv \<Rightarrow> bind_res (app_stop seen c (s\<lparr>sys_server := sv\<rparr>)) (\<lambda>r. case r of
         None \<Rightarrow> Inr None
       | Some (s1, files) \<Rightarrow> bind_res (http_server_clean s1) (\<lambda>r. Inr (map_option (\<lambda>(freed, _). (files, freed)) r))))"

subsection \<open>The tree is freed once\<close>

definition below :: "nat list \<Rightarrow> 'h pathname \<Rightarrow> block set" where
  "below r t = {b. \<exists>q. node_at t q \<noteq> None \<and> (b = Children (r @ q) \<or> b = Node (r @ q))}"

lemma below_split: "below r t = (\<Union>i < length (paths t). below (r @ [i]) (paths t ! i)) \<union> {Children r, Node r}"
proof (intro set_eqI iffI)
  fix b assume "b \<in> below r t"
  then obtain q where q: "node_at t q \<noteq> None" "b = Children (r @ q) \<or> b = Node (r @ q)" by (auto simp: below_def)
  then show "b \<in> (\<Union>i < length (paths t). below (r @ [i]) (paths t ! i)) \<union> {Children r, Node r}"
    by (cases q) (auto simp: below_def split: if_splits)
next
  fix b assume "b \<in> (\<Union>i < length (paths t). below (r @ [i]) (paths t ! i)) \<union> {Children r, Node r}"
  then consider i where "i < length (paths t)" "b \<in> below (r @ [i]) (paths t ! i)" | "b = Children r \<or> b = Node r" by auto
  then show "b \<in> below r t"
  proof cases
    case (1 i)
    then obtain q where "node_at (paths t ! i) q \<noteq> None" "b = Children (r @ i # q) \<or> b = Node (r @ i # q)"
      by (auto simp: below_def)
    with 1(1) show ?thesis unfolding below_def by (intro CollectI exI [of _ "i # q"]) simp
  next
    case 2
    then show ?thesis unfolding below_def by (intro CollectI exI [of _ "[]"]) simp
  qed
qed

lemma below_apart: "i \<noteq> j \<Longrightarrow> below (r @ [i]) t \<inter> below (r @ [j]) u = {}"
  by (auto simp: below_def)

lemma below_self: "Children r \<notin> below (r @ [i]) t" "Node r \<notin> below (r @ [i]) t"
  by (auto simp: below_def)

lemma distinct_concat_map:
  assumes "distinct xs" "\<And>x. x \<in> set xs \<Longrightarrow> distinct (f x)" "\<And>x y. x \<in> set xs \<Longrightarrow> y \<in> set xs \<Longrightarrow> x \<noteq> y \<Longrightarrow> set (f x) \<inter> set (f y) = {}"
  shows "distinct (concat (map f xs))"
  using assms
proof (induction xs)
  case (Cons x xs)
  then have "distinct (concat (map f xs))" "distinct (f x)" by auto
  moreover have "set (f x) \<inter> set (f y) = {}" if "y \<in> set xs" for y using Cons.prems that by auto
  ultimately show ?case by auto
qed simp

lemma clean_tree: "distinct (http_url_path_clean r t) \<and> set (http_url_path_clean r t) = below r t"
proof (induction r t rule: http_url_path_clean.induct)
  case (1 r t)
  let ?f = "\<lambda>i. http_url_path_clean (r @ [i]) (paths t ! i)"
  have IH: "distinct (?f i)" "set (?f i) = below (r @ [i]) (paths t ! i)" if "i < length (paths t)" for i using 1 that by auto
  have "set (?f i) \<inter> set (?f j) = {}" if "i < length (paths t)" "j < length (paths t)" "i \<noteq> j" for i j
    using below_apart [OF that(3)] IH(2) that(1,2) by simp
  then have "distinct (concat (map ?f [0..<length (paths t)]))"
    by (intro distinct_concat_map) (simp_all add: IH(1))
  moreover have s: "set (concat (map ?f [0..<length (paths t)])) = (\<Union>i < length (paths t). below (r @ [i]) (paths t ! i))"
    using IH(2) by auto
  moreover have "Children r \<notin> set (concat (map ?f [0..<length (paths t)]))" "Node r \<notin> set (concat (map ?f [0..<length (paths t)]))"
    unfolding s by (simp_all add: below_self)
  ultimately show ?case unfolding http_url_path_clean.simps [of r t] below_split [of r t] by (simp del: set_concat)
qed

subsection \<open>Starting up\<close>

lemma engine_starts:
  assumes "0 < default_threads nprocs n"
  shows "\<exists>c p0. async_engine_start nprocs n (async_ctrl :: 'w async_ctrl) = Some (c, EAsync_Success) \<and>
    threadPool_create nprocs (default_threads nprocs n * 2) n = Some p0 \<and> engine_threads c = Some (threadPool_dispach p0) \<and>
    threads_count p0 = default_threads nprocs n"
proof -
  obtain p0 :: "'w pool" where p: "threadPool_create nprocs 0 n = Some p0" using create_default [OF assms] by blast
  then have "threads_count p0 = default_threads nprocs n"
    by (auto simp: threadPool_create_def Let_def split: option.splits)
  then show ?thesis using p by (simp add: async_engine_start_def async_ctrl_def create_default_size [symmetric])
qed

lemma app_starts:
  fixes s :: "('f, 'd) system"
  assumes "app_options app_opts None 0 = (root, timeout)" "sys_tree s = Some http_init_url_paths" "sys_sessions s = None"
  shows "\<exists>s1 t. start_app data app_opts s = Inr s1 \<and> sys_pool s1 = sys_pool s \<and> sys_server s1 = sys_server s \<and>
    sys_handed s1 = sys_handed s @ (if root = None then [] else [SessionTask]) \<and>
    sys_sessions s1 = map_option (\<lambda>r. http_session_engine_start 10 (data (r @ ''/data/.server/'')) timeout) root \<and>
    sys_tree s1 = Some t \<and> (\<forall>k. valid_key k \<longrightarrow> key_handler t k = (if root = None then None else map_of app_routes k))"
proof (cases root)
  case None
  then show ?thesis using assms by (simp add: start_app_def app_start_def key_handler_init)
next
  case (Some r)
  from registered_routes [OF app_routes_valid] obtain t :: "('f, 'd) app_handler pathname" where
    t: "register_all register_key http_init_url_paths app_routes = Some t"
      "\<forall>k. valid_key k \<longrightarrow> key_handler t k = map_of app_routes k" by blast
  from register_all_routes [OF t(1)] t(2) assms Some show ?thesis by (simp add: start_app_def app_start_def)
qed

lemma listening:
  assumes "http_server_start fd bound n http_server_init = (sv, r)"
  shows "r = (if fd < 0 \<or> \<not> bound then -1 else 0) \<and> (r = 0 \<longrightarrow> server_reachable sv \<and> maxConnections sv = (if n = 0 then 1 else n))"
proof (cases "fd < 0 \<or> \<not> bound")
  case True
  with assms show ?thesis by (auto simp: http_server_start_def Let_def)
next
  case False
  then have "r = 0" "maxConnections sv = (if n = 0 then 1 else n)" using assms by (auto simp: http_server_start_def Let_def)
  with assms False show ?thesis using server_reachable.start [of fd n sv] by auto
qed

lemma main_outcome:
  fixes env :: "('f, 'd) env"
  assumes "server_options opts no_args = Inr a" "\<not> args_missing a" "0 < default_threads nprocs (nat (tasks_arg a))"
    and "app_options app_opts None 0 = (root, timeout)"
  shows "case socket (ip_arg a) (nat (port_arg a mod 2 ^ 16)) of (fd, bound) \<Rightarrow>
    if fd < 0 \<or> \<not> bound then server_main nprocs socket data opts app_opts env = Inr (Some (Inl 0))
    else \<exists>s p. server_main nprocs socket data opts app_opts env = Inr (Some (Inr s)) \<and>
      engine_threads (sys_pool s) = Some p \<and> running p \<and> threads_count p = default_threads nprocs (nat (tasks_arg a)) \<and>
      server_reachable (sys_server s) \<and> maxConnections (sys_server s) = nat (connections_arg a) \<and>
      sys_handed s = (if root = None then [Listener] else [SessionTask, Listener]) \<and>
      (sys_sessions s = None \<longleftrightarrow> root = None) \<and>
      (\<forall>k. valid_key k \<longrightarrow> (\<exists>t. sys_tree s = Some t \<and> key_handler t k = (if root = None then None else map_of app_routes k)))"
proof -
  have n: "nat (if tasks_arg a < 0 then HTTP_DEFAULT_TASKS else tasks_arg a) = nat (tasks_arg a)" by (simp add: HTTP_DEFAULT_TASKS_def)
  obtain c p0 where c: "async_engine_start nprocs (nat (tasks_arg a)) (async_ctrl :: service async_ctrl) = Some (c, EAsync_Success)"
    "engine_threads c = Some (threadPool_dispach p0)" "threads_count p0 = default_threads nprocs (nat (tasks_arg a))"
    using engine_starts [OF assms(3)] by blast
  let ?s = "\<lparr>sys_pool = c, sys_server = http_server_init, sys_tree = Some http_init_url_paths, sys_sessions = None, sys_env = env,
    sys_handed = []\<rparr>"
  have init: "server_init nprocs (tasks_arg a) env = Some ?s" unfolding server_init_def n c(1) by simp
  from app_starts [OF assms(4), of ?s data] obtain s1 t where s1: "start_app data app_opts ?s = Inr s1"
    "sys_pool s1 = c" "sys_server s1 = http_server_init" "sys_handed s1 = (if root = None then [] else [SessionTask])"
    "sys_sessions s1 = None \<longleftrightarrow> root = None" "sys_tree s1 = Some t"
    "\<forall>k. valid_key k \<longrightarrow> key_handler t k = (if root = None then None else map_of app_routes k)" by auto
  obtain fd bound where sock: "socket (ip_arg a) (nat (port_arg a mod 2 ^ 16)) = (fd, bound)" by fastforce
  obtain sv r where sv: "http_server_start fd bound (nat (connections_arg a)) http_server_init = (sv, r)" by fastforce
  have "server_main nprocs socket data opts app_opts env =
      Inr (Some (if r = 0 then Inr (s1\<lparr>sys_server := sv, sys_handed := sys_handed s1 @ [Listener]\<rparr>) else Inl 0))"
    using assms(1,2) init s1(1,3) sock sv by (simp add: server_main_def)
  moreover have "0 < nat (connections_arg a)" using assms(2) by (simp add: args_missing_def)
  ultimately show ?thesis using listening [OF sv] c s1 unfolding sock by (auto simp: threadPool_dispach_def)
qed

subsection \<open>Properties\<close>

text \<open>What \<open>main\<close> does with its options: it leaves with a code before anything is started, or with 0 after the
  application has started if the socket cannot be opened; else the server runs with the threads asked for, its
  table of connections is ready, the ten routes are registered, and with a root the session task has been handed to the pool before
  the listener, without one only the listener.\<close>

theorem server_runs:
  fixes env :: "('f, 'd) env"
  assumes "server_options opts no_args = Inr a" "\<not> args_missing a" "0 < default_threads nprocs (nat (tasks_arg a))"
    and "app_options app_opts None 0 = (root, timeout)"
  shows "case socket (ip_arg a) (nat (port_arg a mod 2 ^ 16)) of (fd, bound) \<Rightarrow>
    if fd < 0 \<or> \<not> bound then server_main nprocs socket data opts app_opts env = Inr (Some (Inl 0))
    else \<exists>s p. server_main nprocs socket data opts app_opts env = Inr (Some (Inr s)) \<and>
      engine_threads (sys_pool s) = Some p \<and> running p \<and> threads_count p = default_threads nprocs (nat (tasks_arg a)) \<and>
      server_reachable (sys_server s) \<and> maxConnections (sys_server s) = nat (connections_arg a) \<and>
      sys_handed s = (if root = None then [Listener] else [SessionTask, Listener]) \<and>
      (sys_sessions s = None \<longleftrightarrow> root = None) \<and>
      (\<forall>k. valid_key k \<longrightarrow> (\<exists>t. sys_tree s = Some t \<and> key_handler t k = (if root = None then None else map_of app_routes k)))"
  using assms by (rule main_outcome)

theorem server_runs_witness:
  "\<exists>s :: (int, int) system. server_main 4 (\<lambda>_ port. (3, port = 7777)) (\<lambda>_. None)
      [Port ''7777'', Tasks ''6'', Key ''k'', Pem ''c''] [Root ''app''] demo_env = Inr (Some (Inr s)) \<and>
    sys_handed s = [SessionTask, Listener] \<and> maxConnections (sys_server s) = 20"
proof -
  have n: "atoi ''7777'' = 7777" "atoi ''6'' = 6" by code_simp+
  let ?a = "\<lparr>port_arg = 7777, ip_arg = None, connections_arg = 20, tasks_arg = 6, key_arg = Some ''k'', pem_arg = Some ''c''\<rparr>"
  have o: "server_options [Port ''7777'', Tasks ''6'', Key ''k'', Pem ''c''] no_args = Inr ?a"
    by (simp add: no_args_def n)
  have "\<not> args_missing ?a" "0 < default_threads 4 (nat (tasks_arg ?a))" "app_options [Root ''app''] None 0 = (Some ''app'', 0)"
    by (simp_all add: args_missing_def default_threads_def)
  from server_runs [OF o this, of "\<lambda>_ port. (3, port = 7777)" "\<lambda>_. None" demo_env] show ?thesis by auto
qed

text \<open>A state of the server's pool: the services were handed to it by \<open>main\<close> only, before any request, and hold their threads.\<close>

definition pool_of :: "('f, 'd) system \<Rightarrow> service pool \<Rightarrow> bool" where
  "pool_of s p \<longleftrightarrow> (\<exists>p0. engine_threads (sys_pool s) = Some p0 \<and> threads_count p = threads_count p0) \<and>
     (\<exists>n. 0 < n \<and> held_run {SessionTask, Listener} n p) \<and> prefix (sys_handed s) (submitted p) \<and>
     filter (\<lambda>w. w \<in> {SessionTask, Listener}) (submitted p) = sys_handed s"

lemma services_hold:
  assumes "held_run {SessionTask, Listener} n p" "0 < n" "prefix (sys_handed s) (submitted p)"
    and "set (sys_handed s) \<subseteq> {SessionTask, Listener}"
    and "filter (\<lambda>w. w \<in> {SessionTask, Listener}) (submitted p) = sys_handed s"
  shows "if threads_count p \<le> length (sys_handed s) then set (started p) \<subseteq> set (take (threads_count p) (sys_handed s))
    else contents (workQueue p) \<noteq> [] \<longrightarrow>
      (\<exists>t p'. t < threads_count p \<and> \<not> serving {SessionTask, Listener} p t \<and> worker_step t p p')"
proof (cases "threads_count p \<le> length (sys_handed s)")
  case True
  with assms(3) have take: "take (threads_count p) (submitted p) = take (threads_count p) (sys_handed s)"
    by (auto simp: prefix_def)
  then have "set (take (threads_count p) (submitted p)) \<subseteq> {SessionTask, Listener}" using assms(4) set_take_subset by fastforce
  from held_starves [OF assms(1,2) this] have "length (started p) \<le> threads_count p" by simp
  moreover have "started p = take (length (started p)) (submitted p)"
    by (rule started_first [OF pool_reachable_inv [OF held_reachable [OF assms(1)] assms(2)]])
  ultimately have "set (started p) \<subseteq> set (take (threads_count p) (submitted p))"
    using set_take_subset_set_take by metis
  with True show ?thesis by (simp only: take if_True)
next
  case False
  have "submitted p = started p @ map (\<lambda>i. the (tasks p ! i)) (contents (workQueue p))"
    using pool_reachable_inv [OF held_reachable [OF assms(1)] assms(2)] by (simp add: pool_inv_def slots_ok_def)
  then have "length (filter (\<lambda>w. w \<in> {SessionTask, Listener}) (started p)) \<le> length (sys_handed s)"
    unfolding assms(5) [symmetric] by simp
  with False held_room [OF assms(1,2)] show ?thesis by fastforce
qed

text \<open>Property C30. The two services hold their threads. With a root, a server that has at most two threads (\<open>-t 2\<close>, or the
  default on a machine of three processors) never serves a request, and with one thread the listener itself never runs, so that
  \<open>http_server_stop\<close> waits for it for ever. With three threads waiting work is never stuck: some thread that holds no
  service can take a step.\<close>

theorem services_need_threads:
  assumes "server_main nprocs socket data opts app_opts env = Inr (Some (Inr s))"
    and "server_options opts no_args = Inr a" "app_options app_opts None 0 = (Some root, timeout)"
    and "0 < default_threads nprocs (nat (tasks_arg a))" "pool_of s p"
  shows "let k = default_threads nprocs (nat (tasks_arg a)) in
    (k \<le> 2 \<longrightarrow> (\<forall>i. Serve i \<notin> set (started p))) \<and> (k = 1 \<longrightarrow> Listener \<notin> set (started p)) \<and>
    (3 \<le> k \<and> contents (workQueue p) \<noteq> [] \<longrightarrow>
      (\<exists>t p'. t < k \<and> \<not> serving {SessionTask, Listener} p t \<and> worker_step t p p'))"
proof -
  let ?k = "default_threads nprocs (nat (tasks_arg a))"
  have "\<not> args_missing a" using assms(1,2) by (auto simp: server_main_def)
  from main_outcome [OF assms(2) this assms(4,3), of socket data env] assms(1) have
    s: "sys_handed s = [SessionTask, Listener]" "\<exists>p0. engine_threads (sys_pool s) = Some p0 \<and> threads_count p0 = ?k"
    by (auto split: prod.splits if_splits)
  with assms(5) obtain n where p: "threads_count p = ?k" "0 < n" "held_run {SessionTask, Listener} n p"
    "prefix [SessionTask, Listener] (submitted p)"
    "filter (\<lambda>w. w \<in> {SessionTask, Listener}) (submitted p) = [SessionTask, Listener]" by (auto simp: pool_of_def)
  have sub: "set (sys_handed s) \<subseteq> {SessionTask, Listener}" using s(1) by simp
  note hold = services_hold [OF p(3,2), of s, unfolded s(1) p(1), OF p(4) _ p(5)]
  show ?thesis using hold assms(4) by (auto simp: Let_def take_Cons split: if_splits nat.splits)
qed

lemma handed_over:
  "\<exists>p. held_run {SessionTask, Listener} 4 p \<and> submitted p = [SessionTask, Listener, Serve 0] \<and> threads_count p = 2"
proof -
  obtain p0 :: "service pool" where p0: "threadPool_create 4 4 2 = Some p0" "contents (tasksQueue p0) = [0..<4]" "threads_count p0 = 2"
    using ring.enq_all_room [of "queue_create 4" "[0..<4]"]
    by (auto simp: threadPool_create_def default_size_def default_threads_def Let_def)
  have "submitted p0 = []" "cpcs p0 0 = CIdle"
    using p0(1) by (auto simp: threadPool_create_def Let_def split: option.splits)
  with p0 have p: "held_run {SessionTask, Listener} 4 (threadPool_dispach p0)" "submitted (threadPool_dispach p0) = []"
    "cpcs (threadPool_dispach p0) 0 = CIdle" "threads_count (threadPool_dispach p0) = 2"
    "contents (tasksQueue (threadPool_dispach p0)) = [0..<4]"
    using held_run.held_start [OF p0(1)] by (simp_all add: threadPool_dispach_def)
  from held_submit [OF p(1) _ p(3), of SessionTask] p obtain p1 where p1: "held_run {SessionTask, Listener} 4 p1"
    "submitted p1 = [SessionTask]" "cpcs p1 0 = CIdle" "threads_count p1 = 2" "length (contents (tasksQueue p1)) = 3" by auto
  from held_submit [OF p1(1) _ p1(3), of Listener] p1 obtain p2 where p2: "held_run {SessionTask, Listener} 4 p2"
    "submitted p2 = [SessionTask, Listener]" "cpcs p2 0 = CIdle" "threads_count p2 = 2" "length (contents (tasksQueue p2)) = 2" by fastforce
  from held_submit [OF p2(1) _ p2(3), of "Serve 0"] p2 show ?thesis by fastforce
qed

theorem services_need_threads_witness:
  "\<exists>(s :: (int, int) system) p. server_main 4 (\<lambda>_ _. (3, True)) (\<lambda>_. None)
      [Port ''7777'', Tasks ''2'', Key ''k'', Pem ''c''] [Root ''app''] demo_env = Inr (Some (Inr s)) \<and> pool_of s p \<and>
    submitted p = [SessionTask, Listener, Serve 0] \<and> Serve 0 \<notin> set (started p)"
proof -
  have n: "atoi ''7777'' = 7777" "atoi ''2'' = 2" by code_simp+
  let ?a = "\<lparr>port_arg = 7777, ip_arg = None, connections_arg = 20, tasks_arg = 2, key_arg = Some ''k'', pem_arg = Some ''c''\<rparr>"
  have o: "server_options [Port ''7777'', Tasks ''2'', Key ''k'', Pem ''c''] no_args = Inr ?a"
    by (simp add: no_args_def n)
  have r: "\<not> args_missing ?a" "default_threads 4 (nat (tasks_arg ?a)) = 2" "app_options [Root ''app''] None 0 = (Some ''app'', 0)"
    by (simp_all add: args_missing_def default_threads_def)
  from main_outcome [OF o r(1) _ r(3), of 4 "\<lambda>_ _. (3, True)" "\<lambda>_. None" demo_env] r(2) obtain s :: "(int, int) system" and p0 where
    s: "server_main 4 (\<lambda>_ _. (3, True)) (\<lambda>_. None) [Port ''7777'', Tasks ''2'', Key ''k'', Pem ''c''] [Root ''app''] demo_env = Inr (Some (Inr s))"
      "engine_threads (sys_pool s) = Some p0" "threads_count p0 = 2" "sys_handed s = [SessionTask, Listener]" by auto
  obtain p where p: "held_run {SessionTask, Listener} 4 p" "submitted p = [SessionTask, Listener, Serve 0]" "threads_count p = 2"
    using handed_over by blast
  have "\<exists>n. 0 < n \<and> held_run {SessionTask, Listener} n p" using p(1) by (intro exI [of _ 4]) simp
  then have pool: "pool_of s p" unfolding pool_of_def s(4) using s(2,3) p by simp
  from services_need_threads [OF s(1) o r(3) _ pool] r(2) s(1) pool p(2) show ?thesis by (auto simp: Let_def)
qed



end
