(* ===== verification/Replies.thy ===== *)
theory Replies
  imports App
begin

section \<open>The replies of the application on the wire (app/app.c over server/http.c)\<close>

text \<open>
  What the handlers build is what \<open>http_process_request\<close> sends: every response a handler returns has a status line, a readable header
  and a body as long as it says.
\<close>

definition building :: "http_response_t \<Rightarrow> bool" where
  "building r \<longleftrightarrow> response_ok r \<and> payload_size r \<le> length (payload r)"

definition sendable :: "http_response_t \<Rightarrow> bool" where
  "sendable r \<longleftrightarrow> building r \<and> status_line r \<noteq> None \<and> code r \<in> {200, 201, 302, 303, 400, 401}"

definition known_code :: "int \<Rightarrow> bool" where
  "known_code c \<longleftrightarrow>
     c \<in> {HTTP_200_OK, HTTP_201_CREATED, HTTP_302_FOUND, HTTP_303_SEE_OTHER, HTTP_400_BAD_REQUEST, HTTP_401_UNAUTHORIZED}"

lemma known_codes [simp]:
  "known_code HTTP_200_OK" "known_code HTTP_201_CREATED" "known_code HTTP_302_FOUND" "known_code HTTP_303_SEE_OTHER"
  "known_code HTTP_400_BAD_REQUEST" "known_code HTTP_401_UNAUTHORIZED"
  by (simp_all add: known_code_def)

lemma building_new [simp]: "building new_response"
  using new_response_ok by (simp add: building_def) (simp add: new_response_def)

lemma sendable_building: "sendable r \<Longrightarrow> building r"
  by (simp add: sendable_def)

lemma sendable_updates [simp]:
  "sendable (r\<lparr>content_type := ct\<rparr>) = sendable r" "sendable (r\<lparr>location := loc\<rparr>) = sendable r"
  by (simp_all add: sendable_def building_def response_ok_def header_text_def)

lemma known_code_set:
  assumes "http_set_response_code r c = Inr r'" "known_code c"
  shows "\<exists>n st. r' = r\<lparr>code := n, status_line := Some st\<rparr> \<and> n \<in> {200, 201, 302, 303, 400, 401}"
  using assms unfolding known_code_def http_set_response_code_def HttpResponses_def HTTP_200_OK_def HTTP_201_CREATED_def
    HTTP_302_FOUND_def HTTP_303_SEE_OTHER_def HTTP_400_BAD_REQUEST_def HTTP_401_UNAUTHORIZED_def
  by (elim insertE emptyE) auto

lemma set_code_sendable:
  assumes "http_set_response_code r c = Inr r'" "known_code c" "building r"
  shows "sendable r'"
proof -
  from known_code_set [OF assms(1,2)] obtain n st where "r' = r\<lparr>code := n, status_line := Some st\<rparr>"
    "n \<in> {200, 201, 302, 303, 400, 401}" by blast
  with assms(3) show ?thesis by (auto simp: sendable_def building_def response_ok_def header_text_def)
qed

lemma set_type_sendable: "http_set_content_type r type cs = Inr r' \<Longrightarrow> sendable r \<Longrightarrow> sendable r'"
  by (auto simp: http_set_content_type_def Let_def bind_res_Inr)

lemma set_redirect_sendable: "http_set_redirect r loc = Inr r' \<Longrightarrow> sendable r \<Longrightarrow> sendable r'"
  by (auto simp: http_set_redirect_def bind_res_Inr)

lemma set_body_sendable: "sendable r \<Longrightarrow> len \<le> length text \<Longrightarrow> sendable (http_set_body r len text cl)"
  by (auto simp: http_set_body_def sendable_def building_def response_ok_def header_text_def)

lemma set_head_sendable: "set_head r c type = Inr r' \<Longrightarrow> known_code c \<Longrightarrow> building r \<Longrightarrow> sendable r'"
  unfolding set_head_def using set_code_sendable set_type_sendable by (fastforce simp: bind_res_Inr)

lemma literal_sendable: "literal_reply r c len text = Inr r' \<Longrightarrow> known_code c \<Longrightarrow> building r \<Longrightarrow> len \<le> length text + 1 \<Longrightarrow> sendable r'"
  unfolding literal_reply_def using set_head_sendable set_body_sendable by (fastforce simp: bind_res_Inr)

lemma redirect_sendable: "redirect_reply r c loc = Inr r' \<Longrightarrow> known_code c \<Longrightarrow> building r \<Longrightarrow> sendable r'"
  unfolding redirect_reply_def using set_head_sendable set_redirect_sendable by (fastforce simp: bind_res_Inr)

lemma error_sendable:
  "not_found_reply r = Inr r' \<Longrightarrow> building r \<Longrightarrow> sendable r'"
  "bad_request_reply r = Inr r' \<Longrightarrow> building r \<Longrightarrow> sendable r'"
  "unauthorized_reply r = Inr r' \<Longrightarrow> building r \<Longrightarrow> sendable r'"
  unfolding not_found_reply_def bad_request_reply_def unauthorized_reply_def by (erule literal_sendable; simp)+

lemma file_sendable:
  assumes "file_reply fs base name set_type r = Inr r'" "building r"
    and "\<And>p r r'. set_type p r = Inr r' \<Longrightarrow> sendable r \<Longrightarrow> sendable r'"
  shows "sendable r'"
proof -
  from assms(1) obtain p where p: "gen_path 256 base name = Inr p" by (auto simp: file_reply_def bind_res_Inr)
  obtain len cont where f: "get_file fs p = (len, cont)" by fastforce
  show ?thesis
  proof (cases "len = 0")
    case True
    with assms p f error_sendable(1) show ?thesis by (simp add: file_reply_def)
  next
    case False
    with assms(1) p f obtain r1 r2 where r: "http_set_response_code r HTTP_200_OK = Inr r1" "set_type p r1 = Inr r2"
      "r' = http_set_body r2 len cont True" by (auto simp: file_reply_def bind_res_Inr)
    moreover have "len \<le> length cont" using f by (auto simp: get_file_def split: option.splits)
    ultimately show ?thesis using set_code_sendable [OF r(1) _ assms(2)] assms(3) set_body_sendable by fastforce
  qed
qed

lemma file_type_sendable: "set_content_type p r = Inr r' \<Longrightarrow> sendable r \<Longrightarrow> sendable r'"
  unfolding set_content_type_def using set_type_sendable
  by (auto simp: Let_def bind_res_Inr split: option.splits if_splits)

text \<open>The cookie of a login: what the code writes is terminated.\<close>

lemma read_str_no_nul: "read_str b = Inr s \<Longrightarrow> nul \<notin> set s"
  by (induction b arbitrary: s rule: read_str.induct) (auto simp: bind_res_Inr split: if_splits)

lemma add_header_building:
  assumes "http_add_header_entry r n v = Inr r'" "building r" "nul \<notin> set n" "nul \<notin> set v"
  shows "building r'"
proof -
  have r: "header_size r = 0" "length (header_buf r) = header_buf_size r" "payload_size r \<le> length (payload r)"
    using assms(2) by (simp_all add: building_def response_ok_def)
  have "length (header_entry n v) < grown (header_buf_size r) (length (header_entry n v))"
    using add_header_fault [OF r(1,2), of n v OutOfBounds] assms(1) by force
  from add_header_ok [OF r(1,2) assms(3,4) this] assms(1) obtain b where
    "r' = r\<lparr>header_buf_size := grown (header_buf_size r) (length (header_entry n v)), header_buf := b\<rparr>"
    "length b = grown (header_buf_size r) (length (header_entry n v))" "read_str b = Inr (header_entry n v)" by auto
  with r show ?thesis by (simp add: building_def response_ok_def header_text_def)
qed

lemma cookie_building:
  assumes "http_session_set_cookie e i r = Inr r'" "building r"
  shows "building r'"
proof -
  from assms(1) obtain b v where v: "read_str b = Inr v" "http_set_cookie r ''session_id'' v = Inr r'"
    by (auto simp: http_session_set_cookie_def bind_res_Inr)
  have n: "nul \<notin> set ''session_id''" "nul \<notin> set v" using read_str_no_nul [OF v(1)] by (auto simp: nul_def)
  then have "nul \<notin> set ''Set-Cookie''" "nul \<notin> set (''session_id='' @ v)" by (auto simp: nul_def)
  with add_header_building v(2) set_cookie_entry [OF n, of r] assms(2) show ?thesis by simp
qed

lemma answer_sendable: "answer s m = Inr (Some (s', r')) \<Longrightarrow> (\<And>r. m = Inr r \<Longrightarrow> sendable r) \<Longrightarrow> sendable r'"
  by (auto simp: answer_def bind_res_Inr)

subsection \<open>The handlers\<close>

lemma page_sendable:
  assumes "guest_page page env s q r = Inr (Some (s', r'))" "building r"
  shows "sendable r'"
  using assms error_sendable(2) redirect_sendable file_sendable [OF _ _ file_type_sendable]
  by (auto simp: guest_page_def bind_res_Inr elim!: answer_sendable split: if_splits)

lemma resource_sendable:
  assumes "crypto_get_resource env s q r = Inr (Some (s', r'))" "building r"
  shows "sendable r'"
  using assms error_sendable(2) redirect_sendable file_sendable [OF _ _ file_type_sendable]
  by (auto simp: crypto_get_resource_def elim!: answer_sendable split: if_splits option.splits)

lemma home_sendable:
  assumes "crypto_get_home env s q r = Inr (Some (s', r'))" "building r"
  shows "sendable r'"
  using assms error_sendable(2) redirect_sendable file_sendable [OF _ _ set_type_sendable]
  by (auto simp: crypto_get_home_def bind_res_Inr elim!: answer_sendable split: if_splits)

lemma credentials_sendable:
  assumes "with_credentials s q r k = Inr (Some (s', r'))" "building r"
    and "\<And>nm pw. k nm pw = Inr (Some (s', r')) \<Longrightarrow> sendable r'"
  shows "sendable r'"
  using assms error_sendable(2) set_head_sendable
  by (auto simp: with_credentials_def bind_res_Inr elim!: answer_sendable split: if_splits option.splits prod.splits)

lemma register_sendable:
  assumes "crypto_post_register env s q r = Inr (Some (s', r'))" "building r"
  shows "sendable r'"
  using assms(1) unfolding crypto_post_register_def
proof (rule credentials_sendable [OF _ assms(2)])
  fix nm pw
  assume run: "bind_res (http_session_register_user (env_junk env) (ses s) nm pw) (\<lambda>reg. case reg of
       None \<Rightarrow> Inr None
     | Some (e, ok) \<Rightarrow>
         bind_res (if ok then Inr r else bad_request_reply r) (\<lambda>r.
         let (fs, _) = PortfolioCreate (env_os env) (disk s) (portfolios_path env) nm in
         bind_res (set_head r HTTP_201_CREATED ''application/json'') (\<lambda>r.
         Inr (Some (\<lparr>ses = e, disk = fs\<rparr>, http_set_body r (length registered_text) (registered_text @ [nul]) False))))) =
     Inr (Some (s', r'))"
  then obtain e ok where e: "http_session_register_user (env_junk env) (ses s) nm pw = Inr (Some (e, ok))"
    by (auto simp: bind_res_Inr split: option.splits)
  obtain fs k where fs: "PortfolioCreate (env_os env) (disk s) (portfolios_path env) nm = (fs, k)" by fastforce
  from run obtain r1 r2 where r: "(if ok then Inr r else bad_request_reply r) = Inr r1"
    "set_head r1 HTTP_201_CREATED ''application/json'' = Inr r2"
    "r' = http_set_body r2 (length registered_text) (registered_text @ [nul]) False"
    unfolding e fs by (auto simp: bind_res_Inr)
  have "building r1" using r(1) assms(2) error_sendable(2) sendable_building by (auto split: if_splits)
  from set_head_sendable [OF r(2) _ this] r(3) set_body_sendable show "sendable r'" by simp
qed

lemma login_sendable:
  assumes "crypto_post_login env s q r = Inr (Some (s', r'))" "building r"
  shows "sendable r'"
  using assms(1) unfolding crypto_post_login_def
proof (rule credentials_sendable [OF _ assms(2)])
  fix nm pw
  assume run: "bind_res (http_session_login_user (env_uuid env) (ses s) nm pw) (\<lambda>(e, session). case session of
         None \<Rightarrow> answer (s\<lparr>ses := e\<rparr>) (literal_reply r HTTP_401_UNAUTHORIZED 24 ''<h1>401 UNAUTHORIZED</h1>'')
       | Some i \<Rightarrow>
           answer (s\<lparr>ses := e\<rparr>)
             (bind_res (http_session_set_cookie e i r) (\<lambda>r. redirect_reply r HTTP_302_FOUND ''/home''))) = Inr (Some (s', r'))"
  then obtain e session where e: "http_session_login_user (env_uuid env) (ses s) nm pw = Inr (e, session)"
    by (auto simp: bind_res_Inr)
  show "sendable r'"
  proof (cases session)
    case None
    with run e have "answer (s\<lparr>ses := e\<rparr>) (literal_reply r HTTP_401_UNAUTHORIZED 24 ''<h1>401 UNAUTHORIZED</h1>'') = Inr (Some (s', r'))"
      by simp
    then show ?thesis by (rule answer_sendable) (erule literal_sendable, simp_all add: assms(2))
  next
    case (Some i)
    with run e obtain r1 where r1: "http_session_set_cookie e i r = Inr r1" "redirect_reply r1 HTTP_302_FOUND ''/home'' = Inr r'"
      by (auto simp: answer_def bind_res_Inr)
    from redirect_sendable [OF r1(2) _ cookie_building [OF r1(1) assms(2)]] show ?thesis by simp
  qed
qed

lemma logout_sendable:
  assumes "crypto_post_logout env s q r = Inr (Some (s', r'))" "building r"
  shows "sendable r'"
proof -
  from assms(1) obtain e where "answer (s\<lparr>ses := e\<rparr>) (redirect_reply r HTTP_303_SEE_OTHER ''/login'') = Inr (Some (s', r'))"
    by (auto simp: crypto_post_logout_def bind_res_Inr)
  then show ?thesis by (rule answer_sendable) (erule redirect_sendable, simp_all add: assms(2))
qed

lemma coins_sendable:
  assumes "crypto_get_coins env s q r = Inr (Some (s', r'))" "building r"
  shows "sendable r'"
  using assms error_sendable(2,3) set_head_sendable set_body_sendable
  by (fastforce simp: crypto_get_coins_def bind_res_Inr split: option.splits if_splits prod.splits elim: answer_sendable)

lemma coin_sendable:
  assumes "crypto_get_coin env s q r = Inr (Some (s', r'))" "building r"
  shows "sendable r'"
proof -
  from assms(1) obtain session where g: "http_session_get (ses s) (a_raw q) = Inr session"
    by (auto simp: crypto_get_coin_def bind_res_Inr)
  show ?thesis
  proof (cases session)
    case None
    with assms(1) g have "answer s (unauthorized_reply r) = Inr (Some (s', r'))" by (simp add: crypto_get_coin_def)
    then show ?thesis by (rule answer_sendable) (erule error_sendable(3), rule assms(2))
  next
    case (Some i)
    show ?thesis
    proof (cases "a_args q")
      case None
      with assms(1) g Some have "answer s (bad_request_reply r) = Inr (Some (s', r'))" by (simp add: crypto_get_coin_def)
      then show ?thesis by (rule answer_sendable) (erule error_sendable(2), rule assms(2))
    next
      case coin: (Some coin)
      with assms(1) g Some obtain r1 json where r1: "set_head r HTTP_200_OK ''application/json'' = Inr r1"
        "r' = http_set_body r1 (length json) (json @ [nul]) True"
        by (auto simp: crypto_get_coin_def bind_res_Inr)
      from set_head_sendable [OF r1(1) _ assms(2)] r1(2) set_body_sendable show ?thesis by simp
    qed
  qed
qed

lemma post_coin_sendable:
  assumes "crypto_post_coin env s q r = Inr (Some (s', r'))" "building r"
  shows "sendable r'"
proof (cases "a_body q = None \<or> a_args q \<noteq> None \<or> a_suffix q \<noteq> None")
  case True
  with assms(1) have "answer s (bad_request_reply r) = Inr (Some (s', r'))"
    by (cases "a_body q") (simp_all add: crypto_post_coin_def)
  then show ?thesis by (rule answer_sendable) (erule error_sendable(2), rule assms(2))
next
  case False
  then obtain body where q: "a_body q = Some body" "a_args q = None" "a_suffix q = None" by auto
  with assms(1) obtain session where g: "http_session_get (ses s) (a_raw q) = Inr session"
    by (auto simp: crypto_post_coin_def bind_res_Inr)
  show ?thesis
  proof (cases session)
    case None
    with assms(1) q g have "answer s (unauthorized_reply r) = Inr (Some (s', r'))" by (simp add: crypto_post_coin_def)
    then show ?thesis by (rule answer_sendable) (erule error_sendable(3), rule assms(2))
  next
    case (Some i)
    with assms(1) q g obtain r1 where r1: "set_head r HTTP_201_CREATED ''application/json'' = Inr r1"
      "r' = http_set_body r1 (length body) (body @ [nul]) False"
      by (auto simp: crypto_post_coin_def bind_res_Inr split: prod.splits)
    from set_head_sendable [OF r1(1) _ assms(2)] r1(2) set_body_sendable show ?thesis by simp
  qed
qed

lemma pages_sendable:
  "crypto_get_login env s q r = Inr (Some (s', r')) \<Longrightarrow> building r \<Longrightarrow> sendable r'"
  "crypto_get_register env s q r = Inr (Some (s', r')) \<Longrightarrow> building r \<Longrightarrow> sendable r'"
  unfolding crypto_get_login_def crypto_get_register_def by (erule (1) page_sendable)+

lemma handlers_sendable:
  assumes "(k, h) \<in> set app_routes" and run: "h env s q r = Inr (Some (s', r'))" and r: "building r"
  shows "sendable r'"
proof -
  have "h \<in> set (map snd app_routes)" using assms(1) by (metis image_eqI set_map snd_conv)
  then have "h \<in> {crypto_get_resource, crypto_get_login, crypto_post_login, crypto_post_logout, crypto_get_register,
      crypto_post_register, crypto_get_home, crypto_get_coins, crypto_get_coin, crypto_post_coin}"
    by (simp only: app_routes_def list.map snd_conv list.set)
  then show ?thesis using run
    by (elim insertE emptyE)
      (hypsubst, (erule resource_sendable | erule pages_sendable(1) | erule login_sendable | erule logout_sendable |
        erule pages_sendable(2) | erule register_sendable | erule home_sendable | erule coins_sendable |
        erule coin_sendable | erule post_coin_sendable), rule r)+
qed

lemma sendable_send:
  assumes "sendable r"
  shows "\<exists>st hdr. status_line r = Some st \<and> header_text r = Inr hdr \<and> http_send True r =
    Inr (reply_text r st hdr # (if payload_size r > 0 then [take (payload_size r) (payload r)] else []))"
proof -
  from assms obtain st where st: "response_ok r" "status_line r = Some st" "- (2 ^ 31) \<le> code r" "code r < 2 ^ 31"
    by (auto simp: sendable_def building_def)
  from reply_of_ok [OF this] obtain hdr where "header_text r = Inr hdr" "http_reply r = Inr (reply_text r st hdr)" by blast
  with st(2) assms show ?thesis by (simp add: http_send_def sendable_def building_def)
qed

text \<open>Property C35. Whatever a handler of the application answers, the server can send: the reply has one of six codes, a status line and a header
  that ends, no buffer of the reply is too small, and the body written is exactly the announced number of bytes.\<close>

theorem handlers_reply:
  assumes "(k, h) \<in> set app_routes" "h env s q new_response = Inr (Some (s', r'))"
  shows "code r' \<in> {200, 201, 302, 303, 400, 401} \<and>
    (\<exists>st hdr. status_line r' = Some st \<and> header_text r' = Inr hdr \<and> http_send True r' =
      Inr (reply_text r' st hdr # (if payload_size r' > 0 then [take (payload_size r') (payload r')] else []))) \<and>
    payload_size r' \<le> length (payload r')"
  using handlers_sendable [OF assms building_new] sendable_send [of r'] by (simp add: sendable_def building_def)

theorem handlers_reply_witness:
  "\<exists>r. crypto_get_coins demo_env \<lparr>ses = http_session_engine_start 1 None 0, disk = demo_fs\<rparr> (form_req ''a'' ''b'') new_response =
      Inr (Some (\<lparr>ses = http_session_engine_start 1 None 0, disk = demo_fs\<rparr>, r)) \<and> code r \<in> {200, 201, 302, 303, 400, 401}"
proof -
  let ?s = "\<lparr>ses = http_session_engine_start 1 None 0, disk = demo_fs\<rparr>"
  have none: "http_session_get (ses ?s) (a_raw (form_req ''a'' ''b'')) = Inr None"
    by (simp add: form_req_def http_session_get_def get_cookie_strstr)
  from guest_refused [OF none, of crypto_get_coins demo_env new_response] obtain r' where
    "crypto_get_coins demo_env (?s\<lparr>disk := demo_fs\<rparr>) (form_req ''a'' ''b'') new_response = Inr (Some (?s\<lparr>disk := demo_fs\<rparr>, r'))" by blast
  then have r: "crypto_get_coins demo_env ?s (form_req ''a'' ''b'') new_response = Inr (Some (?s, r'))" by simp
  have "((''coins'', HTTP_GET), crypto_get_coins) \<in> set app_routes" by (simp add: app_routes_def)
  from handlers_reply [OF this r] r show ?thesis by blast
qed

end
