(* ===== verification/Wire.thy ===== *)
theory Wire
  imports Replies
begin

section \<open>The application behind the server (app/app.c over server/http.c)\<close>

text \<open>
  \<open>http_process_request\<close> hands its handlers the request and the response; the handlers of the application also read and
  change what the application keeps. Here both meet: the pointers of the request become the strings a handler reads, and
  the state is passed along.
\<close>

definition opt_str :: "char list \<Rightarrow> nat option \<Rightarrow> string option res" where
  "opt_str block p = (case p of None \<Rightarrow> Inr None | Some i \<Rightarrow> bind_res (c_str (drop i block)) (\<lambda>s. Inr (Some s)))"

definition areq_of :: "char list \<Rightarrow> http_request_t \<Rightarrow> areq res" where
  "areq_of block req =
     bind_res (opt_str block (req_args req)) (\<lambda>args.
     bind_res (opt_str block (req_url_suffix req)) (\<lambda>rest.
     bind_res (opt_str block (req_body req)) (\<lambda>body.
     bind_res (field_str block (req_raw req)) (\<lambda>raw.
     Inr \<lparr>a_args = args, a_suffix = rest, a_body = body, a_raw = raw\<rparr>))))"

definition app_dispatch ::
    "('f, 'd) env \<Rightarrow> app_state \<Rightarrow> ('f, 'd) app_handler pathname \<Rightarrow> char list \<Rightarrow> http_request_t \<Rightarrow> result" where
  "app_dispatch env s node block req =
     bind_res (field_str block (req_method req)) (\<lambda>m.
       case http_choose node m of
         None \<Rightarrow> answer s (error_response HTTP_400_BAD_REQUEST 12 ''Bad request'')
       | Some (sl, len, text) \<Rightarrow>
           (case sl of
              Undef \<Rightarrow> Inl UninitRead
            | Null \<Rightarrow> answer s (error_response HTTP_405_NOT_ALLOWED len text)
            | Handler h \<Rightarrow> bind_res (areq_of block req) (\<lambda>q. h env s q new_response)))"

definition app_serve ::
    "('f, 'd) env \<Rightarrow> ('f, 'd) app_handler pathname \<Rightarrow> app_state \<Rightarrow> rcv_data_t \<Rightarrow> nat \<Rightarrow> result" where
  "app_serve env tree s d header_end =
     bind_res (http_route tree d header_end) (\<lambda>(node, block, req). app_dispatch env s node block req)"

text \<open>One request of a connection, as in \<open>http_process_one\<close>.\<close>

definition app_process_one ::
    "(nat \<Rightarrow> char) \<Rightarrow> ('f, 'd) env \<Rightarrow> ('f, 'd) app_handler pathname \<Rightarrow> bool \<Rightarrow> app_state \<Rightarrow> rcv_data_t \<Rightarrow> rcv_data_t list \<Rightarrow>
     (app_state \<times> char list list \<times> rcv_data_t list) option res" where
  "app_process_one junk env tree ok s d pkts =
     bind_res (http_get_request_header junk d pkts) (\<lambda>h. case h of
       None \<Rightarrow> Inr None
     | Some (d1, ps1, header_end) \<Rightarrow>
         bind_res (http_get_request_body junk d1 ps1 header_end) (\<lambda>b. case b of
           None \<Rightarrow> Inr None
         | Some (d2, ps2, _) \<Rightarrow>
             bind_res (app_serve env tree s d2 header_end) (\<lambda>r. case r of
               None \<Rightarrow> Inr None
             | Some (s', r) \<Rightarrow> bind_res (http_send ok r) (\<lambda>out. Inr (Some (s', out, ps2))))))"

subsection \<open>The server does not look at the state\<close>

text \<open>The handlers of the application in a state, as the server sees them.\<close>

definition reply_part :: "result \<Rightarrow> http_response_t res" where
  "reply_part x = bind_res x (\<lambda>y. case y of None \<Rightarrow> Inl DeadLock | Some (_, r) \<Rightarrow> Inr r)"

definition served :: "('f, 'd) env \<Rightarrow> app_state \<Rightarrow> ('f, 'd) app_handler \<Rightarrow> handler" where
  "served env s h = (\<lambda>block req r. bind_res (areq_of block req) (\<lambda>q. reply_part (h env s q r)))"

lemma map_tree [simp]:
  "path (map_pathname f t) = path t" "paths (map_pathname f t) = map (map_pathname f) (paths t)"
  "get (map_pathname f t) = map_slot f (get t)" "post (map_pathname f t) = map_slot f (post t)"
  "put (map_pathname f t) = map_slot f (put t)" "patch (map_pathname f t) = map_slot f (patch t)"
  "delete (map_pathname f t) = map_slot f (delete t)"
  by (simp_all add: pathname.map_sel)

lemma match_map: "match_child (map (map_pathname f) ps) s i = match_child ps s i"
  by (induction ps s i rule: match_child.induct) simp_all

lemma resolve_map: "http_resolve_path (map_pathname f t) s = http_resolve_path t s"
proof (induction t s rule: http_resolve_path.induct)
  case (1 t s)
  let ?s = "skip_slashes s"
  show ?case
  proof (cases "match_child (paths t) ?s 0")
    case (Descend i)
    with match_child_bound [of "paths t" ?s 0] have "i < length (paths t)" by simp
    with Descend 1 show ?thesis
      by (simp add: http_resolve_path.simps [of "map_pathname f t"] http_resolve_path.simps [of t] match_map Let_def)
  qed (simp_all add: http_resolve_path.simps [of "map_pathname f t"] http_resolve_path.simps [of t] match_map Let_def)
qed

lemma node_map: "node_at (map_pathname f t) r = map_option (map_pathname f) (node_at t r)"
  by (induction t r rule: node_at.induct) simp_all

lemma route_map: "http_route (map_pathname f t) d he = bind_res (http_route t d he) (\<lambda>(n, x). Inr (map_pathname f n, x))"
  by (auto simp: http_route_def resolve_map node_map bind_res_def split: sum.splits prod.splits option.splits)

lemma choose_map: "http_choose (map_pathname f n) m = map_option (map_prod (map_slot f) id) (http_choose n m)"
  by (simp add: http_choose_def)

lemma reply_part_answer [simp]: "reply_part (answer s x) = x"
  by (cases x) (simp_all add: reply_part_def answer_def)

lemma reply_part_bind: "reply_part (bind_res x k) = bind_res x (\<lambda>y. reply_part (k y))"
  by (cases x) (simp_all add: reply_part_def)

lemma dispatch_served: "http_dispatch (map_pathname (served env s) node) block req = reply_part (app_dispatch env s node block req)"
proof (cases "field_str block (req_method req)")
  case (Inr m)
  show ?thesis
  proof (cases "http_choose node m")
    case (Some c)
    obtain sl len tx where c: "c = (sl, len, tx)" by (metis surj_pair)
    show ?thesis by (cases sl)
      (simp_all add: http_dispatch_def app_dispatch_def Inr choose_map Some c call_slot_def served_def reply_part_bind,
       simp add: reply_part_def)
  qed (simp add: http_dispatch_def app_dispatch_def Inr choose_map)
qed (simp add: http_dispatch_def app_dispatch_def reply_part_def)


subsection \<open>From the bytes to the handler\<close>

text \<open>What a handler reads of a request for the url \<open>u\<close>.\<close>

definition sent_areq :: "string \<Rightarrow> string \<Rightarrow> string \<Rightarrow> areq" where
  "sent_areq u body rest =
     \<lparr>a_args = if CHR ''?'' \<in> set u then Some (tl (dropWhile (\<lambda>c. c \<noteq> CHR ''?'') u)) else None, a_suffix = None,
       a_body = Some (takeWhile (\<lambda>c. c \<noteq> nul) body), a_raw = takeWhile (\<lambda>c. c \<noteq> nul) rest\<rparr>"

lemma c_str_nul: "nul \<in> set b \<Longrightarrow> c_str b = Inr (takeWhile (\<lambda>c. c \<noteq> nul) b)"
  by (simp add: c_str_def)

lemma behind: "b = xs @ ys \<Longrightarrow> n = length xs \<Longrightarrow> length b = n + length ys \<and> drop n b = ys"
  by simp

text \<open>The route of a well-formed request: the node of its path, and the strings the handler reads.\<close>

lemma route_line:
  assumes block: "rcv_payload d = m @ CHR '' '' # u @ CHR '' '' # v @ CHR 0x0D # rest"
    and t: "token m" "token u" "token v" and rest: "rest \<noteq> []" "last rest = nul"
    and he: "length (rcv_payload d) - length rest \<le> he" "he < length (rcv_payload d)"
    and node: "http_resolve_path root (takeWhile (\<lambda>c. c \<noteq> CHR ''?'') u) = (r, None)" "node_at root r = Some node"
  shows "\<exists>b req. http_route root d he = Inr (node, b, req) \<and> field_str b (req_method req) = Inr m \<and>
    areq_of b req = Inr (sent_areq u (drop he (rcv_payload d)) rest)"
proof -
  have n: "nul \<in> set rest" using rest by (metis last_in_set)
  obtain req b where p: "http_parse_header (rcv_payload d) = Inr (req, b)"
    and f: "field_str b (req_method req) = Inr m" "field_str b (req_url req) = Inr (takeWhile (\<lambda>c. c \<noteq> CHR ''?'') u)"
      "drop (the (req_raw req)) b = rest"
      "if CHR ''?'' \<in> set u then field_str b (req_args req) = Inr (tl (dropWhile (\<lambda>c. c \<noteq> CHR ''?'') u)) else req_args req = None"
    using parse_fields [OF block t n] by blast
  define raw where "raw = length m + length u + 2 + length v + 1"
  have raw: "req_raw req = Some raw" using parse_line [OF block t n] p by (auto simp: raw_def)
  with f(3) have at: "drop raw b = rest" by simp
  have "rcv_payload d = (m @ CHR '' '' # u @ CHR '' '' # v @ [CHR 0x0D]) @ rest" unfolding block by simp
  from behind [OF this, of raw] have len: "length (rcv_payload d) = raw + length rest" "drop raw (rcv_payload d) = rest"
    by (simp_all add: raw_def)
  have "raw \<le> he" using he(1) unfolding len(1) by simp
  then obtain k where "he = raw + k" using le_Suc_ex by blast
  then have k: "he = k + raw" "k < length rest" using he(2) unfolding len(1) by simp_all
  have body: "drop he b = drop k rest" "drop he (rcv_payload d) = drop k rest"
    unfolding k(1) drop_drop [symmetric] at len(2) by (rule refl)+
  have "nul \<in> set (drop k rest)" using k(2) rest by (metis drop_eq_Nil last_drop last_in_set not_le)
  then have "c_str (drop he b) = Inr (takeWhile (\<lambda>c. c \<noteq> nul) (drop he (rcv_payload d)))" unfolding body by (rule c_str_nul)
  moreover have "c_str (drop raw b) = Inr (takeWhile (\<lambda>c. c \<noteq> nul) rest)" using at c_str_nul [OF n] by simp
  moreover have "opt_str b (req_args req) = Inr (if CHR ''?'' \<in> set u then Some (tl (dropWhile (\<lambda>c. c \<noteq> CHR ''?'') u)) else None)"
    using f(4) by (auto simp: opt_str_def field_str_def split: if_splits option.splits)
  ultimately have "areq_of b (req\<lparr>req_body := Some he, req_url_suffix := None\<rparr>) =
      Inr (sent_areq u (drop he (rcv_payload d)) rest)"
    using raw by (simp add: areq_of_def opt_str_def field_str_def sent_areq_def)
  then show ?thesis using p f(1,2) node
    by (intro exI [of _ b] exI [of _ "req\<lparr>req_body := Some he, req_url_suffix := None\<rparr>"]) (simp add: http_route_def)
qed

lemma key_slot:
  assumes "key_handler tree (p, type) = Some h"
  shows "\<exists>r node. http_resolve_path tree (CHR ''/'' # p) = (r, None) \<and> node_at tree r = Some node \<and> slot_of type node = Handler h"
  using assms by (cases "http_resolve_path tree (CHR ''/'' # p)")
    (auto simp: key_handler_def handler_of_def split: if_splits option.splits slot.splits)

lemma request_handled:
  assumes key: "key_handler tree (p, type) = Some h" "(m, type) \<in> {(''GET'', HTTP_GET), (''POST'', HTTP_POST)}"
    and line: "rcv_payload d = m @ CHR '' '' # u @ CHR '' '' # v @ CHR 0x0D # rest" "token u" "token v" "rest \<noteq> []" "last rest = nul"
    and he: "length (rcv_payload d) - length rest \<le> he" "he < length (rcv_payload d)"
    and url: "takeWhile (\<lambda>c. c \<noteq> CHR ''?'') u = CHR ''/'' # p"
  shows "app_serve env tree s d he = h env s (sent_areq u (drop he (rcv_payload d)) rest) new_response"
proof -
  from key_slot [OF key(1)] obtain r node where n: "http_resolve_path tree (takeWhile (\<lambda>c. c \<noteq> CHR ''?'') u) = (r, None)"
    "node_at tree r = Some node" "slot_of type node = Handler h" unfolding url by blast
  have "token m" using key(2) by (auto simp: token_def nul_def)
  from route_line [OF line(1) this line(2-5) he n(1,2)] obtain b req where
    b: "http_route tree d he = Inr (node, b, req)" "field_str b (req_method req) = Inr m"
      "areq_of b req = Inr (sent_areq u (drop he (rcv_payload d)) rest)" by blast
  obtain len tx where c: "http_choose node m = Some (Handler h, len, tx)"
    using key(2) n(3) by (auto simp: http_choose_def slot_of_def http_methods)
  show ?thesis
    by (simp only: app_serve_def app_dispatch_def b c bind_res_simps prod.case option.case slot.case)
qed

lemma started_key:
  assumes "app_options opts None 0 = (Some root, timeout)"
    and "app_start data opts env0 None (Some http_init_url_paths) = Inr (env, e, Some tree)" "(k, h) \<in> set app_routes"
  shows "key_handler tree k = Some h"
proof -
  have "\<forall>k. valid_key k \<longrightarrow> key_handler tree k = map_of app_routes k"
    using start_routes [OF assms(1), of data env0] assms(2) by auto
  moreover have "valid_key k" using app_routes_valid(1) assms(3) by blast
  moreover have "map_of app_routes k = Some h" using app_routes_valid(2) assms(3) by (rule map_of_is_SomeI)
  ultimately show ?thesis by (metis (no_types))
qed

lemma private_route:
  assumes "(m, p) \<in> {(''GET'', ''home''), (''GET'', ''coins''), (''GET'', ''coin''), (''POST'', ''coin'')}"
  shows "\<exists>type h. ((p, type), h :: ('f, 'd) app_handler) \<in> set app_routes \<and>
    (m, type) \<in> {(''GET'', HTTP_GET), (''POST'', HTTP_POST)} \<and>
    h \<in> {crypto_get_home, crypto_get_coins, crypto_get_coin, crypto_post_coin}"
proof -
  let ?R = "set (app_routes :: ((string \<times> int) \<times> ('f, 'd) app_handler) list)"
  have "((''home'', HTTP_GET), crypto_get_home) \<in> ?R" "((''coins'', HTTP_GET), crypto_get_coins) \<in> ?R"
    "((''coin'', HTTP_GET), crypto_get_coin) \<in> ?R" "((''coin'', HTTP_POST), crypto_post_coin) \<in> ?R"
    by (simp_all add: app_routes_def)
  with assms show ?thesis by (elim insertE emptyE) (blast | fastforce)+
qed

subsection \<open>Properties\<close>

text \<open>Property C33. On the started application a well-formed GET or POST of one of the ten routes is the call of its handler, with the
  strings that the request line, the headers and the body give: the arguments behind the question mark, no suffix, the
  body up to its first NUL, and the headers behind the request line.\<close>

theorem request_reaches_handler:
  assumes "app_options opts None 0 = (Some root, timeout)"
    and "app_start data opts env0 None (Some http_init_url_paths) = Inr (env, e, Some tree)"
    and "map_of app_routes (p, type) = Some h" "(m, type) \<in> {(''GET'', HTTP_GET), (''POST'', HTTP_POST)}"
    and "rcv_payload d = m @ CHR '' '' # u @ CHR '' '' # v @ CHR 0x0D # rest" "token u" "token v" "rest \<noteq> []" "last rest = nul"
    and "length (rcv_payload d) - length rest \<le> he" "he < length (rcv_payload d)"
    and "takeWhile (\<lambda>c. c \<noteq> CHR ''?'') u = CHR ''/'' # p"
  shows "app_serve env tree s d he = h env s (sent_areq u (drop he (rcv_payload d)) rest) new_response"
proof -
  from started_key [OF assms(1,2) map_of_SomeD [OF assms(3)]] have "key_handler tree (p, type) = Some h" .
  from request_handled [OF this assms(4-12)] show ?thesis .
qed

text \<open>A request of the tests: no headers, no body.\<close>

definition bare :: "string \<Rightarrow> string \<Rightarrow> rcv_data_t" where
  "bare m u = (let t = m @ CHR '' '' # u @ CHR '' '' # ''HTTP/1.1'' @ CHR 0x0D # CHR 0x0A # crlf in
     \<lparr>data_size = length t + 1, bytes_received = length t, rcv_payload = t @ [nul]\<rparr>)"

lemma taken: "take (length xs) (xs @ ys) = xs"
  by simp

lemma bare_request:
  assumes "m \<in> {''GET'', ''POST''}" "u \<in> {''/coins'', ''/coin?btc''}"
  shows "\<exists>he. http_get_request_header junk (bare m u) ps = Inr (Some (bare m u, ps, he)) \<and>
    http_get_request_body junk (bare m u) ps he = Inr (Some (bare m u, ps, 0)) \<and>
    rcv_payload (bare m u) = m @ CHR '' '' # u @ CHR '' '' # ''HTTP/1.1'' @ CHR 0x0D # CHR 0x0A # crlf @ [nul] \<and>
    length (rcv_payload (bare m u)) - length (CHR 0x0A # crlf @ [nul]) \<le> he \<and> he < length (rcv_payload (bare m u)) \<and>
    drop he (rcv_payload (bare m u)) = [nul]"
proof -
  let ?d = "bare m u" and ?t = "m @ CHR '' '' # u @ CHR '' '' # ''HTTP/1.1'' @ CHR 0x0D # CHR 0x0A # crlf"
  have b: "rcv_payload ?d = ?t @ [nul]" "bytes_received ?d = length ?t" "data_size ?d = length ?t + 1"
    by (simp_all only: bare_def Let_def rcv_data_t.select_convs)
  have r: "received ?d = ?t" unfolding received_def b(1,2) by (rule taken)
  have n: "nul \<notin> set ?t" using assms by (auto simp: nul_def crlf_def)
  have ok: "clean ?d" "4 \<le> bytes_received ?d" unfolding clean_def r b using n by simp_all
  have "suffix header_mark ?t" using assms by (auto simp: header_mark_def crlf_def suffix_def)
  then have e: "header_end_spec (received ?d) = Some (length ?t)" unfolding r header_end_spec_def by simp
  have c: "\<not> sublist ''Content-Length: '' (received ?d)" unfolding r using assms
    by (auto simp: crlf_def sublist_Cons_right)
  have "find_header_end ?d = Inr (Some (length ?t))" using find_header_end_clean [OF ok] e by simp
  note h = header_now [OF this, of junk ps] no_body [OF ok(1) c, of junk ps "length ?t"]
  have "drop (length ?t) (?t @ [nul]) = [nul]" using behind [OF refl refl] by blast
  moreover have "length (?t @ [nul]) - length (CHR 0x0A # crlf @ [nul]) \<le> length ?t" "length ?t < length (?t @ [nul])" by simp_all
  moreover have "?t @ [nul] = m @ CHR '' '' # u @ CHR '' '' # ''HTTP/1.1'' @ CHR 0x0D # CHR 0x0A # crlf @ [nul]" by simp
  ultimately show ?thesis using h unfolding b(1) by (intro exI [of _ "length ?t"]) (simp only: simp_thms)
qed

text \<open>Property C32. A guest cannot reach anyone's data over the wire. Whatever has been received, if it is a well-formed request of
  a private page without a session, the reply written back is complete, has the code 303, 400 or 401 and is the same for every content of
  the files, and sessions, users and files stay as they are.\<close>

theorem guest_over_the_wire:
  assumes "app_options opts None 0 = (Some root, timeout)"
    and "app_start data opts env0 None (Some http_init_url_paths) = Inr (env, e, Some tree)"
    and "http_get_request_header junk d ps = Inr (Some (d1, ps1, he))"
      "http_get_request_body junk d1 ps1 he = Inr (Some (d2, ps2, n))"
    and "rcv_payload d2 = m @ CHR '' '' # u @ CHR '' '' # v @ CHR 0x0D # rest" "token u" "token v" "rest \<noteq> []" "last rest = nul"
      "length (rcv_payload d2) - length rest \<le> he" "he < length (rcv_payload d2)"
    and "takeWhile (\<lambda>c. c \<noteq> CHR ''?'') u = CHR ''/'' # p"
      "(m, p) \<in> {(''GET'', ''home''), (''GET'', ''coins''), (''GET'', ''coin''), (''POST'', ''coin'')}"
    and "http_session_get (ses s) (takeWhile (\<lambda>c. c \<noteq> nul) rest) = Inr None"
  shows "\<exists>r st hdr. code r \<in> {303, 400, 401} \<and> (\<forall>fs. app_process_one junk env tree True (s\<lparr>disk := fs\<rparr>) d ps =
    Inr (Some (s\<lparr>disk := fs\<rparr>, reply_text r st hdr # (if payload_size r > 0 then [take (payload_size r) (payload r)] else []), ps2)))"
proof -
  from private_route [OF assms(13)] obtain type and h :: "('a, 'b) app_handler" where
    route: "((p, type), h) \<in> set app_routes" "(m, type) \<in> {(''GET'', HTTP_GET), (''POST'', HTTP_POST)}"
      "h \<in> {crypto_get_home, crypto_get_coins, crypto_get_coin, crypto_post_coin}" by blast
  from started_key [OF assms(1,2) route(1)] have "key_handler tree (p, type) = Some h" .
  note run = request_handled [OF this route(2) assms(5-12)]
  let ?q = "sent_areq u (drop he (rcv_payload d2)) rest"
  have "http_session_get (ses s) (a_raw ?q) = Inr None" using assms(14) by (simp add: sent_areq_def)
  with route(3) obtain r where r: "code r \<in> {303, 400, 401}"
    "\<And>fs. h env (s\<lparr>disk := fs\<rparr>) ?q new_response = Inr (Some (s\<lparr>disk := fs\<rparr>, r))"
    using guest_refused by metis
  from sendable_send [OF handlers_sendable [OF route(1) r(2) building_new]] obtain st hdr where
    "http_send True r = Inr (reply_text r st hdr # (if payload_size r > 0 then [take (payload_size r) (payload r)] else []))" by blast
  with r run assms(3,4) show ?thesis
    by (intro exI [of _ r] exI [of _ st] exI [of _ hdr]) (simp add: app_process_one_def)
qed

theorem request_reaches_handler_witness:
  "\<exists>env e tree he. app_start (\<lambda>_. None) [Root ''/srv''] demo_env None (Some http_init_url_paths) = Inr (env, e, Some tree) \<and>
    app_serve env tree \<lparr>ses = http_session_engine_start 1 None 0, disk = no_files\<rparr> (bare ''GET'' ''/coin?btc'') he =
      crypto_get_coin env \<lparr>ses = http_session_engine_start 1 None 0, disk = no_files\<rparr>
        \<lparr>a_args = Some ''btc'', a_suffix = None, a_body = Some [], a_raw = CHR 0x0A # crlf\<rparr> new_response"
proof -
  have o: "app_options [Root ''/srv''] None 0 = (Some ''/srv'', 0)" by simp
  from start_routes [OF this, of "\<lambda>_. None" demo_env] obtain env e tree where
    t: "app_start (\<lambda>_. None) [Root ''/srv''] demo_env None (Some http_init_url_paths) = Inr (env, e, Some tree)" by blast
  obtain he where he: "rcv_payload (bare ''GET'' ''/coin?btc'') =
      ''GET'' @ CHR '' '' # ''/coin?btc'' @ CHR '' '' # ''HTTP/1.1'' @ CHR 0x0D # CHR 0x0A # crlf @ [nul]"
    "length (rcv_payload (bare ''GET'' ''/coin?btc'')) - length (CHR 0x0A # crlf @ [nul]) \<le> he"
    "he < length (rcv_payload (bare ''GET'' ''/coin?btc''))" "drop he (rcv_payload (bare ''GET'' ''/coin?btc'')) = [nul]"
    using bare_request [of "''GET''" "''/coin?btc''"] by blast
  have "map_of app_routes (''coin'', HTTP_GET) = Some (crypto_get_coin :: (int, int) app_handler)" by (simp add: app_routes_def http_methods)
  from request_reaches_handler [OF o t this _ he(1) _ _ _ _ he(2,3)] show ?thesis
    by (intro exI [of _ env] exI [of _ e] exI [of _ tree] exI [of _ he])
      (simp add: t sent_areq_def he(4) token_def nul_def crlf_def)
qed

theorem guest_over_the_wire_witness:
  "\<exists>env e tree r st hdr body. app_start (\<lambda>_. None) [Root ''/srv''] demo_env None (Some http_init_url_paths) = Inr (env, e, Some tree) \<and>
    code r \<in> {303, 400, 401} \<and>
    app_process_one (\<lambda>_. nul) env tree True \<lparr>ses = http_session_engine_start 1 None 0, disk = no_files\<rparr> (bare ''GET'' ''/coins'') [] =
      Inr (Some (\<lparr>ses = http_session_engine_start 1 None 0, disk = no_files\<rparr>, reply_text r st hdr # body, []))"
proof -
  let ?s = "\<lparr>ses = http_session_engine_start 1 None 0, disk = no_files\<rparr>"
  have o: "app_options [Root ''/srv''] None 0 = (Some ''/srv'', 0)" by simp
  from start_routes [OF this, of "\<lambda>_. None" demo_env] obtain env e tree where
    t: "app_start (\<lambda>_. None) [Root ''/srv''] demo_env None (Some http_init_url_paths) = Inr (env, e, Some tree)" by blast
  obtain he where he: "http_get_request_header (\<lambda>_. nul) (bare ''GET'' ''/coins'') [] = Inr (Some (bare ''GET'' ''/coins'', [], he))"
    "http_get_request_body (\<lambda>_. nul) (bare ''GET'' ''/coins'') [] he = Inr (Some (bare ''GET'' ''/coins'', [], 0))"
    "rcv_payload (bare ''GET'' ''/coins'') =
      ''GET'' @ CHR '' '' # ''/coins'' @ CHR '' '' # ''HTTP/1.1'' @ CHR 0x0D # CHR 0x0A # crlf @ [nul]"
    "length (rcv_payload (bare ''GET'' ''/coins'')) - length (CHR 0x0A # crlf @ [nul]) \<le> he"
    "he < length (rcv_payload (bare ''GET'' ''/coins''))"
    using bare_request [of "''GET''" "''/coins''"] by blast
  have "takeWhile (\<lambda>c. c \<noteq> nul) (CHR 0x0A # crlf @ [nul]) = CHR 0x0A # crlf" by (simp add: crlf_def nul_def)
  then have "http_session_get (ses ?s) (takeWhile (\<lambda>c. c \<noteq> nul) (CHR 0x0A # crlf @ [nul])) = Inr None"
    by (simp add: http_session_get_def get_cookie_strstr crlf_def)
  note run = guest_over_the_wire [OF o t he(1-3) _ _ _ _ he(4,5) _ _ this]
  have "\<exists>r st hdr. code r \<in> {303, 400, 401} \<and> (\<forall>fs. app_process_one (\<lambda>_. nul) env tree True (?s\<lparr>disk := fs\<rparr>) (bare ''GET'' ''/coins'') [] =
    Inr (Some (?s\<lparr>disk := fs\<rparr>, reply_text r st hdr # (if payload_size r > 0 then [take (payload_size r) (payload r)] else []), [])))"
    by (rule run [of "''coins''"]) (simp_all add: token_def nul_def)
  then obtain r st hdr where r: "code r \<in> {303, 400, 401}" "\<And>fs. app_process_one (\<lambda>_. nul) env tree True (?s\<lparr>disk := fs\<rparr>) (bare ''GET'' ''/coins'') [] =
    Inr (Some (?s\<lparr>disk := fs\<rparr>, reply_text r st hdr # (if payload_size r > 0 then [take (payload_size r) (payload r)] else []), []))" by blast
  have "?s\<lparr>disk := no_files\<rparr> = ?s" by simp
  with r(2) [of no_files] r(1) t show ?thesis by (metis (no_types))
qed

end
