(* ===== verification/BuildMemory.thy ===== *)
theory BuildMemory
  imports Prelude CString
begin

section \<open>The memory of the build tool (cb.h)\<close>

text \<open>
  All strings and arrays of the build tool live in arenas: a context of the stack of contexts owns one mapping of
  \<open>TEMP_DEFAULT_SIZE\<close> bytes, gives out its words in order and never takes one back; leaving the context unmaps it. A
  pointer is a mapping and an offset; a cell holds a byte, or (at the first byte of a word) a pointer, into the arenas or to
  a string outside of them (\<open>Literal\<close>). Fresh pages are zero. A context that was never written is \<open>None\<close>. Sizes are natural numbers, and \<open>mmap\<close> succeeds.
\<close>

type_synonym ptr = "(nat \<times> nat) option"

datatype cell = Byte char | Addr ptr | Literal string

record arena_t =
  arena_size :: nat
  free_offset :: nat
  arena_data :: "nat option"

record arena_context_t =
  ctx_name :: "string option"
  ctx_arena :: "arena_t option"

record memory =
  mapped :: "nat \<rightharpoonup> (nat \<Rightarrow> cell)"
  next_map :: nat
  stack_size :: nat
  stack_last :: nat
  contexts :: "arena_context_t list"

definition TEMP_DEFAULT_SIZE :: nat where "TEMP_DEFAULT_SIZE = 32 * 1024 * 1024"
definition WORD_SIZE :: nat where "WORD_SIZE = 8"

definition align_to_word_size :: "nat \<Rightarrow> nat" where
  "align_to_word_size n =
     (if n < WORD_SIZE then WORD_SIZE else (n + (WORD_SIZE - 1)) div WORD_SIZE * WORD_SIZE)"

definition no_arena :: arena_t where "no_arena = \<lparr>arena_size = 0, free_offset = 0, arena_data = None\<rparr>"

subsection \<open>Arenas\<close>

definition arena_reserve_memory :: "memory \<Rightarrow> memory \<times> nat" where
  "arena_reserve_memory m =
     (m\<lparr>mapped := (mapped m)(next_map m \<mapsto> (\<lambda>_. Byte nul)), next_map := Suc (next_map m)\<rparr>, next_map m)"

definition arena_get_memory :: "memory \<Rightarrow> arena_t \<Rightarrow> nat \<Rightarrow> memory \<times> arena_t \<times> ptr" where
  "arena_get_memory m arena n =
     (case (case arena_data arena of
              None \<Rightarrow> (case arena_reserve_memory m of (m, r) \<Rightarrow>
                (m, \<lparr>arena_size = TEMP_DEFAULT_SIZE, free_offset = 0, arena_data = Some r\<rparr>, r))
            | Some r \<Rightarrow> (m, arena, r)) of (m, arena, r) \<Rightarrow>
        let to_alloc = align_to_word_size n in
        if arena_size arena - free_offset arena < to_alloc then (m, arena, None)
        else (m, arena\<lparr>free_offset := free_offset arena + to_alloc\<rparr>, Some (r, free_offset arena)))"

definition arena_flush :: "memory \<Rightarrow> arena_t \<Rightarrow> memory \<times> arena_t" where
  "arena_flush m arena =
     (case arena_data arena of
        None \<Rightarrow> (m, arena)
      | Some r \<Rightarrow> (m\<lparr>mapped := (mapped m)(r := None)\<rparr>, no_arena))"

subsection \<open>The stack of contexts\<close>

definition no_memory :: memory where
  "no_memory = \<lparr>mapped = Map.empty, next_map = 0, stack_size = 0, stack_last = 0, contexts = []\<rparr>"

definition unwritten :: arena_context_t where
  "unwritten = \<lparr>ctx_name = None, ctx_arena = None\<rparr>"

definition zero_context :: arena_context_t where
  "zero_context = \<lparr>ctx_name = Some [], ctx_arena = Some no_arena\<rparr>"

text \<open>The \<open>memset\<close> starts at the first context, not at the first new one.\<close>

definition context_stack_expand :: "memory \<Rightarrow> memory" where
  "context_stack_expand m =
     m\<lparr>stack_size := stack_size m + 10,
       contexts := replicate 10 zero_context @ drop 10 (contexts m @ replicate 10 unwritten)\<rparr>"

definition context_get_memory :: "memory \<Rightarrow> nat \<Rightarrow> (memory \<times> ptr) res" where
  "context_get_memory m n =
     (if stack_last m = 0 then Inr (m, None)
      else let k = stack_last m - 1 in
        case ctx_arena (contexts m ! k) of
          None \<Rightarrow> Inl UninitRead
        | Some a \<Rightarrow> (case arena_get_memory m a n of (m, a, p) \<Rightarrow>
            Inr (m\<lparr>contexts := (contexts m)[k := (contexts m ! k)\<lparr>ctx_arena := Some a\<rparr>]\<rparr>, p)))"

definition context_push :: "memory \<Rightarrow> string \<Rightarrow> memory \<times> int" where
  "context_push m name =
     (if length name \<ge> 256 then (m, -1)
      else let m = (if stack_last m = stack_size m then context_stack_expand m else m);
               k = stack_last m
        in (m\<lparr>contexts := (contexts m)[k := (contexts m ! k)\<lparr>ctx_name := Some name\<rparr>], stack_last := Suc k\<rparr>, int k))"

definition context_pop :: "memory \<Rightarrow> (memory \<times> int) res" where
  "context_pop m =
     (if stack_last m = 0 then Inr (m, -1)
      else let k = stack_last m - 1 in
        case ctx_arena (contexts m ! k) of
          None \<Rightarrow> Inl UninitRead
        | Some a \<Rightarrow> (case arena_flush m a of (m, a) \<Rightarrow>
            Inr (m\<lparr>contexts := (contexts m)[k := \<lparr>ctx_name = Some [], ctx_arena = Some a\<rparr>], stack_last := k\<rparr>, int k)))"

subsection \<open>Reading and writing\<close>

definition store :: "memory \<Rightarrow> ptr \<Rightarrow> cell \<Rightarrow> memory res" where
  "store m p v =
     (case p of
        None \<Rightarrow> Inl NullDeref
      | Some (r, i) \<Rightarrow>
          (case mapped m r of
             None \<Rightarrow> Inl UseAfterFree
           | Some f \<Rightarrow> if i < TEMP_DEFAULT_SIZE then Inr (m\<lparr>mapped := (mapped m)(r \<mapsto> f(i := v))\<rparr>) else Inl OutOfBounds))"

definition fetch :: "memory \<Rightarrow> ptr \<Rightarrow> cell res" where
  "fetch m p =
     (case p of
        None \<Rightarrow> Inl NullDeref
      | Some (r, i) \<Rightarrow>
          (case mapped m r of
             None \<Rightarrow> Inl UseAfterFree
           | Some f \<Rightarrow> if i < TEMP_DEFAULT_SIZE then Inr (f i) else Inl OutOfBounds))"

definition shift :: "ptr \<Rightarrow> nat \<Rightarrow> ptr" where
  "shift p n = map_option (\<lambda>(r, i). (r, i + n)) p"

text \<open>\<open>memcpy\<close> inside the memory, and \<open>memcpy\<close> of the values of a local array of elements of \<open>w\<close> bytes.\<close>

fun move :: "memory \<Rightarrow> ptr \<Rightarrow> ptr \<Rightarrow> nat \<Rightarrow> memory res" where
  "move m dst src 0 = Inr m"
| "move m dst src (Suc n) = bind_res (fetch m src) (\<lambda>v. bind_res (store m dst v) (\<lambda>m. move m (shift dst 1) (shift src 1) n))"

fun write_cells :: "memory \<Rightarrow> ptr \<Rightarrow> nat \<Rightarrow> cell list \<Rightarrow> memory res" where
  "write_cells m p w [] = Inr m"
| "write_cells m p w (v # vs) = bind_res (store m p v) (\<lambda>m. write_cells m (shift p w) w vs)"

definition realloc_memory :: "memory \<Rightarrow> ptr \<Rightarrow> nat \<Rightarrow> nat \<Rightarrow> (memory \<times> ptr) res" where
  "realloc_memory m addr old_size new_size =
     bind_res (context_get_memory m new_size) (\<lambda>(m, new_addr).
       if addr \<noteq> None \<and> old_size \<noteq> 0 then bind_res (move m new_addr addr old_size) (\<lambda>m. Inr (m, new_addr))
       else Inr (m, new_addr))"

subsection \<open>The memory stays consistent\<close>

text \<open>The arenas \<open>a k\<close> of the first \<open>n\<close> contexts on the mappings \<open>h\<close>: the mappings are exactly theirs, one each.\<close>

definition arena_ok :: "(nat \<rightharpoonup> (nat \<Rightarrow> cell)) \<Rightarrow> arena_t \<Rightarrow> bool" where
  "arena_ok h a \<longleftrightarrow> (case arena_data a of
     None \<Rightarrow> a = no_arena
   | Some r \<Rightarrow> arena_size a = TEMP_DEFAULT_SIZE \<and> free_offset a \<le> TEMP_DEFAULT_SIZE \<and>
       (\<exists>f. h r = Some f \<and> (\<forall>j \<ge> free_offset a. f j = Byte nul)))"

definition arenas_ok :: "nat \<Rightarrow> (nat \<Rightarrow> arena_t) \<Rightarrow> (nat \<rightharpoonup> (nat \<Rightarrow> cell)) \<Rightarrow> nat \<Rightarrow> bool" where
  "arenas_ok n a h next \<longleftrightarrow> (\<forall>k < n. arena_ok h (a k)) \<and> (\<forall>r \<in> dom h. r < next \<and> (\<exists>k < n. arena_data (a k) = Some r)) \<and>
     (\<forall>j < n. \<forall>k < n. \<forall>r. arena_data (a j) = Some r \<and> arena_data (a k) = Some r \<longrightarrow> j = k)"

definition arena_of :: "memory \<Rightarrow> nat \<Rightarrow> arena_t" where
  "arena_of m k = the (ctx_arena (contexts m ! k))"

text \<open>At most ten contexts, all written; the closed ones own nothing.\<close>

definition stack_ok :: "memory \<Rightarrow> bool" where
  "stack_ok m \<longleftrightarrow> stack_size m \<in> {0, 10} \<and> length (contexts m) = stack_size m \<and> stack_last m \<le> stack_size m \<and>
     (\<forall>k < stack_size m. ctx_arena (contexts m ! k) \<noteq> None) \<and>
     (\<forall>k < stack_size m. stack_last m \<le> k \<longrightarrow> arena_of m k = no_arena)"

definition memory_ok :: "memory \<Rightarrow> bool" where
  "memory_ok m \<longleftrightarrow> stack_ok m \<and> arenas_ok (stack_last m) (arena_of m) (mapped m) (next_map m)"

text \<open>The bytes given out, and the cells.\<close>

definition given :: "memory \<Rightarrow> (nat \<times> nat) set" where
  "given m = {(r, i). \<exists>k < stack_last m. arena_data (arena_of m k) = Some r \<and> i < free_offset (arena_of m k)}"

definition cell_at :: "memory \<Rightarrow> nat \<times> nat \<Rightarrow> cell" where
  "cell_at m = (\<lambda>(r, i). the (mapped m r) i)"

definition block :: "nat \<times> nat \<Rightarrow> nat \<Rightarrow> (nat \<times> nat) set" where
  "block p n = {(r, i). r = fst p \<and> snd p \<le> i \<and> i < snd p + n}"

lemma arenasD:
  assumes "arenas_ok n a h i"
  shows "k < n \<Longrightarrow> arena_ok h (a k)" "h r = Some f \<Longrightarrow> r < i" "h r = Some f \<Longrightarrow> \<exists>k < n. arena_data (a k) = Some r"
    "j < n \<Longrightarrow> k < n \<Longrightarrow> arena_data (a j) = Some r \<Longrightarrow> arena_data (a k) = Some r \<Longrightarrow> j = k"
    "k < n \<Longrightarrow> arena_data (a k) = Some r \<Longrightarrow> \<exists>f. h r = Some f"
proof -
  show "k < n \<Longrightarrow> arena_ok h (a k)" using assms by (simp add: arenas_ok_def)
  then show "k < n \<Longrightarrow> arena_data (a k) = Some r \<Longrightarrow> \<exists>f. h r = Some f" by (auto simp: arena_ok_def)
  show "j < n \<Longrightarrow> k < n \<Longrightarrow> arena_data (a j) = Some r \<Longrightarrow> arena_data (a k) = Some r \<Longrightarrow> j = k"
    using assms unfolding arenas_ok_def by blast
qed (use assms in \<open>auto simp: arenas_ok_def\<close>)

lemma arenasI:
  assumes "\<And>k. k < n \<Longrightarrow> arena_ok h (a k)" "\<And>r f. h r = Some f \<Longrightarrow> r < i \<and> (\<exists>k < n. arena_data (a k) = Some r)"
    and "\<And>j k r. j < n \<Longrightarrow> k < n \<Longrightarrow> arena_data (a j) = Some r \<Longrightarrow> arena_data (a k) = Some r \<Longrightarrow> j = k"
  shows "arenas_ok n a h i"
  unfolding arenas_ok_def using assms by (simp add: dom_def) blast

lemma arenas_cong: "(\<And>k. k < n \<Longrightarrow> a k = b k) \<Longrightarrow> arenas_ok n a h i = arenas_ok n b h i"
  by (simp add: arenas_ok_def cong: conj_cong)

lemma given_cong: "stack_last m' = stack_last m \<Longrightarrow> (\<And>k. k < stack_last m \<Longrightarrow> arena_of m' k = arena_of m k) \<Longrightarrow> given m' = given m"
  by (auto simp: given_def)

lemma no_arena_simps [simp]: "arena_data no_arena = None" "free_offset no_arena = 0" "arena_size no_arena = 0" "arena_ok h no_arena"
  by (simp_all add: no_arena_def arena_ok_def)

lemma no_memory_ok: "memory_ok no_memory"
  by (simp add: memory_ok_def no_memory_def stack_ok_def arenas_ok_def)

lemma arenas_push: "arenas_ok n a h i \<Longrightarrow> a n = no_arena \<Longrightarrow> arenas_ok (Suc n) a h i"
  by (auto simp: arenas_ok_def less_Suc_eq)

lemma context_push_ok:
  assumes "memory_ok m" "stack_last m < 10" "length name < 256"
  shows "\<exists>m'. context_push m name = (m', int (stack_last m)) \<and> memory_ok m' \<and> stack_last m' = Suc (stack_last m) \<and>
    mapped m' = mapped m \<and> given m' = given m \<and> (\<forall>k < stack_last m. arena_of m' k = arena_of m k) \<and>
    arena_of m' (stack_last m) = no_arena"
proof -
  let ?k = "stack_last m"
  define m1 where "m1 = (if ?k = stack_size m then context_stack_expand m else m)"
  have s: "stack_ok m" and a: "arenas_ok ?k (arena_of m) (mapped m) (next_map m)" using assms(1) by (simp_all add: memory_ok_def)
  have m1: "stack_last m1 = ?k" "mapped m1 = mapped m" "next_map m1 = next_map m" "stack_size m1 = 10" "stack_ok m1"
    "\<forall>k < ?k. arena_of m1 k = arena_of m k"
    using s assms(2) by (auto simp: m1_def context_stack_expand_def stack_ok_def arena_of_def zero_context_def)
  let ?m = "m1\<lparr>contexts := (contexts m1)[?k := (contexts m1 ! ?k)\<lparr>ctx_name := Some name\<rparr>], stack_last := Suc ?k\<rparr>"
  have l: "length (contexts m1) = 10" using m1(4,5) by (simp add: stack_ok_def)
  have ar: "ctx_arena (contexts ?m ! k) = ctx_arena (contexts m1 ! k)" for k
    using l assms(2) by (cases "k = ?k") simp_all
  then have of: "arena_of ?m = arena_of m1" by (simp add: arena_of_def fun_eq_iff)
  have none: "arena_of m1 ?k = no_arena" using m1(1,4,5) assms(2) by (simp add: stack_ok_def)
  have "stack_ok ?m" using m1 assms(2) ar of by (simp add: stack_ok_def)
  moreover have "arenas_ok ?k (arena_of ?m) (mapped m) (next_map m)" using arenas_cong [THEN iffD1, OF _ a] m1(6) of by simp
  with none of have "arenas_ok (Suc ?k) (arena_of ?m) (mapped m) (next_map m)" using arenas_push by metis
  moreover have "context_push m name = (?m, int ?k)" using assms(3) m1(1) by (simp add: context_push_def m1_def Let_def)
  moreover have "given ?m = given m" using m1(6) none by (auto simp: given_def of less_Suc_eq)
  ultimately show ?thesis using m1 none by (intro exI [of _ ?m]) (simp add: memory_ok_def of)
qed

text \<open>Leaving a context unmaps what it owns, and nothing else.\<close>

lemma arenas_pop:
  assumes "arenas_ok (Suc n) a h i"
  shows "arenas_ok n a (case arena_data (a n) of None \<Rightarrow> h | Some r \<Rightarrow> h(r := None)) i"
proof (cases "arena_data (a n)")
  case None
  have "\<exists>k < n. arena_data (a k) = Some r" if "h r = Some f" for r f
    using arenasD(3) [OF assms that] None by (metis less_Suc_eq option.distinct(1))
  then show ?thesis unfolding None option.case using arenasD [OF assms] by (intro arenasI) (auto intro: less_SucI)
next
  case (Some q)
  have other: "arena_data (a k) \<noteq> Some q" if "k < n" for k
    using arenasD(4) [OF assms, of k n q] that Some by auto
  have "arena_ok (h(q := None)) (a k)" if "k < n" for k
    using arenasD(1) [OF assms, of k] other [OF that] that by (auto simp: arena_ok_def split: option.splits)
  moreover have "\<exists>k < n. arena_data (a k) = Some r" if "h r = Some f" "r \<noteq> q" for r f
    using arenasD(3) [OF assms that(1)] Some that(2) by (metis less_Suc_eq option.inject)
  ultimately show ?thesis unfolding Some option.case using arenasD [OF assms]
    by (intro arenasI) (auto intro: less_SucI split: if_splits)
qed

lemma context_pop_ok:
  assumes "memory_ok m" "stack_last m = Suc k"
  shows "\<exists>m'. context_pop m = Inr (m', int k) \<and> memory_ok m' \<and> stack_last m' = k \<and>
    given m' = {p \<in> given m. arena_data (arena_of m k) \<noteq> Some (fst p)} \<and>
    (\<forall>p \<in> given m'. cell_at m' p = cell_at m p) \<and> (\<forall>j < k. arena_of m' j = arena_of m j)"
proof -
  let ?a = "arena_of m k"
  let ?h = "case arena_data ?a of None \<Rightarrow> mapped m | Some r \<Rightarrow> (mapped m)(r := None)"
  have s: "stack_ok m" and a: "arenas_ok (Suc k) (arena_of m) (mapped m) (next_map m)" using assms by (simp_all add: memory_ok_def)
  have k: "k < stack_size m" "length (contexts m) = stack_size m" "ctx_arena (contexts m ! k) = Some ?a" "stack_last m \<noteq> 0"
    using s assms(2) by (auto simp: stack_ok_def arena_of_def)
  have "arena_ok (mapped m) ?a" using a by (simp add: arenas_ok_def)
  then have f: "arena_flush m ?a = (m\<lparr>mapped := ?h\<rparr>, no_arena)"
    by (auto simp: arena_flush_def arena_ok_def split: option.splits)
  let ?m = "m\<lparr>mapped := ?h, contexts := (contexts m)[k := \<lparr>ctx_name = Some [], ctx_arena = Some no_arena\<rparr>], stack_last := k\<rparr>"
  have run: "context_pop m = Inr (?m, int k)" using k f assms(2) by (simp add: context_pop_def Let_def)
  have of: "arena_of ?m j = (if j = k then no_arena else arena_of m j)" for j using k by (simp add: arena_of_def)
  have "stack_ok ?m" using s k assms(2) of by (auto simp: stack_ok_def nth_list_update le_less)
  moreover have "arenas_ok k (arena_of ?m) ?h (next_map m)" using arenas_pop [OF a] arenas_cong [of k "arena_of ?m" "arena_of m"] of by simp
  ultimately have ok: "memory_ok ?m" by (simp add: memory_ok_def)
  have g: "given ?m = {p \<in> given m. arena_data ?a \<noteq> Some (fst p)}"
  proof -
    have "arena_data (arena_of m j) \<noteq> arena_data ?a" if "j < k" "arena_data (arena_of m j) = Some r" for j r
      using a that unfolding arenas_ok_def by (metis less_Suc_eq nat_neq_iff)
    then show ?thesis using assms(2) of by (fastforce simp: given_def less_Suc_eq)
  qed
  have "\<forall>p \<in> given ?m. cell_at ?m p = cell_at m p" unfolding g by (auto simp: cell_at_def split: option.splits)
  with run ok g of show ?thesis by (intro exI [of _ ?m]) simp
qed

subsection \<open>Getting memory\<close>

definition used :: "memory \<Rightarrow> nat" where
  "used m = free_offset (arena_of m (stack_last m - 1))"

definition room :: "memory \<Rightarrow> nat \<Rightarrow> bool" where
  "room m n \<longleftrightarrow> 0 < stack_last m \<and> used m + align_to_word_size n \<le> TEMP_DEFAULT_SIZE"

lemma align_le: "n \<le> align_to_word_size n" "0 < align_to_word_size n" "align_to_word_size n \<le> n + 8"
proof -
  have "(n + 7) div 8 * 8 + (n + 7) mod 8 = n + 7" "(n + 7) mod 8 < 8" by simp_all
  then show "n \<le> align_to_word_size n" "0 < align_to_word_size n" "align_to_word_size n \<le> n + 8"
    unfolding align_to_word_size_def WORD_SIZE_def by (auto split: if_splits simp del: div_mult_mod_eq)
qed

lemma arenas_map:
  assumes "arenas_ok n a h i" "k < n" "a k = no_arena"
  shows "arenas_ok n (a(k := \<lparr>arena_size = TEMP_DEFAULT_SIZE, free_offset = 0, arena_data = Some i\<rparr>)) (h(i \<mapsto> (\<lambda>_. Byte nul))) (Suc i)"
    (is "arenas_ok n ?a ?h _")
proof (rule arenasI)
  have fresh: "arena_data (a j) \<noteq> Some i" if "j < n" for j
    using arenasD(2,5) [OF assms(1)] that by blast
  show "arena_ok ?h (?a j)" if "j < n" for j
    using arenasD(1) [OF assms(1) that] fresh [OF that] by (auto simp: arena_ok_def split: option.splits)
  show "j = l" if "j < n" "l < n" "arena_data (?a j) = Some r" "arena_data (?a l) = Some r" for j l r
    using arenasD(4) [OF assms(1) that(1,2)] fresh [OF that(1)] fresh [OF that(2)] that(3,4) by (auto split: if_splits)
  show "r < Suc i \<and> (\<exists>j < n. arena_data (?a j) = Some r)" if "?h r = Some f" for r f
  proof (cases "r = i")
    case False
    with that have "h r = Some f" by simp
    with arenasD(2,3) [OF assms(1)] obtain j where "r < i" "j < n" "arena_data (a j) = Some r" by blast
    with assms(3) show ?thesis by (intro conjI exI [of _ j]) auto
  qed (use assms(2) in auto)
qed

lemma arenas_bump:
  assumes "arenas_ok n a h i" "k < n" "arena_data (a k) = Some r" "free_offset (a k) + x \<le> TEMP_DEFAULT_SIZE"
  shows "arenas_ok n (a(k := (a k)\<lparr>free_offset := free_offset (a k) + x\<rparr>)) h i" (is "arenas_ok n ?a _ _")
proof (rule arenasI)
  have d: "arena_data (?a j) = arena_data (a j)" for j by simp
  show "arena_ok h (?a j)" if "j < n" for j
    using arenasD(1) [OF assms(1) that] assms(3,4) by (cases "j = k") (auto simp: arena_ok_def)
  show "j = l" if "j < n" "l < n" "arena_data (?a j) = Some r" "arena_data (?a l) = Some r" for j l r
    using arenasD(4) [OF assms(1) that(1,2)] that(3,4) unfolding d by blast
  show "r < i \<and> (\<exists>j < n. arena_data (?a j) = Some r)" if "h r = Some f" for r f
    using arenasD(2,3) [OF assms(1) that] unfolding d by blast
qed

text \<open>The state after the arena of the top context has changed to \<open>b\<close> on the mappings \<open>h\<close>.\<close>

definition set_top :: "memory \<Rightarrow> (nat \<rightharpoonup> (nat \<Rightarrow> cell)) \<Rightarrow> nat \<Rightarrow> arena_t \<Rightarrow> memory" where
  "set_top m h next b = m\<lparr>mapped := h, next_map := next, contexts := (contexts m)
     [stack_last m - 1 := (contexts m ! (stack_last m - 1))\<lparr>ctx_arena := Some b\<rparr>]\<rparr>"

lemma set_top_simps [simp]:
  "mapped (set_top m h next b) = h" "next_map (set_top m h next b) = next" "stack_last (set_top m h next b) = stack_last m"
  "cell_at (set_top m h next b) = (\<lambda>(r, i). the (h r) i)"
  by (simp_all add: set_top_def cell_at_def)

lemma set_top_ok:
  assumes "memory_ok m" "0 < stack_last m" "arenas_ok (stack_last m) ((arena_of m)(stack_last m - 1 := b)) h next"
  shows "memory_ok (set_top m h next b) \<and> arena_of (set_top m h next b) = (arena_of m)(stack_last m - 1 := b)"
proof
  have s: "stack_ok m" using assms(1) by (simp add: memory_ok_def)
  have k: "stack_last m - 1 < length (contexts m)" using s assms(2) by (auto simp: stack_ok_def)
  then show of: "arena_of (set_top m h next b) = (arena_of m)(stack_last m - 1 := b)"
    by (auto simp: set_top_def arena_of_def fun_eq_iff nth_list_update)
  have "ctx_arena (contexts (set_top m h next b) ! j) \<noteq> None" if "j < stack_size m" for j
    using s that k by (cases "j = stack_last m - 1") (simp_all add: set_top_def stack_ok_def)
  then have "stack_ok (set_top m h next b)" using s assms(2) unfolding stack_ok_def of
    by (auto simp: set_top_def)
  then show "memory_ok (set_top m h next b)" using assms(3) by (simp add: memory_ok_def of)
qed

definition below :: "memory \<Rightarrow> (nat \<times> nat) set" where
  "below m = {(r, i). \<exists>k < stack_last m - 1. arena_data (arena_of m k) = Some r \<and> i < free_offset (arena_of m k)}"

lemma given_top:
  assumes "0 < stack_last m" "\<forall>q. arena_data (arena_of m (stack_last m - 1)) = Some q \<longrightarrow> q = r"
    and "arena_data (arena_of m (stack_last m - 1)) = None \<longrightarrow> used m = 0"
  shows "given m = {(q, i). q = r \<and> i < used m} \<union> below m"
proof -
  have "given m = {(q, i). arena_data (arena_of m (stack_last m - 1)) = Some q \<and> i < used m} \<union> below m"
  proof -
    obtain k where k: "stack_last m = Suc k" using assms(1) by (cases "stack_last m") auto
    show ?thesis unfolding given_def below_def used_def k by (auto simp: less_Suc_eq)
  qed
  then show ?thesis using assms(2,3) by (cases "arena_data (arena_of m (stack_last m - 1))") auto
qed

lemma get_ok:
  assumes "memory_ok m" "room m n"
  shows "\<exists>m' r. context_get_memory m n = Inr (m', Some (r, used m)) \<and> memory_ok m' \<and> stack_last m' = stack_last m \<and>
    used m' = used m + align_to_word_size n \<and> given m' = given m \<union> block (r, used m) (align_to_word_size n) \<and>
    block (r, used m) (align_to_word_size n) \<inter> given m = {} \<and> (\<forall>p \<in> given m. cell_at m' p = cell_at m p) \<and>
    arena_data (arena_of m' (stack_last m - 1)) = Some r \<and> (\<forall>j \<ge> used m. cell_at m' (r, j) = Byte nul) \<and>
    (\<forall>j < stack_last m - 1. arena_of m' j = arena_of m j)"
proof -
  let ?k = "stack_last m - 1" and ?x = "align_to_word_size n"
  let ?a = "arena_of m ?k"
  have a: "arenas_ok (stack_last m) (arena_of m) (mapped m) (next_map m)" using assms(1) by (simp add: memory_ok_def)
  have pos: "0 < stack_last m" "?k < stack_last m" "used m + ?x \<le> TEMP_DEFAULT_SIZE" using assms(2) by (auto simp: room_def)
  have c: "ctx_arena (contexts m ! ?k) = Some ?a" using assms(1) pos by (auto simp: memory_ok_def stack_ok_def arena_of_def)
  have aok: "arena_ok (mapped m) ?a" by (rule arenasD(1) [OF a pos(2)])
  obtain h nx b r where s: "arenas_ok (stack_last m) ((arena_of m)(?k := b)) h nx" "arena_data b = Some r" "free_offset b = used m + ?x"
    "context_get_memory m n = Inr (set_top m h nx b, Some (r, used m))" "\<forall>p \<in> given m. the (h (fst p)) (snd p) = cell_at m p"
    "\<forall>j \<ge> used m. the (h r) j = Byte nul" "\<forall>i. (r, i) \<in> given m \<longrightarrow> i < used m"
    "\<forall>i < used m. (r, i) \<in> given m" "\<forall>q. arena_data ?a = Some q \<longrightarrow> q = r"
  proof (cases "arena_data ?a")
    case None
    then have none: "?a = no_arena" "used m = 0" using aok by (simp_all add: arena_ok_def used_def)
    let ?r = "next_map m"
    let ?h = "(mapped m)(?r \<mapsto> (\<lambda>_. Byte nul))"
    let ?b = "\<lparr>arena_size = TEMP_DEFAULT_SIZE, free_offset = ?x, arena_data = Some ?r\<rparr>"
    note m1 = arenas_map [OF a pos(2) none(1)]
    have b: "arenas_ok (stack_last m) ((arena_of m)(?k := ?b)) ?h (Suc ?r)"
      using arenas_bump [OF m1 pos(2), of ?r ?x] pos(3) none(2) by simp
    have new: "mapped m ?r = None" using arenasD(2) [OF a, of ?r] by (cases "mapped m ?r") auto
    have run: "context_get_memory m n = Inr (set_top m ?h (Suc ?r) ?b, Some (?r, used m))"
      using pos none by (simp add: context_get_memory_def c [simplified] Let_def arena_get_memory_def arena_reserve_memory_def set_top_def)
    have out: "(?r, i) \<notin> given m" for i using arenasD(5) [OF a] new by (fastforce simp: given_def)
    then have "\<forall>p \<in> given m. the (?h (fst p)) (snd p) = cell_at m p" by (auto simp: cell_at_def)
    then show thesis using that [OF b _ _ run] none out by simp
  next
    case (Some r)
    let ?b = "?a\<lparr>free_offset := used m + ?x\<rparr>"
    have b: "arenas_ok (stack_last m) ((arena_of m)(?k := ?b)) (mapped m) (next_map m)"
      using arenas_bump [OF a pos(2) Some, of ?x] pos(3) by (simp add: used_def)
    have run: "context_get_memory m n = Inr (set_top m (mapped m) (next_map m) ?b, Some (r, used m))"
      using pos Some aok by (auto simp: context_get_memory_def c [simplified] Let_def arena_get_memory_def set_top_def used_def arena_ok_def)
    have zero: "\<forall>j \<ge> used m. the (mapped m r) j = Byte nul" using aok Some by (auto simp: arena_ok_def used_def)
    have below: "\<forall>i. (r, i) \<in> given m \<longrightarrow> i < used m" using arenasD(4) [OF a _ pos(2) _ Some] by (fastforce simp: given_def used_def)
    have own: "\<forall>i < used m. (r, i) \<in> given m" using Some pos(2) by (auto simp: given_def used_def)
    show thesis using that [OF b _ _ run _ zero below own] Some by (simp add: cell_at_def case_prod_unfold)
  qed
  note ok = set_top_ok [OF assms(1) pos(1) s(1)]
  let ?m = "set_top m h nx b"
  have same: "arena_of ?m j = arena_of m j" if "j < ?k" for j using ok that by simp
  have top: "arena_of ?m ?k = b" "used ?m = used m + ?x" using ok s(3) by (simp_all add: used_def)
  have "given ?m = {(q, i). q = r \<and> i < used m + ?x} \<union> below ?m"
    using given_top [of ?m r] pos(1) top s(2) by simp
  moreover have "below ?m = below m" using same by (auto simp: below_def)
  moreover have "arena_data ?a = None \<longrightarrow> used m = 0" using aok by (auto simp: arena_ok_def used_def)
  then have "given m = {(q, i). q = r \<and> i < used m} \<union> below m" by (rule given_top [OF pos(1) s(9)])
  ultimately have g: "given ?m = given m \<union> block (r, used m) ?x" by (auto simp: block_def)
  have "block (r, used m) ?x \<inter> given m = {}" using s(7) by (auto simp: block_def)
  with ok s g show ?thesis using pos by (intro exI [of _ "set_top m h nx b"] exI [of _ r]) (auto simp: used_def)
qed

subsection \<open>Writing into what was given out\<close>

definition writes :: "memory \<Rightarrow> (nat \<times> nat) set \<Rightarrow> memory \<Rightarrow> bool" where
  "writes m A m' \<longleftrightarrow> memory_ok m' \<and> stack_last m' = stack_last m \<and> contexts m' = contexts m \<and>
     (\<forall>p. p \<notin> A \<longrightarrow> cell_at m' p = cell_at m p)"

lemma writes_refl: "memory_ok m \<Longrightarrow> writes m A m"
  by (simp add: writes_def)

lemma writes_trans: "writes m A m1 \<Longrightarrow> writes m1 B m2 \<Longrightarrow> writes m (A \<union> B) m2"
  by (simp add: writes_def)

lemma writes_mono: "writes m A m' \<Longrightarrow> A \<subseteq> B \<Longrightarrow> writes m B m'"
  by (auto simp: writes_def)

lemma writes_same:
  assumes "writes m A m'"
  shows "arena_of m' = arena_of m" "given m' = given m" "used m' = used m" "room m' n = room m n" "memory_ok m'"
    "stack_last m' = stack_last m" "p \<notin> A \<Longrightarrow> cell_at m' p = cell_at m p"
proof -
  show of: "arena_of m' = arena_of m" using assms by (simp add: writes_def arena_of_def fun_eq_iff)
  then show "given m' = given m" "used m' = used m" "room m' n = room m n"
    using assms by (simp_all add: writes_def given_def used_def room_def)
qed (use assms in \<open>auto simp only: writes_def\<close>)

lemma given_cell:
  assumes "memory_ok m" "(r, i) \<in> given m"
  shows "\<exists>f. mapped m r = Some f \<and> i < TEMP_DEFAULT_SIZE"
proof -
  from assms(2) obtain k where k: "k < stack_last m" "arena_data (arena_of m k) = Some r" "i < free_offset (arena_of m k)"
    by (auto simp: given_def)
  have "arenas_ok (stack_last m) (arena_of m) (mapped m) (next_map m)" using assms(1) by (simp add: memory_ok_def)
  from arenasD(1) [OF this k(1)] have "arena_ok (mapped m) (arena_of m k)" .
  with k(2,3) show ?thesis by (auto simp: arena_ok_def)
qed

lemma fetch_ok:
  assumes "memory_ok m" "p \<in> given m"
  shows "fetch m (Some p) = Inr (cell_at m p)"
  using given_cell [of m "fst p" "snd p"] assms by (cases p) (auto simp: fetch_def cell_at_def)

lemma store_ok:
  assumes "memory_ok m" "p \<in> given m"
  shows "\<exists>m'. store m (Some p) v = Inr m' \<and> writes m {p} m' \<and> cell_at m' p = v"
proof -
  obtain r i where p: "p = (r, i)" by (cases p)
  from given_cell [of m r i] assms obtain f where f: "mapped m r = Some f" "i < TEMP_DEFAULT_SIZE" by (auto simp: p)
  let ?h = "(mapped m)(r \<mapsto> f(i := v))"
  let ?m = "m\<lparr>mapped := ?h\<rparr>"
  have a: "arenas_ok (stack_last m) (arena_of m) (mapped m) (next_map m)" using assms(1) by (simp add: memory_ok_def)
  from assms(2) obtain k where k: "k < stack_last m" "arena_data (arena_of m k) = Some r" "i < free_offset (arena_of m k)"
    by (auto simp: given_def p)
  have "arena_ok ?h (arena_of m j)" if "j < stack_last m" for j
  proof (cases "j = k")
    case True
    with arenasD(1) [OF a that] k f(1) show ?thesis by (auto simp: arena_ok_def)
  next
    case False
    with arenasD(4) [OF a that k(1) _ k(2)] have "arena_data (arena_of m j) \<noteq> Some r" by blast
    with arenasD(1) [OF a that] show ?thesis by (auto simp: arena_ok_def split: option.splits)
  qed
  then have "arenas_ok (stack_last m) (arena_of m) ?h (next_map m)"
    using arenasD [OF a] f(1) by (intro arenasI) (auto split: if_splits)
  moreover have "arena_of ?m = arena_of m" by (simp add: arena_of_def fun_eq_iff)
  ultimately have "memory_ok ?m" using assms(1) by (simp add: memory_ok_def stack_ok_def)
  then have "writes m {p} ?m" using f(1) by (auto simp: writes_def p cell_at_def)
  moreover have "store m (Some p) v = Inr ?m" using f by (simp add: store_def p)
  ultimately show ?thesis by (intro exI [of _ ?m]) (simp add: p cell_at_def)
qed

lemma shift_simps [simp]: "shift None n = None" "shift (Some (r, i)) n = Some (r, i + n)"
  by (simp_all add: shift_def)

lemma write_cells_ok:
  assumes "memory_ok m" "0 < w" "\<forall>k < length vs. (r, i + k * w) \<in> given m"
  shows "\<exists>m'. write_cells m (Some (r, i)) w vs = Inr m' \<and> writes m {(r, i + k * w) | k. k < length vs} m' \<and>
    (\<forall>k < length vs. cell_at m' (r, i + k * w) = vs ! k)"
  using assms
proof (induction vs arbitrary: m i)
  case Nil
  then show ?case by (simp add: writes_refl)
next
  case (Cons v vs)
  have "(r, i) \<in> given m" using Cons.prems(3) by force
  from store_ok [OF Cons.prems(1) this, of v] obtain m1 where
    m1: "store m (Some (r, i)) v = Inr m1" "writes m {(r, i)} m1" "cell_at m1 (r, i) = v" by blast
  have "\<forall>k < length vs. (r, i + w + k * w) \<in> given m1"
  proof (intro allI impI)
    fix k assume "k < length vs"
    with Cons.prems(3) have "(r, i + Suc k * w) \<in> given m" by (simp del: mult_Suc)
    then show "(r, i + w + k * w) \<in> given m1" by (simp add: writes_same(2) [OF m1(2)] algebra_simps)
  qed
  from Cons.IH [OF writes_same(5) [OF m1(2)] assms(2) this] obtain m2 where
    m2: "write_cells m1 (Some (r, i + w)) w vs = Inr m2" "writes m1 {(r, i + w + k * w) | k. k < length vs} m2"
      "\<forall>k < length vs. cell_at m2 (r, i + w + k * w) = vs ! k" by blast
  let ?A = "{(r, i + k * w) | k. k < length (v # vs)}"
  have "(r, i + w + k * w) \<in> ?A" if "k < length vs" for k
    using that by (intro CollectI exI [of _ "Suc k"]) (simp add: algebra_simps)
  moreover have "(r, i) \<in> ?A" by (intro CollectI exI [of _ 0]) simp
  ultimately have "{(r, i)} \<union> {(r, i + w + k * w) | k. k < length vs} \<subseteq> ?A" by blast
  from writes_mono [OF writes_trans [OF m1(2) m2(2)] this] have "writes m ?A m2" .
  moreover have "cell_at m2 (r, i) = v"
    using writes_same(7) [OF m2(2), of "(r, i)"] m1(3) assms(2) by auto
  with m2(3) have "cell_at m2 (r, i + k * w) = (v # vs) ! k" if "k < length (v # vs)" for k
    using that by (cases k) (simp_all add: algebra_simps)
  moreover have "write_cells m (Some (r, i)) w (v # vs) = Inr m2" using m1(1) m2(1) by simp
  ultimately show ?case by blast
qed

lemma move_ok:
  assumes "memory_ok m" "block (r, i) n \<subseteq> given m" "block (q, j) n \<subseteq> given m" "block (r, i) n \<inter> block (q, j) n = {}"
  shows "\<exists>m'. move m (Some (r, i)) (Some (q, j)) n = Inr m' \<and> writes m (block (r, i) n) m' \<and>
    (\<forall>k < n. cell_at m' (r, i + k) = cell_at m (q, j + k))"
  using assms
proof (induction n arbitrary: m i j)
  case 0
  then show ?case by (simp add: writes_refl)
next
  case (Suc n)
  have first: "(r, i) \<in> given m" "(q, j) \<in> given m" using Suc.prems(2,3) by (auto simp: block_def)
  from store_ok [OF Suc.prems(1) first(1), of "cell_at m (q, j)"] obtain m1 where
    m1: "store m (Some (r, i)) (cell_at m (q, j)) = Inr m1" "writes m {(r, i)} m1" "cell_at m1 (r, i) = cell_at m (q, j)" by blast
  have sub: "block (r, i + 1) n \<subseteq> block (r, i) (Suc n)" "block (q, j + 1) n \<subseteq> block (q, j) (Suc n)" by (auto simp: block_def)
  have "\<exists>m'. move m1 (Some (r, i + 1)) (Some (q, j + 1)) n = Inr m' \<and> writes m1 (block (r, i + 1) n) m' \<and>
    (\<forall>k < n. cell_at m' (r, i + 1 + k) = cell_at m1 (q, j + 1 + k))"
    using Suc.prems(2-4) sub by (intro Suc.IH writes_same(5) [OF m1(2)]) (auto simp: writes_same(2) [OF m1(2)])
  then obtain m2 where m2: "move m1 (Some (r, i + 1)) (Some (q, j + 1)) n = Inr m2" "writes m1 (block (r, i + 1) n) m2"
    "\<forall>k < n. cell_at m2 (r, i + 1 + k) = cell_at m1 (q, j + 1 + k)" by blast
  have "{(r, i)} \<union> block (r, i + 1) n \<subseteq> block (r, i) (Suc n)" by (auto simp: block_def)
  from writes_mono [OF writes_trans [OF m1(2) m2(2)] this] have "writes m (block (r, i) (Suc n)) m2" .
  moreover have "cell_at m2 (r, i + k) = cell_at m (q, j + k)" if k: "k < Suc n" for k
  proof (cases k)
    case 0
    then show ?thesis using m1(3) writes_same(7) [OF m2(2), of "(r, i)"] by (simp add: block_def)
  next
    case (Suc l)
    then have "(q, j + k) \<in> block (q, j) (Suc n)" using k by (simp add: block_def)
    moreover have "(r, i) \<in> block (r, i) (Suc n)" by (simp add: block_def)
    ultimately have "(q, j + k) \<noteq> (r, i)" using Suc.prems(4) by blast
    with m2(3) Suc k writes_same(7) [OF m1(2), of "(q, j + k)"] show ?thesis by simp
  qed
  moreover have "move m (Some (r, i)) (Some (q, j)) (Suc n) = Inr m2"
    using fetch_ok [OF Suc.prems(1) first(2)] m1(1) m2(1) by simp
  ultimately show ?case by blast
qed

subsection \<open>Properties\<close>

text \<open>Work in a context: getting memory, writing into it, and work in inner contexts that are left again.\<close>

inductive works :: "memory \<Rightarrow> memory \<Rightarrow> bool" where
  idle: "works m m"
| more: "works m m1 \<Longrightarrow> context_get_memory m1 n = Inr (m2, p) \<Longrightarrow> works m m2"
| change: "works m m1 \<Longrightarrow> p \<in> given m1 \<Longrightarrow> store m1 (Some p) v = Inr m2 \<Longrightarrow> works m m2"
| inner: "works m m1 \<Longrightarrow> stack_last m1 < 10 \<Longrightarrow> length name < 256 \<Longrightarrow> context_push m1 name = (m2, k) \<Longrightarrow>
    works m2 m3 \<Longrightarrow> context_pop m3 = Inr (m4, j) \<Longrightarrow> works m m4"

definition grown_from :: "memory \<Rightarrow> memory \<Rightarrow> bool" where
  "grown_from m m' \<longleftrightarrow> memory_ok m' \<and> stack_last m' = stack_last m \<and> given m \<subseteq> given m' \<and>
     (\<forall>k < stack_last m - 1. arena_of m' k = arena_of m k)"

lemma grown_trans: "grown_from m m1 \<Longrightarrow> grown_from m1 m2 \<Longrightarrow> grown_from m m2"
  by (auto simp: grown_from_def)

lemma get_fails:
  assumes "memory_ok m" "\<not> room m n" "context_get_memory m n = Inr (m', p)"
  shows "p = None \<and> grown_from m m'"
proof (cases "stack_last m = 0")
  case True
  with assms show ?thesis by (simp add: context_get_memory_def grown_from_def)
next
  case False
  let ?k = "stack_last m - 1"
  let ?a = "arena_of m ?k"
  have a: "arenas_ok (stack_last m) (arena_of m) (mapped m) (next_map m)" using assms(1) by (simp add: memory_ok_def)
  have k: "?k < stack_last m" "0 < stack_last m" using False by simp_all
  have c: "ctx_arena (contexts m ! ?k) = Some ?a" using assms(1) k by (auto simp: memory_ok_def stack_ok_def arena_of_def)
  have aok: "arena_ok (mapped m) ?a" by (rule arenasD(1) [OF a k(1)])
  have full: "TEMP_DEFAULT_SIZE < free_offset ?a + align_to_word_size n" using assms(2) False by (simp add: room_def used_def)
  obtain h nx b where s: "m' = set_top m h nx b" "p = None" "arenas_ok (stack_last m) ((arena_of m)(?k := b)) h nx"
    "free_offset b = free_offset ?a" "arena_data ?a \<noteq> None \<longrightarrow> arena_data b = arena_data ?a"
  proof (cases "arena_data ?a")
    case None
    then have none: "?a = no_arena" using aok by (simp add: arena_ok_def)
    with False full assms(3) that [OF _ _ arenas_map [OF a k(1)]] show thesis
      by (simp add: context_get_memory_def c [simplified] Let_def arena_get_memory_def arena_reserve_memory_def set_top_def none [simplified])
  next
    case (Some r)
    have "arenas_ok (stack_last m) ((arena_of m)(?k := ?a)) (mapped m) (next_map m)" using a by simp
    moreover have "arena_size ?a - free_offset ?a < align_to_word_size n" using full aok Some by (auto simp: arena_ok_def)
    ultimately show thesis using False assms(3) that [of "mapped m" "next_map m" ?a] Some
      by (simp add: context_get_memory_def c [simplified] Let_def arena_get_memory_def set_top_def)
  qed
  note ok = set_top_ok [OF assms(1) k(2) s(3)]
  have "\<exists>r. arena_data ?a = None \<or> arena_data ?a = Some r" by (cases "arena_data ?a") auto
  have "given m \<subseteq> given m'"
  proof
    fix q assume "q \<in> given m"
    then obtain j where j: "j < stack_last m" "arena_data (arena_of m j) = Some (fst q)" "snd q < free_offset (arena_of m j)"
      by (auto simp: given_def)
    then have "arena_data (arena_of m' j) = Some (fst q) \<and> free_offset (arena_of m' j) = free_offset (arena_of m j)"
      using ok s(1,4,5) by auto
    with j s(1) show "q \<in> given m'" by (cases q) (auto simp: given_def)
  qed
  with ok s(1,2) show ?thesis by (simp add: grown_from_def)
qed

lemma grown_get: "memory_ok m \<Longrightarrow> context_get_memory m n = Inr (m', p) \<Longrightarrow> grown_from m m'"
  using get_ok [of m n] get_fails [of m n m' p] by (cases "room m n") (auto simp: grown_from_def)

lemma grown_writes: "writes m A m' \<Longrightarrow> grown_from m m'"
  using writes_same [of m A m'] by (simp add: grown_from_def)

lemma works_grown: "works m m' \<Longrightarrow> memory_ok m \<Longrightarrow> grown_from m m'"
proof (induction rule: works.induct)
  case (idle m)
  then show ?case by (simp add: grown_from_def)
next
  case (more m m1 n m2 p)
  have g: "grown_from m m1" by (rule more.IH [OF more.prems])
  then have "memory_ok m1" by (simp add: grown_from_def)
  from grown_trans [OF g grown_get [OF this more.hyps(2)]] show ?case .
next
  case (change m m1 p v m2)
  have g: "grown_from m m1" by (rule change.IH [OF change.prems])
  then have "memory_ok m1" by (simp add: grown_from_def)
  from store_ok [OF this change.hyps(2), of v] change.hyps(3) have "writes m1 {p} m2" by auto
  from grown_trans [OF g grown_writes [OF this]] show ?case .
next
  case (inner m m1 name m2 k m3 m4 j)
  have g: "grown_from m m1" by (rule inner.IH(1) [OF inner.prems])
  then have ok: "memory_ok m1" by (simp add: grown_from_def)
  from context_push_ok [OF ok inner.hyps(2,3)] inner.hyps(4) have p: "memory_ok m2" "stack_last m2 = Suc (stack_last m1)"
    "\<forall>k < stack_last m1. arena_of m2 k = arena_of m1 k" by simp_all
  have "grown_from m2 m3" by (rule inner.IH(2) [OF p(1)])
  then have h: "memory_ok m3" "stack_last m3 = Suc (stack_last m1)" "\<forall>k < stack_last m1. arena_of m3 k = arena_of m1 k"
    using p(2,3) by (simp_all add: grown_from_def)
  from context_pop_ok [OF h(1,2)] inner.hyps(6) have q: "memory_ok m4" "stack_last m4 = stack_last m1"
    "\<forall>k < stack_last m1. arena_of m4 k = arena_of m3 k" by simp_all
  with h(3) have a: "\<forall>k < stack_last m1. arena_of m4 k = arena_of m1 k" by simp
  then have "given m4 = given m1" using given_cong [OF q(2)] by simp
  with q(1,2) a have "grown_from m1 m4" by (simp add: grown_from_def)
  with g show ?case by (rule grown_trans)
qed

text \<open>Property C36. Contexts nest. Whatever is done in a context and its inner contexts, if never more than ten are open, leaving it unmaps
  what it got and nothing else: the memory outside is as it was given out before, no mapping is lost and none is freed twice.\<close>

theorem context_gives_back:
  assumes "memory_ok m" "stack_last m < 10" "length name < 256" "context_push m name = (m1, k)" "works m1 m2"
  shows "\<exists>m3. context_pop m2 = Inr (m3, k) \<and> memory_ok m3 \<and> stack_last m3 = stack_last m \<and> given m3 = given m \<and>
    (\<forall>p \<in> given m. cell_at m3 p = cell_at m2 p) \<and> dom (mapped m3) = dom (mapped m)"
proof -
  from context_push_ok [OF assms(1-3)] assms(4) have p: "memory_ok m1" "stack_last m1 = Suc (stack_last m)" "k = int (stack_last m)"
    "\<forall>k < stack_last m. arena_of m1 k = arena_of m k" by auto
  from works_grown [OF assms(5) p(1)] p(2,4) have h: "memory_ok m2" "stack_last m2 = Suc (stack_last m)"
    "\<forall>k < stack_last m. arena_of m2 k = arena_of m k" by (auto simp: grown_from_def)
  from context_pop_ok [OF h(1,2)] obtain m3 where q: "context_pop m2 = Inr (m3, int (stack_last m))" "memory_ok m3" "stack_last m3 = stack_last m"
    "\<forall>p \<in> given m3. cell_at m3 p = cell_at m2 p" "\<forall>j < stack_last m. arena_of m3 j = arena_of m2 j" by blast
  have g: "given m3 = given m" using given_cong [OF q(3)] q(5) h(3) by simp
  have d: "r \<in> dom (mapped x) \<longleftrightarrow> (\<exists>j < stack_last x. arena_data (arena_of x j) = Some r)" if "memory_ok x" for x r
    using that arenasD(3,5) [of "stack_last x" "arena_of x" "mapped x" "next_map x"] unfolding memory_ok_def by blast
  have "r \<in> dom (mapped m3) \<longleftrightarrow> r \<in> dom (mapped m)" for r
    unfolding d [OF q(2), of r] d [OF assms(1), of r] using q(3,5) h(3) by auto
  then have "dom (mapped m3) = dom (mapped m)" by blast
  with q g p(3) show ?thesis by (intro exI [of _ m3]) simp
qed

text \<open>The eleventh open context breaks the stack: the ten arenas of the others are forgotten while their mappings stay,
  and its own was never initialised, so getting memory from it or leaving it reads it uninitialised.\<close>

theorem eleventh_context:
  assumes "memory_ok m" "stack_last m = 10" "length name < 256"
  shows "\<exists>m'. context_push m name = (m', 10) \<and> mapped m' = mapped m \<and> (\<forall>k < 10. arena_of m' k = no_arena) \<and>
    context_get_memory m' n = Inl UninitRead \<and> context_pop m' = Inl UninitRead"
proof -
  have s: "stack_size m = 10" "length (contexts m) = 10" using assms(1,2) by (auto simp: memory_ok_def stack_ok_def)
  let ?c = "replicate 10 zero_context @ replicate 10 unwritten"
  have e: "context_stack_expand m = m\<lparr>stack_size := 20, contexts := ?c\<rparr>" using s by (simp add: context_stack_expand_def)
  let ?m = "m\<lparr>stack_size := 20, contexts := ?c[10 := (?c ! 10)\<lparr>ctx_name := Some name\<rparr>], stack_last := 11\<rparr>"
  have "context_push m name = (?m, 10)" using assms(2,3) s by (simp add: context_push_def Let_def e)
  moreover have "ctx_arena (contexts ?m ! 10) = None" by (simp add: nth_append unwritten_def)
  moreover have "arena_of ?m k = no_arena" if "k < 10" for k using that by (simp add: arena_of_def nth_append zero_context_def)
  ultimately show ?thesis by (intro exI [of _ ?m]) (simp add: context_get_memory_def context_pop_def Let_def)
qed

lemma open_contexts: "n \<le> 10 \<Longrightarrow> \<exists>m. memory_ok m \<and> stack_last m = n"
proof (induction n)
  case 0
  show ?case using no_memory_ok by (intro exI [of _ no_memory]) (simp add: no_memory_def)
next
  case (Suc n)
  then obtain m where "memory_ok m" "stack_last m = n" by auto
  with Suc.prems context_push_ok [of m "[]"] show ?case by auto
qed

theorem context_gives_back_witness:
  "\<exists>m1 m2 m3 p. context_push no_memory ''main'' = (m1, 0) \<and> context_get_memory m1 100 = Inr (m2, Some p) \<and>
    context_pop m2 = Inr (m3, 0) \<and> mapped m3 = Map.empty"
proof -
  have z: "stack_last no_memory = 0" "mapped no_memory = Map.empty" by (simp_all add: no_memory_def)
  from context_push_ok [OF no_memory_ok, of "''main''"] z obtain m1 where
    m1: "context_push no_memory ''main'' = (m1, 0)" "memory_ok m1" "stack_last m1 = 1" "arena_of m1 0 = no_arena" by auto
  have "room m1 100" using m1(3,4) by (simp add: room_def used_def align_to_word_size_def WORD_SIZE_def TEMP_DEFAULT_SIZE_def)
  from get_ok [OF m1(2) this] obtain m2 p where m2: "context_get_memory m1 100 = Inr (m2, Some p)" by blast
  have "stack_last no_memory < 10" "length ''main'' < 256" using z by simp_all
  from context_gives_back [OF no_memory_ok this m1(1) works.more [OF works.idle m2]] z m1(1) m2 show ?thesis by auto
qed

theorem eleventh_context_witness:
  "\<exists>m m'. memory_ok m \<and> context_push m ''f'' = (m', 10) \<and> context_pop m' = Inl UninitRead"
proof -
  obtain m where m: "memory_ok m" "stack_last m = 10" using open_contexts [of 10] by auto
  moreover have "length ''f'' < 256" by simp
  ultimately show ?thesis using eleventh_context [OF m, of "''f''" 0] by blast
qed

end
