(* ===== verification/BuildStrings.thy ===== *)
theory BuildStrings
  imports BuildMemory
begin

section \<open>The strings and arrays of the build tool (cb.h)\<close>

text \<open>
  \<open>string_t\<close> and the generic array grow by getting a new block from the context and copying the old one. The size of a string
  does not count its NUL, and growing does not copy it: the zero of a fresh block takes its place. An element of an
  array is one cell, at every \<open>w\<close>-th byte of its block.
\<close>

subsection \<open>Strings\<close>

record string_t =
  st_size :: nat
  st_capacity :: nat
  st_data :: ptr

definition empty_string :: string_t where
  "empty_string = \<lparr>st_size = 0, st_capacity = 0, st_data = None\<rparr>"

text \<open>Reading a C string; \<open>n\<close> bytes of the mapping are left. A pointer where a character should be is no character.\<close>

fun scan_string :: "(nat \<Rightarrow> cell) \<Rightarrow> nat \<Rightarrow> nat \<Rightarrow> string res" where
  "scan_string f i 0 = Inl OutOfBounds"
| "scan_string f i (Suc n) =
     (case f i of
        Byte c \<Rightarrow> if c = nul then Inr [] else bind_res (scan_string f (Suc i) n) (\<lambda>s. Inr (c # s))
      | _ \<Rightarrow> Inl UninitRead)"

definition read_string :: "memory \<Rightarrow> ptr \<Rightarrow> string res" where
  "read_string m p =
     (case p of
        None \<Rightarrow> Inl NullDeref
      | Some (r, i) \<Rightarrow>
          (case mapped m r of None \<Rightarrow> Inl UseAfterFree | Some f \<Rightarrow> scan_string f i (TEMP_DEFAULT_SIZE - i)))"

definition text_cells :: "string \<Rightarrow> cell list" where
  "text_cells s = map Byte s"

definition strcat :: "memory \<Rightarrow> ptr \<Rightarrow> string \<Rightarrow> memory res" where
  "strcat m p s = bind_res (read_string m p) (\<lambda>t. write_cells m (shift p (length t)) 1 (text_cells (s @ [nul])))"

definition string_expand :: "memory \<Rightarrow> string_t \<Rightarrow> nat \<Rightarrow> (memory \<times> string_t) res" where
  "string_expand m str inc =
     bind_res (realloc_memory m (st_data str) (st_size str) (st_capacity str + inc)) (\<lambda>(m, p).
     bind_res (if st_size str = 0 then store m p (Byte nul) else Inr m) (\<lambda>m.
     Inr (m, str\<lparr>st_capacity := st_capacity str + inc, st_data := p\<rparr>)))"

definition string_append :: "memory \<Rightarrow> string_t \<Rightarrow> string \<Rightarrow> (memory \<times> string_t) res" where
  "string_append m str data =
     (let str = (if st_data str = None then empty_string else str);
          len = int (length data);
          available = int (st_capacity str) - int (st_size str) - 1
      in bind_res (if len \<ge> available then string_expand m str (nat (len - available)) else Inr (m, str)) (\<lambda>(m, str).
         bind_res (strcat m (st_data str) data) (\<lambda>m.
         Inr (m, str\<lparr>st_size := st_size str + length data\<rparr>))))"

fun string_append_many :: "memory \<Rightarrow> string_t \<Rightarrow> string list \<Rightarrow> (memory \<times> string_t) res" where
  "string_append_many m str [] = Inr (m, str)"
| "string_append_many m str (s # ss) = bind_res (string_append m str s) (\<lambda>(m, str). string_append_many m str ss)"

definition string_clear :: "memory \<Rightarrow> string_t \<Rightarrow> (memory \<times> string_t) res" where
  "string_clear m str =
     (if st_size str > 0
      then bind_res (write_cells m (st_data str) 1 (replicate (st_size str) (Byte nul))) (\<lambda>m. Inr (m, str\<lparr>st_size := 0\<rparr>))
      else Inr (m, str))"

text \<open>\<open>string_fappend\<close> of a text that the format gives. The new size is the whole capacity, so it counts the NUL;
  \<open>vsnprintf\<close> writes what fits.\<close>

definition string_fappend :: "memory \<Rightarrow> string_t \<Rightarrow> string \<Rightarrow> (memory \<times> string_t) res" where
  "string_fappend m str s =
     (if s = [] then Inr (m, str)
      else bind_res (string_expand m str (length s + 1)) (\<lambda>(m, str).
           let room = st_capacity str - st_size str in
           bind_res (write_cells m (shift (st_data str) (st_size str)) 1 (text_cells (take (room - 1) s @ [nul]))) (\<lambda>m.
           Inr (m, str\<lparr>st_size := st_capacity str\<rparr>))))"

subsection \<open>Arrays\<close>

record array_t =
  ar_data :: ptr
  ar_size :: nat
  ar_capacity :: nat

definition empty_array :: array_t where
  "empty_array = \<lparr>ar_data = None, ar_size = 0, ar_capacity = 0\<rparr>"

definition array_grow :: "memory \<Rightarrow> array_t \<Rightarrow> nat \<Rightarrow> nat \<Rightarrow> (memory \<times> array_t) res" where
  "array_grow m array n w =
     (if ar_capacity array < ar_size array + n
      then bind_res (realloc_memory m (ar_data array) (ar_size array * w) ((ar_capacity array + n) * w)) (\<lambda>(m, p).
           Inr (m, array\<lparr>ar_capacity := ar_capacity array + n, ar_data := p\<rparr>))
      else Inr (m, array))"

text \<open>Appending the values of a local array, or another array.\<close>

definition array_append_many :: "memory \<Rightarrow> array_t \<Rightarrow> cell list \<Rightarrow> nat \<Rightarrow> (memory \<times> array_t) res" where
  "array_append_many m array src w =
     bind_res (array_grow m array (length src) w) (\<lambda>(m, array).
     bind_res (write_cells m (shift (ar_data array) (ar_size array * w)) w src) (\<lambda>m.
     Inr (m, array\<lparr>ar_size := ar_size array + length src\<rparr>)))"

definition array_append_array :: "memory \<Rightarrow> array_t \<Rightarrow> array_t \<Rightarrow> nat \<Rightarrow> (memory \<times> array_t) res" where
  "array_append_array m array src w =
     (if ar_size src = 0 then Inr (m, array)
      else bind_res (array_grow m array (ar_size src) w) (\<lambda>(m, array).
           bind_res (move m (shift (ar_data array) (ar_size array * w)) (ar_data src) (ar_size src * w)) (\<lambda>m.
           Inr (m, array\<lparr>ar_size := ar_size array + ar_size src\<rparr>))))"

definition array_resize :: "memory \<Rightarrow> array_t \<Rightarrow> nat \<Rightarrow> nat \<Rightarrow> (memory \<times> array_t) res" where
  "array_resize m array w n =
     (if ar_capacity array < n
      then bind_res (realloc_memory m (ar_data array) (ar_size array * w) (n * w)) (\<lambda>(m, p).
           Inr (m, array\<lparr>ar_capacity := n, ar_data := p\<rparr>))
      else Inr (m, array))"

definition array_clear :: "array_t \<Rightarrow> array_t" where
  "array_clear array = array\<lparr>ar_size := 0\<rparr>"

subsection \<open>Blocks that grow\<close>

text \<open>What was given out stays, and of it only \<open>A\<close> may change.\<close>

definition keeps :: "memory \<Rightarrow> (nat \<times> nat) set \<Rightarrow> memory \<Rightarrow> bool" where
  "keeps m A m' \<longleftrightarrow> grown_from m m' \<and> (\<forall>p \<in> given m - A. cell_at m' p = cell_at m p)"

lemma keeps_ok: "keeps m A m' \<Longrightarrow> memory_ok m' \<and> stack_last m' = stack_last m \<and> given m \<subseteq> given m'"
  by (simp add: keeps_def grown_from_def)

lemma keeps_cell: "keeps m A m' \<Longrightarrow> p \<in> given m \<Longrightarrow> p \<notin> A \<Longrightarrow> cell_at m' p = cell_at m p"
  by (cases p) (auto simp: keeps_def)

lemma keeps_refl: "memory_ok m \<Longrightarrow> keeps m A m"
  by (simp add: keeps_def grown_from_def)

lemma keeps_trans:
  assumes "keeps m A m1" "keeps m1 B m2" "B \<inter> given m \<subseteq> A"
  shows "keeps m A m2"
  unfolding keeps_def
proof
  show "grown_from m m2" using assms grown_trans by (auto simp: keeps_def)
  show "\<forall>p \<in> given m - A. cell_at m2 p = cell_at m p"
  proof
    fix p assume p: "p \<in> given m - A"
    then have "p \<in> given m1" "p \<notin> B" using keeps_ok [OF assms(1)] assms(3) by auto
    with keeps_cell [OF assms(2)] keeps_cell [OF assms(1)] p show "cell_at m2 p = cell_at m p" by simp
  qed
qed

lemma keeps_mono: "keeps m A m' \<Longrightarrow> A \<subseteq> B \<Longrightarrow> keeps m B m'"
  by (auto simp: keeps_def)

lemma writes_keeps: "writes m A m' \<Longrightarrow> keeps m A m'"
  using grown_writes [of m A m'] by (auto simp: keeps_def writes_def)

lemma block_sub: "block (r, i) n \<subseteq> A \<Longrightarrow> k < n \<Longrightarrow> (r, i + k) \<in> A"
  by (auto simp: block_def)

lemma block_mono: "n \<le> k \<Longrightarrow> block p n \<subseteq> block p k"
  by (auto simp: block_def)

text \<open>A block is replaced by a longer one: a copy, and zeros behind it.\<close>

lemma realloc_ok:
  assumes "memory_ok m" "room m new" "old \<le> new" "\<And>p. addr = Some p \<Longrightarrow> block p old \<subseteq> given m"
  shows "\<exists>m' q. realloc_memory m addr old new = Inr (m', Some (q, used m)) \<and> keeps m {} m' \<and>
    used m' = used m + align_to_word_size new \<and> block (q, used m) (align_to_word_size new) \<subseteq> given m' \<and>
    block (q, used m) (align_to_word_size new) \<inter> given m = {} \<and> arena_data (arena_of m' (stack_last m - 1)) = Some q \<and>
    (\<forall>r i. addr = Some (r, i) \<longrightarrow> (\<forall>k < old. cell_at m' (q, used m + k) = cell_at m (r, i + k))) \<and>
    (\<forall>k \<ge> if addr = None then 0 else old. cell_at m' (q, used m + k) = Byte nul)"
proof -
  from get_ok [OF assms(1,2)] obtain m1 q where g: "context_get_memory m new = Inr (m1, Some (q, used m))" "memory_ok m1"
    "stack_last m1 = stack_last m" "used m1 = used m + align_to_word_size new"
    "given m1 = given m \<union> block (q, used m) (align_to_word_size new)"
    "block (q, used m) (align_to_word_size new) \<inter> given m = {}" "\<forall>p \<in> given m. cell_at m1 p = cell_at m p"
    "arena_data (arena_of m1 (stack_last m - 1)) = Some q" "\<forall>j \<ge> used m. cell_at m1 (q, j) = Byte nul"
    "\<forall>j < stack_last m - 1. arena_of m1 j = arena_of m j" by blast
  have k1: "keeps m {} m1" using g by (simp add: keeps_def grown_from_def)
  show ?thesis
  proof (cases "addr = None \<or> old = 0")
    case True
    then have "realloc_memory m addr old new = Inr (m1, Some (q, used m))" using g(1) by (auto simp: realloc_memory_def)
    with True k1 g show ?thesis by (intro exI [of _ m1] exI [of _ q]) auto
  next
    case False
    then obtain r i where a: "addr = Some (r, i)" by auto
    have sub: "block (q, used m) old \<subseteq> block (q, used m) (align_to_word_size new)"
      using assms(3) align_le(1) [of new] by (intro block_mono) simp
    have src: "block (r, i) old \<subseteq> given m" by (rule assms(4) [OF a])
    have "block (q, used m) old \<subseteq> given m1" "block (r, i) old \<subseteq> given m1" "block (q, used m) old \<inter> block (r, i) old = {}"
      using sub src g(5,6) by auto
    from move_ok [OF g(2) this] obtain m2 where m2: "move m1 (Some (q, used m)) (Some (r, i)) old = Inr m2"
      "writes m1 (block (q, used m) old) m2" "\<forall>k < old. cell_at m2 (q, used m + k) = cell_at m1 (r, i + k)" by blast
    have "realloc_memory m addr old new = Inr (m2, Some (q, used m))" using g(1) m2(1) a False by (simp add: realloc_memory_def)
    moreover have "keeps m {} m2" using keeps_trans [OF k1 writes_keeps [OF m2(2)]] sub g(6) by auto
    moreover have "\<forall>k < old. cell_at m2 (q, used m + k) = cell_at m (r, i + k)"
      using m2(3) g(7) block_sub [OF src] by auto
    moreover have "\<forall>k \<ge> old. cell_at m2 (q, used m + k) = Byte nul"
      using writes_same(7) [OF m2(2)] g(9) by (auto simp: block_def)
    ultimately show ?thesis using False a g(4-6,8) writes_same(1-3) [OF m2(2)]
      by (intro exI [of _ m2] exI [of _ q]) auto
  qed
qed

subsection \<open>Strings hold their texts\<close>

definition text_at :: "memory \<Rightarrow> nat \<times> nat \<Rightarrow> string \<Rightarrow> bool" where
  "text_at m p t \<longleftrightarrow> (\<forall>k < length t. cell_at m (fst p, snd p + k) = Byte (t ! k)) \<and> cell_at m (fst p, snd p + length t) = Byte nul"

definition holds :: "memory \<Rightarrow> string_t \<Rightarrow> string \<Rightarrow> bool" where
  "holds m str t \<longleftrightarrow> nul \<notin> set t \<and> st_size str = length t \<and> (case st_data str of
     None \<Rightarrow> t = [] \<and> st_capacity str = 0
   | Some p \<Rightarrow> length t < st_capacity str \<and> block p (st_capacity str) \<subseteq> given m \<and> text_at m p t)"

definition owned :: "string_t \<Rightarrow> (nat \<times> nat) set" where
  "owned str = (case st_data str of None \<Rightarrow> {} | Some p \<Rightarrow> block p (st_capacity str))"

lemma holds_empty [simp]: "holds m empty_string []"
  by (simp add: holds_def empty_string_def)

lemma text_at_cong: "(\<And>k. k \<le> length t \<Longrightarrow> cell_at m' (fst p, snd p + k) = cell_at m (fst p, snd p + k)) \<Longrightarrow> text_at m' p t = text_at m p t"
  by (simp add: text_at_def)

lemma holds_keeps:
  assumes "holds m str t" "keeps m A m'" "A \<inter> owned str = {}"
  shows "holds m' str t"
proof (cases "st_data str")
  case (Some p)
  obtain r i where p: "p = (r, i)" by (cases p)
  from assms(1) Some have h: "length t < st_capacity str" "block p (st_capacity str) \<subseteq> given m" "text_at m p t" by (simp_all add: holds_def)
  have "cell_at m' (r, i + k) = cell_at m (r, i + k)" if "k \<le> length t" for k
  proof -
    have b: "(r, i + k) \<in> block p (st_capacity str)" using h(1) that by (simp add: block_def p)
    with h(2) assms(3) Some have "(r, i + k) \<in> given m" "(r, i + k) \<notin> A" by (auto simp: owned_def)
    then show ?thesis by (rule keeps_cell [OF assms(2)])
  qed
  then have "text_at m' p t" using h(3) text_at_cong [of t m' p m] by (simp add: p)
  with assms(1) Some h keeps_ok [OF assms(2)] show ?thesis by (auto simp: holds_def)
qed (use assms in \<open>simp add: holds_def\<close>)

lemma scan_text:
  "\<forall>k < length t. f (i + k) = Byte (t ! k) \<Longrightarrow> f (i + length t) = Byte nul \<Longrightarrow> nul \<notin> set t \<Longrightarrow> length t < n \<Longrightarrow>
   scan_string f i n = Inr t"
proof (induction t arbitrary: i n)
  case Nil
  then show ?case by (cases n) simp_all
next
  case (Cons c t)
  obtain l where n: "n = Suc l" "length t < l" using Cons.prems(4) by (cases n) auto
  have "f (Suc i + k) = Byte (t ! k)" if "k < length t" for k
    using Cons.prems(1) [rule_format, of "Suc k"] that by simp
  then have "scan_string f (Suc i) l = Inr t" using Cons.prems n by (intro Cons.IH) simp_all
  moreover have "f i = Byte c" using Cons.prems(1) by force
  ultimately show ?case using Cons.prems(3) n by auto
qed

lemma read_ok:
  assumes "memory_ok m" "block (r, i) (length t + 1) \<subseteq> given m" "text_at m (r, i) t" "nul \<notin> set t"
  shows "read_string m (Some (r, i)) = Inr t"
proof -
  have "(r, i + length t) \<in> given m" by (rule block_sub [OF assms(2)]) simp
  from given_cell [OF assms(1) this] obtain f where f: "mapped m r = Some f" "i + length t < TEMP_DEFAULT_SIZE" by blast
  have "scan_string f i (TEMP_DEFAULT_SIZE - i) = Inr t"
    using assms(3,4) f by (intro scan_text) (auto simp: text_at_def cell_at_def)
  with f(1) show ?thesis by (simp add: read_string_def)
qed

lemma strcat_ok:
  assumes "memory_ok m" "block (r, i) n \<subseteq> given m" "text_at m (r, i) t" "nul \<notin> set t" "length t + length s < n"
  shows "\<exists>m'. strcat m (Some (r, i)) s = Inr m' \<and> writes m (block (r, i) n) m' \<and> text_at m' (r, i) (t @ s)"
proof -
  have b: "block (r, i) (length t + 1) \<subseteq> given m" using assms(2,5) block_mono [of "length t + 1" n "(r, i)"] by auto
  let ?v = "text_cells (s @ [nul])"
  have "\<forall>k < length ?v. (r, i + length t + k * 1) \<in> given m"
    using block_sub [OF assms(2)] assms(5) by (auto simp: text_cells_def add.assoc)
  from write_cells_ok [OF assms(1) _ this] obtain m' where m': "write_cells m (Some (r, i + length t)) 1 ?v = Inr m'"
    "writes m {(r, i + length t + k * 1) | k. k < length ?v} m'" "\<forall>k < length ?v. cell_at m' (r, i + length t + k * 1) = ?v ! k" by auto
  have "writes m (block (r, i) n) m'" by (rule writes_mono [OF m'(2)]) (use assms(5) in \<open>auto simp: block_def text_cells_def\<close>)
  moreover have "strcat m (Some (r, i)) s = Inr m'" using read_ok [OF assms(1) b assms(3,4)] m'(1) by (simp add: strcat_def)
  moreover have "text_at m' (r, i) (t @ s)"
  proof -
    have "cell_at m' (r, i + k) = Byte ((t @ s) ! k)" if "k < length (t @ s)" for k
    proof (cases "k < length t")
      case True
      then have "cell_at m' (r, i + k) = cell_at m (r, i + k)" by (intro writes_same(7) [OF m'(2)]) auto
      with True assms(3) show ?thesis by (simp add: text_at_def nth_append)
    next
      case False
      then have "k - length t < length s" using that by simp
      with False m'(3) [rule_format, of "k - length t"] show ?thesis by (simp add: text_cells_def nth_append)
    qed
    moreover have "cell_at m' (r, i + length (t @ s)) = Byte nul"
      using m'(3) [rule_format, of "length s"] by (simp add: text_cells_def nth_append add.assoc)
    ultimately show ?thesis by (simp add: text_at_def)
  qed
  ultimately show ?thesis by blast
qed

lemma expand_ok:
  assumes "memory_ok m" "holds m str t" "room m (st_capacity str + inc)" "length t < st_capacity str + inc"
  shows "\<exists>m' p. string_expand m str inc = Inr (m', str\<lparr>st_capacity := st_capacity str + inc, st_data := Some p\<rparr>) \<and>
    keeps m {} m' \<and> holds m' (str\<lparr>st_capacity := st_capacity str + inc, st_data := Some p\<rparr>) t \<and>
    block p (st_capacity str + inc) \<inter> given m = {} \<and> used m' = used m + align_to_word_size (st_capacity str + inc)"
proof -
  let ?cap = "st_capacity str + inc"
  have n: "nul \<notin> set t" "st_size str = length t" using assms(2) by (simp_all add: holds_def)
  have old: "block p (st_size str) \<subseteq> given m" if "st_data str = Some p" for p
    using assms(2) that block_mono [of "length t" "st_capacity str" p] n(2) by (auto simp: holds_def)
  have le: "st_size str \<le> ?cap" using assms(4) n(2) by simp
  from realloc_ok [OF assms(1,3) le old] obtain m1 q where r: "realloc_memory m (st_data str) (st_size str) ?cap = Inr (m1, Some (q, used m))"
    "keeps m {} m1" "used m1 = used m + align_to_word_size ?cap" "block (q, used m) (align_to_word_size ?cap) \<subseteq> given m1"
    "block (q, used m) (align_to_word_size ?cap) \<inter> given m = {}"
    "\<forall>r i. st_data str = Some (r, i) \<longrightarrow> (\<forall>k < st_size str. cell_at m1 (q, used m + k) = cell_at m (r, i + k))"
    "\<forall>k \<ge> if st_data str = None then 0 else st_size str. cell_at m1 (q, used m + k) = Byte nul" by blast
  have b: "block (q, used m) ?cap \<subseteq> block (q, used m) (align_to_word_size ?cap)" using align_le(1) by (intro block_mono)
  have t1: "text_at m1 (q, used m) t"
  proof (cases "st_data str")
    case None
    then have "t = []" using assms(2) by (simp add: holds_def)
    with r(7) [rule_format, of 0] None show ?thesis by (simp add: text_at_def)
  next
    case (Some p)
    then have "text_at m p t" using assms(2) by (simp add: holds_def)
    with r(6,7) Some n(2) show ?thesis by (cases p) (simp add: text_at_def)
  qed
  obtain m2 where m2: "(if st_size str = 0 then store m1 (Some (q, used m)) (Byte nul) else Inr m1) = Inr m2"
    "writes m1 (block (q, used m) ?cap) m2" "text_at m2 (q, used m) t"
  proof (cases "st_size str = 0")
    case True
    have in_b: "(q, used m) \<in> block (q, used m) ?cap" using assms(4) by (simp add: block_def) arith
    then have "(q, used m) \<in> given m1" using b r(4) by blast
    from store_ok [OF _ this, of "Byte nul"] keeps_ok [OF r(2)] obtain m' where
      "store m1 (Some (q, used m)) (Byte nul) = Inr m'" "writes m1 {(q, used m)} m'" "cell_at m' (q, used m) = Byte nul" by auto
    with True that n(2) in_b writes_mono [of m1 "{(q, used m)}" m' "block (q, used m) ?cap"] show thesis
      by (simp add: text_at_def)
  next
    case False
    with that [of m1] t1 keeps_ok [OF r(2)] show thesis by (simp add: writes_refl)
  qed
  have "keeps m {} m2" using keeps_trans [OF r(2) writes_keeps [OF m2(2)]] b r(5) by auto
  moreover have "string_expand m str inc = Inr (m2, str\<lparr>st_capacity := ?cap, st_data := Some (q, used m)\<rparr>)"
    using r(1) m2(1) by (simp add: string_expand_def)
  moreover have "block (q, used m) ?cap \<subseteq> given m2" using b r(4) writes_same(2) [OF m2(2)] by auto
  moreover have "used m2 = used m + align_to_word_size ?cap" using r(3) writes_same(3) [OF m2(2)] by simp
  moreover have "block (q, used m) ?cap \<inter> given m = {}" using b r(5) by auto
  ultimately show ?thesis using n m2(3) assms(4)
    by (intro exI [of _ m2] exI [of _ "(q, used m)"]) (simp add: holds_def)
qed

lemma holds_strcat:
  assumes "memory_ok m" "holds m str t" "st_data str = Some p" "nul \<notin> set s" "length t + length s < st_capacity str"
  shows "\<exists>m'. strcat m (st_data str) s = Inr m' \<and> keeps m (owned str) m' \<and> used m' = used m \<and>
    holds m' (str\<lparr>st_size := st_size str + length s\<rparr>) (t @ s)"
proof -
  obtain r i where p: "p = (r, i)" by (cases p)
  from assms(2,3) have h: "block (r, i) (st_capacity str) \<subseteq> given m" "text_at m (r, i) t" "nul \<notin> set t" "st_size str = length t"
    by (simp_all add: holds_def p)
  from strcat_ok [OF assms(1) h(1-3) assms(5)] obtain m' where m': "strcat m (Some (r, i)) s = Inr m'"
    "writes m (block (r, i) (st_capacity str)) m'" "text_at m' (r, i) (t @ s)" by blast
  have "keeps m (owned str) m'" using writes_keeps [OF m'(2)] assms(3) p by (simp add: owned_def)
  with m' writes_same(2,3) [OF m'(2)] h assms(3-5) p show ?thesis
    by (intro exI [of _ m']) (simp add: holds_def)
qed

text \<open>Appending: a new block of exactly the size of text and NUL, unless the old one has room.\<close>

lemma append_ok:
  assumes "memory_ok m" "holds m str t" "nul \<notin> set s" "room m (length t + length s + 1)"
  shows "\<exists>m' str'. string_append m str s = Inr (m', str') \<and> keeps m (owned str) m' \<and> holds m' str' (t @ s) \<and> st_data str' \<noteq> None \<and>
    owned str' \<inter> given m \<subseteq> owned str \<and> used m' \<le> used m + align_to_word_size (length t + length s + 1)"
proof -
  define old where "old = (if st_data str = None then empty_string else str)"
  have old: "holds m old t" "owned old = owned str"
    using assms(2) by (auto simp: old_def holds_def empty_string_def owned_def)
  let ?len = "int (length s)" and ?available = "int (st_capacity old) - int (st_size old) - 1"
  have n: "st_size old = length t" using old(1) by (simp add: holds_def)
  show ?thesis
  proof (cases "?len \<ge> ?available")
    case True
    let ?inc = "nat (?len - ?available)"
    have "?available \<ge> -1" using old(1) by (auto simp: holds_def split: option.splits)
    then have cap: "st_capacity old + ?inc = length t + length s + 1" using True n by simp
    have "length t < length t + length s + 1" by simp
    from expand_ok [OF assms(1) old(1), of ?inc, unfolded cap, OF assms(4) this] obtain m1 p where
      e: "string_expand m old ?inc = Inr (m1, old\<lparr>st_capacity := length t + length s + 1, st_data := Some p\<rparr>)" "keeps m {} m1"
        "holds m1 (old\<lparr>st_capacity := length t + length s + 1, st_data := Some p\<rparr>) t"
        "block p (length t + length s + 1) \<inter> given m = {}" "used m1 = used m + align_to_word_size (length t + length s + 1)"
      by blast
    let ?new = "old\<lparr>st_capacity := length t + length s + 1, st_data := Some p\<rparr>"
    have ok1: "memory_ok m1" using keeps_ok [OF e(2)] by blast
    from holds_strcat [OF ok1 e(3) _ assms(3)] obtain m2 where
      c: "strcat m1 (Some p) s = Inr m2" "keeps m1 (owned ?new) m2" "used m2 = used m1" "holds m2 (?new\<lparr>st_size := st_size ?new + length s\<rparr>) (t @ s)"
      by auto
    have own: "owned (?new\<lparr>st_size := x\<rparr>) = block p (length t + length s + 1)" for x by (simp add: owned_def)
    have "keeps m (owned str) m2" using keeps_trans [OF keeps_mono [OF e(2)] c(2), of "owned str"] e(4) by (auto simp: owned_def)
    moreover have "string_append m str s = Inr (m2, ?new\<lparr>st_size := st_size ?new + length s\<rparr>)"
      using True e(1) c(1) unfolding string_append_def old_def [symmetric] Let_def by simp
    ultimately show ?thesis using c(3,4) e(4,5) own
      by (intro exI [of _ m2] exI [of _ "?new\<lparr>st_size := st_size ?new + length s\<rparr>"]) simp
  next
    case False
    then obtain p where p: "st_data old = Some p" using old(1) n by (cases "st_data old") (auto simp: holds_def)
    have "length t + length s < st_capacity old" using False n by simp
    from holds_strcat [OF assms(1) old(1) p assms(3) this] obtain m1 where
      c: "strcat m (st_data old) s = Inr m1" "keeps m (owned old) m1" "used m1 = used m" "holds m1 (old\<lparr>st_size := st_size old + length s\<rparr>) (t @ s)"
      by blast
    have "string_append m str s = Inr (m1, old\<lparr>st_size := st_size old + length s\<rparr>)"
      using False c(1) unfolding string_append_def old_def [symmetric] Let_def by simp
    with c p old(2) show ?thesis
      by (intro exI [of _ m1] exI [of _ "old\<lparr>st_size := st_size old + length s\<rparr>"]) (auto simp: owned_def)
  qed
qed

text \<open>Clearing keeps the block.\<close>

lemma clear_ok:
  assumes "memory_ok m" "holds m str t"
  shows "\<exists>m' str'. string_clear m str = Inr (m', str') \<and> keeps m (owned str) m' \<and> holds m' str' [] \<and>
    owned str' = owned str \<and> used m' = used m"
proof (cases "t = []")
  case True
  with assms show ?thesis by (intro exI [of _ m] exI [of _ str]) (simp add: string_clear_def holds_def keeps_refl)
next
  case False
  then obtain r i where p: "st_data str = Some (r, i)" using assms(2) by (cases "st_data str") (auto simp: holds_def)
  with assms(2) have h: "st_size str = length t" "length t < st_capacity str" "block (r, i) (st_capacity str) \<subseteq> given m" "text_at m (r, i) t"
    by (simp_all add: holds_def)
  let ?v = "replicate (st_size str) (Byte nul)"
  have "\<forall>k < length ?v. (r, i + k * 1) \<in> given m" using block_sub [OF h(3)] h(1,2) by auto
  from write_cells_ok [OF assms(1) _ this] obtain m' where m': "write_cells m (Some (r, i)) 1 ?v = Inr m'"
    "writes m {(r, i + k * 1) | k. k < length ?v} m'" "\<forall>k < length ?v. cell_at m' (r, i + k * 1) = ?v ! k" by auto
  have w: "writes m (block (r, i) (st_capacity str)) m'"
    by (rule writes_mono [OF m'(2)]) (use h(1,2) in \<open>auto simp: block_def\<close>)
  have "cell_at m' (r, i) = Byte nul" using m'(3) [rule_format, of 0] False h(1) by (cases t) simp_all
  with h w writes_same(2,3) [OF w] p m'(1) False have "string_clear m str = Inr (m', str\<lparr>st_size := 0\<rparr>)"
    "holds m' (str\<lparr>st_size := 0\<rparr>) []" by (simp_all add: string_clear_def holds_def text_at_def)
  with writes_keeps [OF w] writes_same(3) [OF w] p show ?thesis
    by (intro exI [of _ m'] exI [of _ "str\<lparr>st_size := 0\<rparr>"]) (simp add: owned_def)
qed

lemma append_many_ok:
  assumes "memory_ok m" "holds m str t" "\<forall>s \<in> set ss. nul \<notin> set s" "0 < stack_last m"
    and "used m + length ss * (length t + length (concat ss) + 9) \<le> TEMP_DEFAULT_SIZE"
  shows "\<exists>m' str'. string_append_many m str ss = Inr (m', str') \<and> keeps m (owned str) m' \<and> holds m' str' (t @ concat ss) \<and>
    owned str' \<inter> given m \<subseteq> owned str \<and> used m' \<le> used m + length ss * (length t + length (concat ss) + 9) \<and>
    (ss \<noteq> [] \<longrightarrow> st_data str' \<noteq> None)"
  using assms
proof (induction ss arbitrary: m str t)
  case Nil
  then show ?case by (simp add: keeps_refl)
next
  case (Cons s ss)
  let ?n = "length t + length (concat (s # ss)) + 9"
  have a: "align_to_word_size (length t + length s + 1) \<le> ?n" using align_le(3) [of "length t + length s + 1"] by simp
  then have "room m (length t + length s + 1)" using Cons.prems(4,5) by (simp add: room_def)
  from append_ok [OF Cons.prems(1,2) _ this] Cons.prems(3) obtain m1 str1 where
    s1: "string_append m str s = Inr (m1, str1)" "keeps m (owned str) m1" "holds m1 str1 (t @ s)"
      "owned str1 \<inter> given m \<subseteq> owned str" "used m1 \<le> used m + align_to_word_size (length t + length s + 1)" "st_data str1 \<noteq> None" by auto
  have ok: "memory_ok m1" "stack_last m1 = stack_last m" "given m \<subseteq> given m1" using keeps_ok [OF s1(2)] by auto
  have "used m1 + length ss * (length (t @ s) + length (concat ss) + 9) \<le> TEMP_DEFAULT_SIZE"
    using s1(5) a Cons.prems(5) by (simp add: add.assoc)
  from Cons.IH [OF ok(1) s1(3) _ _ this] Cons.prems(3,4) ok(2) obtain m2 str2 where
    s2: "string_append_many m1 str1 ss = Inr (m2, str2)" "keeps m1 (owned str1) m2" "holds m2 str2 ((t @ s) @ concat ss)"
      "owned str2 \<inter> given m1 \<subseteq> owned str1" "used m2 \<le> used m1 + length ss * (length (t @ s) + length (concat ss) + 9)"
      "ss \<noteq> [] \<longrightarrow> st_data str2 \<noteq> None" by auto
  have "keeps m (owned str) m2" by (rule keeps_trans [OF s1(2) s2(2) s1(4)])
  moreover have "owned str2 \<inter> given m \<subseteq> owned str" using s2(4) s1(4) ok(3) by blast
  moreover have "used m2 \<le> used m + length (s # ss) * ?n" using s2(5) s1(5) a by (simp add: add.assoc)
  moreover have "st_data str2 \<noteq> None" using s2(1,6) s1(6) by (cases ss) auto
  ultimately show ?case using s1(1) s2(1,3) by simp
qed

text \<open>Text that a format gives, in a new string: the data are right, the size counts the NUL.\<close>

lemma fappend_ok:
  assumes "memory_ok m" "nul \<notin> set s" "s \<noteq> []" "room m (length s + 1)"
  shows "\<exists>m' str'. string_fappend m empty_string s = Inr (m', str') \<and> keeps m {} m' \<and> read_string m' (st_data str') = Inr s \<and>
    st_size str' = length s + 1"
proof -
  have "st_capacity empty_string + (length s + 1) = length s + 1" by (simp add: empty_string_def)
  note cap = this
  have "length ([] :: string) < length s + 1" by simp
  from expand_ok [OF assms(1) holds_empty, of "length s + 1", unfolded cap, OF assms(4) this] obtain m1 r i where
    e: "string_expand m empty_string (length s + 1) = Inr (m1, empty_string\<lparr>st_capacity := length s + 1, st_data := Some (r, i)\<rparr>)"
      "keeps m {} m1" "holds m1 (empty_string\<lparr>st_capacity := length s + 1, st_data := Some (r, i)\<rparr>) []"
      "block (r, i) (length s + 1) \<inter> given m = {}" by auto
  have ok: "memory_ok m1" "block (r, i) (length s + 1) \<subseteq> given m1" using keeps_ok [OF e(2)] e(3) by (auto simp: holds_def)
  let ?v = "text_cells (s @ [nul])"
  have len: "length ?v = length s + 1" by (simp add: text_cells_def)
  have "\<forall>k < length ?v. (r, i + k * 1) \<in> given m1" using block_sub [OF ok(2)] len by simp
  from write_cells_ok [OF ok(1) _ this] obtain m2 where m2: "write_cells m1 (Some (r, i)) 1 ?v = Inr m2"
    "writes m1 {(r, i + k * 1) | k. k < length ?v} m2" "\<forall>k < length ?v. cell_at m2 (r, i + k * 1) = ?v ! k" by auto
  have w: "writes m1 (block (r, i) (length s + 1)) m2" by (rule writes_mono [OF m2(2)]) (auto simp: block_def len)
  have "text_at m2 (r, i) s" using m2(3) by (auto simp: text_at_def text_cells_def nth_append)
  moreover have "block (r, i) (length s + 1) \<subseteq> given m2" using ok(2) writes_same(2) [OF w] by simp
  ultimately have "read_string m2 (Some (r, i)) = Inr s" using read_ok writes_same(5) [OF w] assms(2) by blast
  moreover have "keeps m {} m2" using keeps_trans [OF e(2) writes_keeps [OF w]] e(4) by auto
  ultimately show ?thesis using assms(3) e(1) m2(1)
    by (intro exI [of _ m2] exI [of _ "empty_string\<lparr>st_capacity := length s + 1, st_data := Some (r, i), st_size := length s + 1\<rparr>"])
      (simp add: string_fappend_def Let_def empty_string_def)
qed

subsection \<open>Arrays hold their values\<close>

definition values_at :: "memory \<Rightarrow> nat \<times> nat \<Rightarrow> nat \<Rightarrow> cell list \<Rightarrow> bool" where
  "values_at m p w vs \<longleftrightarrow> (\<forall>k < length vs. cell_at m (fst p, snd p + k * w) = vs ! k)"

definition has :: "memory \<Rightarrow> array_t \<Rightarrow> nat \<Rightarrow> cell list \<Rightarrow> bool" where
  "has m a w vs \<longleftrightarrow> ar_size a = length vs \<and> (case ar_data a of
     None \<Rightarrow> vs = [] \<and> ar_capacity a = 0
   | Some p \<Rightarrow> length vs \<le> ar_capacity a \<and> block p (ar_capacity a * w) \<subseteq> given m \<and> values_at m p w vs)"

text \<open>The last block given out, with no room left in it.\<close>

definition tight :: "memory \<Rightarrow> array_t \<Rightarrow> nat \<Rightarrow> bool" where
  "tight m a w \<longleftrightarrow> ar_capacity a = ar_size a \<and> (\<forall>r i. ar_data a = Some (r, i) \<longrightarrow>
     arena_data (arena_of m (stack_last m - 1)) = Some r \<and> i + ar_size a * w = used m)"

lemma has_empty [simp]: "has m empty_array w []" "tight m empty_array w"
  by (simp_all add: has_def empty_array_def tight_def)

lemma tight_full: "tight m a w \<Longrightarrow> ar_capacity a = ar_size a"
  by (simp add: tight_def)

lemma slot_in_block: "k < n \<Longrightarrow> 0 < w \<Longrightarrow> b < w \<Longrightarrow> (r, i + k * w + b) \<in> block (r, i) (n * w)"
proof -
  assume "k < n" "b < w"
  then have "k * w + b < Suc k * w" by simp
  also have "\<dots> \<le> n * w" using \<open>k < n\<close> by (intro mult_le_mono1) simp
  finally show ?thesis by (simp add: block_def)
qed

lemma values_keeps:
  assumes "values_at m p w vs" "keeps m {} m'" "block p (n * w) \<subseteq> given m" "length vs \<le> n" "0 < w"
  shows "values_at m' p w vs"
  unfolding values_at_def
proof (intro allI impI)
  fix k assume k: "k < length vs"
  have "(fst p, snd p + k * w) \<in> block p (n * w)" using slot_in_block [of k n w 0 "fst p" "snd p"] k assms(4,5) by simp
  then have "cell_at m' (fst p, snd p + k * w) = cell_at m (fst p, snd p + k * w)" using keeps_cell [OF assms(2)] assms(3) by blast
  with assms(1) k show "cell_at m' (fst p, snd p + k * w) = vs ! k" by (simp add: values_at_def)
qed

lemma align_words: "0 < k \<Longrightarrow> align_to_word_size (k * 8) = k * 8"
  by (simp add: align_to_word_size_def WORD_SIZE_def)

text \<open>An array of words that grows by \<open>n\<close>: a new last block, and the old values in it.\<close>

lemma grow_ok:
  assumes "memory_ok m" "has m a 8 vs" "ar_capacity a = ar_size a" "0 < n" "room m ((length vs + n) * 8)"
  shows "\<exists>m' q. array_grow m a n 8 = Inr (m', a\<lparr>ar_capacity := length vs + n, ar_data := Some (q, used m)\<rparr>) \<and> keeps m {} m' \<and>
    used m' = used m + (length vs + n) * 8 \<and> block (q, used m) ((length vs + n) * 8) \<subseteq> given m' \<and>
    block (q, used m) ((length vs + n) * 8) \<inter> given m = {} \<and> values_at m' (q, used m) 8 vs \<and>
    arena_data (arena_of m' (stack_last m - 1)) = Some q"
proof -
  have n: "ar_size a = length vs" "ar_capacity a = length vs" using assms(2,3) by (simp_all add: has_def)
  have old: "block p (length vs * 8) \<subseteq> given m" if "ar_data a = Some p" for p
    using assms(2) that n by (simp add: has_def)
  have al: "align_to_word_size ((length vs + n) * 8) = (length vs + n) * 8" using assms(4) by (intro align_words) simp
  have le: "length vs * 8 \<le> (length vs + n) * 8" by simp
  from realloc_ok [OF assms(1,5) le old, unfolded al] obtain m1 q where r: "realloc_memory m (ar_data a) (length vs * 8) ((length vs + n) * 8) = Inr (m1, Some (q, used m))"
    "keeps m {} m1" "used m1 = used m + (length vs + n) * 8" "block (q, used m) ((length vs + n) * 8) \<subseteq> given m1"
    "block (q, used m) ((length vs + n) * 8) \<inter> given m = {}" "arena_data (arena_of m1 (stack_last m - 1)) = Some q"
    "\<forall>r i. ar_data a = Some (r, i) \<longrightarrow> (\<forall>k < length vs * 8. cell_at m1 (q, used m + k) = cell_at m (r, i + k))"
    by blast
  have "values_at m1 (q, used m) 8 vs"
  proof (cases "ar_data a")
    case None
    then show ?thesis using assms(2) by (simp add: has_def values_at_def)
  next
    case (Some p)
    obtain r' i where p: "p = (r', i)" by (cases p)
    have "values_at m (r', i) 8 vs" using assms(2) Some by (simp add: has_def p)
    with r(7) Some p show ?thesis by (simp add: values_at_def)
  qed
  moreover have "array_grow m a n 8 = Inr (m1, a\<lparr>ar_capacity := length vs + n, ar_data := Some (q, used m)\<rparr>)"
    using r(1) n assms(4) by (simp add: array_grow_def)
  ultimately show ?thesis using r(2-6) by blast
qed

lemma has_keeps:
  assumes "has m a 8 vs" "keeps m {} m'"
  shows "has m' a 8 vs"
proof (cases "ar_data a")
  case (Some p)
  with assms(1) have h: "length vs \<le> ar_capacity a" "block p (ar_capacity a * 8) \<subseteq> given m" "values_at m p 8 vs" by (simp_all add: has_def)
  have "values_at m' p 8 vs" by (rule values_keeps [OF h(3) assms(2) h(2,1)]) simp
  with assms(1) Some h keeps_ok [OF assms(2)] show ?thesis by (auto simp: has_def)
qed (use assms(1) in \<open>simp add: has_def\<close>)

text \<open>What both kinds of append end in: the new values stand behind the old ones.\<close>

lemma appended:
  assumes "memory_ok m1" "block (q, u) ((length vs + length src) * 8) \<subseteq> given m1" "values_at m1 (q, u) 8 vs"
    and "writes m1 (block (q, u + length vs * 8) (length src * 8)) m2" "values_at m2 (q, u + length vs * 8) 8 src"
  shows "values_at m2 (q, u) 8 (vs @ src)"
  unfolding values_at_def
proof (intro allI impI)
  fix k assume k: "k < length (vs @ src)"
  show "cell_at m2 (fst (q, u), snd (q, u) + k * 8) = (vs @ src) ! k"
  proof (cases "k < length vs")
    case True
    then have "(q, u + k * 8) \<notin> block (q, u + length vs * 8) (length src * 8)" by (simp add: block_def)
    with writes_same(7) [OF assms(4)] assms(3) True show ?thesis by (simp add: values_at_def nth_append)
  next
    case False
    then have e: "u + k * 8 = u + length vs * 8 + (k - length vs) * 8" by simp
    have "k - length vs < length src" using False k by simp
    with assms(5) have "cell_at m2 (q, u + length vs * 8 + (k - length vs) * 8) = src ! (k - length vs)" by (simp add: values_at_def)
    with False show ?thesis by (simp only: fst_conv snd_conv e nth_append if_False)
  qed
qed

lemma append_values:
  assumes "memory_ok m" "has m a 8 vs" "ar_capacity a = ar_size a" "src \<noteq> []" "room m ((length vs + length src) * 8)"
  shows "\<exists>m' a'. array_append_many m a src 8 = Inr (m', a') \<and> keeps m {} m' \<and> has m' a' 8 (vs @ src) \<and> tight m' a' 8 \<and>
    used m' = used m + (length vs + length src) * 8"
proof -
  have n: "ar_size a = length vs" "ar_capacity a = ar_size a" "0 < length src" using assms(2-4) by (simp_all add: has_def)
  from grow_ok [OF assms(1,2) n(2,3) assms(5)] obtain m1 q where g:
    "array_grow m a (length src) 8 = Inr (m1, a\<lparr>ar_capacity := length vs + length src, ar_data := Some (q, used m)\<rparr>)" "keeps m {} m1"
    "used m1 = used m + (length vs + length src) * 8" "block (q, used m) ((length vs + length src) * 8) \<subseteq> given m1"
    "block (q, used m) ((length vs + length src) * 8) \<inter> given m = {}" "values_at m1 (q, used m) 8 vs"
    "arena_data (arena_of m1 (stack_last m - 1)) = Some q" by blast
  have ok: "memory_ok m1" "stack_last m1 = stack_last m" using keeps_ok [OF g(2)] by auto
  let ?i = "used m + length vs * 8"
  have "\<forall>k < length src. (q, ?i + k * 8) \<in> given m1"
  proof (intro allI impI)
    fix k assume "k < length src"
    then have "(q, used m + (length vs + k) * 8 + 0) \<in> block (q, used m) ((length vs + length src) * 8)" by (intro slot_in_block) simp_all
    with g(4) show "(q, ?i + k * 8) \<in> given m1" by (auto simp: algebra_simps)
  qed
  from write_cells_ok [OF ok(1) _ this] obtain m2 where m2: "write_cells m1 (Some (q, ?i)) 8 src = Inr m2"
    "writes m1 {(q, ?i + k * 8) | k. k < length src} m2" "\<forall>k < length src. cell_at m2 (q, ?i + k * 8) = src ! k" by auto
  have w: "writes m1 (block (q, ?i) (length src * 8)) m2" by (rule writes_mono [OF m2(2)]) (auto simp: block_def)
  have v: "values_at m2 (q, used m) 8 (vs @ src)"
    by (rule appended [OF ok(1) g(4,6) w]) (use m2(3) in \<open>simp add: values_at_def\<close>)
  let ?a = "a\<lparr>ar_capacity := length vs + length src, ar_data := Some (q, used m), ar_size := length vs + length src\<rparr>"
  have "block (q, ?i) (length src * 8) \<subseteq> block (q, used m) ((length vs + length src) * 8)" by (auto simp: block_def)
  then have k: "keeps m {} m2" using keeps_trans [OF g(2) writes_keeps [OF w]] g(5) by auto
  have "array_append_many m a src 8 = Inr (m2, ?a)" using g(1) m2(1) n by (simp add: array_append_many_def)
  moreover have "has m2 ?a 8 (vs @ src)" using v g(4) writes_same(2) [OF w] by (simp add: has_def)
  moreover have "tight m2 ?a 8" using writes_same(1,3,6) [OF w] g(3,7) ok(2) by (simp add: tight_def algebra_simps)
  moreover have "used m2 = used m + (length vs + length src) * 8" using writes_same(3) [OF w] g(3) by simp
  ultimately show ?thesis using k by blast
qed

lemma append_array:
  assumes "memory_ok m" "has m a 8 vs" "tight m a 8" "has m src 8 ws" "room m ((length vs + length ws) * 8)"
  shows "\<exists>m' a'. array_append_array m a src 8 = Inr (m', a') \<and> keeps m {} m' \<and> has m' a' 8 (vs @ ws) \<and> tight m' a' 8 \<and>
    used m' \<le> used m + (length vs + length ws) * 8"
proof (cases "ws = []")
  case True
  with assms show ?thesis by (intro exI [of _ m] exI [of _ a]) (simp add: array_append_array_def has_def keeps_refl)
next
  case False
  then obtain r i where p: "ar_data src = Some (r, i)" using assms(4) by (cases "ar_data src") (auto simp: has_def)
  with assms(4) have s: "ar_size src = length ws" "block (r, i) (ar_capacity src * 8) \<subseteq> given m" "values_at m (r, i) 8 ws" "length ws \<le> ar_capacity src"
    by (simp_all add: has_def)
  have src: "block (r, i) (length ws * 8) \<subseteq> given m" using s(2,4) block_mono [of "length ws * 8" "ar_capacity src * 8" "(r, i)"] by auto
  have n: "ar_size a = length vs" "ar_capacity a = ar_size a" "0 < length ws" using assms(2,3) False by (simp_all add: has_def tight_def)
  from grow_ok [OF assms(1,2) n(2,3) assms(5)] obtain m1 q where g:
    "array_grow m a (length ws) 8 = Inr (m1, a\<lparr>ar_capacity := length vs + length ws, ar_data := Some (q, used m)\<rparr>)" "keeps m {} m1"
    "used m1 = used m + (length vs + length ws) * 8" "block (q, used m) ((length vs + length ws) * 8) \<subseteq> given m1"
    "block (q, used m) ((length vs + length ws) * 8) \<inter> given m = {}" "values_at m1 (q, used m) 8 vs"
    "arena_data (arena_of m1 (stack_last m - 1)) = Some q" by blast
  have ok: "memory_ok m1" "stack_last m1 = stack_last m" "given m \<subseteq> given m1" using keeps_ok [OF g(2)] by auto
  let ?i = "used m + length vs * 8"
  have sub: "block (q, ?i) (length ws * 8) \<subseteq> block (q, used m) ((length vs + length ws) * 8)" by (auto simp: block_def)
  from move_ok [OF ok(1), of q ?i "length ws * 8" r i] sub g(4,5) src ok(3) obtain m2 where
    m2: "move m1 (Some (q, ?i)) (Some (r, i)) (length ws * 8) = Inr m2" "writes m1 (block (q, ?i) (length ws * 8)) m2"
      "\<forall>k < length ws * 8. cell_at m2 (q, ?i + k) = cell_at m1 (r, i + k)" by blast
  have "values_at m1 (r, i) 8 ws" by (rule values_keeps [OF s(3) g(2) s(2,4)]) simp
  then have "values_at m2 (q, ?i) 8 ws" using m2(3) by (simp add: values_at_def)
  from appended [OF ok(1) g(4,6) m2(2) this] have v: "values_at m2 (q, used m) 8 (vs @ ws)" .
  let ?a = "a\<lparr>ar_capacity := length vs + length ws, ar_data := Some (q, used m), ar_size := length vs + length ws\<rparr>"
  have k: "keeps m {} m2" using keeps_trans [OF g(2) writes_keeps [OF m2(2)]] sub g(5) by auto
  have "array_append_array m a src 8 = Inr (m2, ?a)" using g(1) m2(1) n s(1) p by (simp add: array_append_array_def)
  moreover have "has m2 ?a 8 (vs @ ws)" using v g(4) writes_same(2) [OF m2(2)] by (simp add: has_def)
  moreover have "tight m2 ?a 8" using writes_same(1,3,6) [OF m2(2)] g(3,7) ok(2) by (simp add: tight_def algebra_simps)
  moreover have "used m2 \<le> used m + (length vs + length ws) * 8" using writes_same(3) [OF m2(2)] g(3) by simp
  ultimately show ?thesis using k by blast
qed

text \<open>Behind the last block of the arena the bytes are zero.\<close>

lemma zero_behind:
  assumes "memory_ok m" "0 < stack_last m" "arena_data (arena_of m (stack_last m - 1)) = Some r" "used m \<le> j" "j < TEMP_DEFAULT_SIZE"
  shows "fetch m (Some (r, j)) = Inr (Byte nul)"
proof -
  have "arenas_ok (stack_last m) (arena_of m) (mapped m) (next_map m)" using assms(1) by (simp add: memory_ok_def)
  from arenasD(1) [OF this, of "stack_last m - 1"] assms(2) have "arena_ok (mapped m) (arena_of m (stack_last m - 1))" by simp
  with assms(3-5) show ?thesis by (auto simp: arena_ok_def used_def fetch_def)
qed

end
