(* ===== verification/Build.thy ===== *)
theory Build
  imports BuildStrings
begin

section \<open>Commands of the build tool (cb.h)\<close>

text \<open>
  A \<open>cmd_t\<close> collects the parts of a command line in arrays of string pointers; \<open>build\<close> joins them in the child process
  and executes them. What a command does is outside of the model: \<open>command_line\<close> is the text of the vector that \<open>execvp\<close>
  reads, up to the first NULL.
\<close>

record cmd_t =
  cmd_build :: string_t
  cmd_args :: array_t
  cmd_paths :: array_t
  cmd_files :: array_t
  cmd_extra :: array_t
  cmd_libs :: array_t

definition empty_cmd :: cmd_t where
  "empty_cmd = \<lparr>cmd_build = empty_string, cmd_args = empty_array, cmd_paths = empty_array, cmd_files = empty_array,
     cmd_extra = empty_array, cmd_libs = empty_array\<rparr>"

definition cmd_set_build_tool :: "memory \<Rightarrow> cmd_t \<Rightarrow> string option \<Rightarrow> (memory \<times> cmd_t \<times> bool) res" where
  "cmd_set_build_tool m cmd build_tool =
     (case build_tool of
        None \<Rightarrow> Inr (m, cmd, False)
      | Some s \<Rightarrow> bind_res (string_append m (cmd_build cmd) s) (\<lambda>(m, str). Inr (m, cmd\<lparr>cmd_build := str\<rparr>, True)))"

text \<open>The two loops over the arguments, which \<open>NULL\<close> ends.\<close>

fun cmd_append_data :: "memory \<Rightarrow> array_t \<Rightarrow> cell list \<Rightarrow> (memory \<times> array_t) res" where
  "cmd_append_data m data [] = Inr (m, data)"
| "cmd_append_data m data (arg # args) =
     bind_res (array_append_many m data [arg] 8) (\<lambda>(m, data). cmd_append_data m data args)"

fun cmd_append_data_with_prefix :: "memory \<Rightarrow> array_t \<Rightarrow> string \<Rightarrow> string list \<Rightarrow> (memory \<times> array_t) res" where
  "cmd_append_data_with_prefix m data pre [] = Inr (m, data)"
| "cmd_append_data_with_prefix m data pre (arg # args) =
     bind_res (string_append_many m empty_string [pre, arg]) (\<lambda>(m, str).
     bind_res (array_append_many m data [Addr (st_data str)] 8) (\<lambda>(m, data).
     cmd_append_data_with_prefix m data pre args))"

definition cmd_append_args :: "memory \<Rightarrow> cmd_t \<Rightarrow> cell list \<Rightarrow> (memory \<times> cmd_t) res" where
  "cmd_append_args m cmd args =
     bind_res (cmd_append_data m (cmd_args cmd) args) (\<lambda>(m, a). Inr (m, cmd\<lparr>cmd_args := a\<rparr>))"

definition cmd_append_files :: "memory \<Rightarrow> cmd_t \<Rightarrow> cell list \<Rightarrow> (memory \<times> cmd_t) res" where
  "cmd_append_files m cmd files =
     bind_res (cmd_append_data m (cmd_files cmd) files) (\<lambda>(m, a). Inr (m, cmd\<lparr>cmd_files := a\<rparr>))"

definition cmd_append_libs :: "memory \<Rightarrow> cmd_t \<Rightarrow> string list \<Rightarrow> (memory \<times> cmd_t) res" where
  "cmd_append_libs m cmd libs =
     bind_res (cmd_append_data_with_prefix m (cmd_libs cmd) ''-l'' libs) (\<lambda>(m, a). Inr (m, cmd\<lparr>cmd_libs := a\<rparr>))"

definition cmd_append_paths :: "memory \<Rightarrow> cmd_t \<Rightarrow> string list \<Rightarrow> (memory \<times> cmd_t) res" where
  "cmd_append_paths m cmd ps =
     bind_res (cmd_append_data_with_prefix m (cmd_paths cmd) ''-I'' ps) (\<lambda>(m, a). Inr (m, cmd\<lparr>cmd_paths := a\<rparr>))"

text \<open>The vector of the child process; nothing appends a NULL to it.\<close>

definition exec_argv :: "memory \<Rightarrow> cmd_t \<Rightarrow> cell option \<Rightarrow> (memory \<times> array_t) res" where
  "exec_argv m cmd out =
     bind_res (array_append_many m empty_array [Addr (st_data (cmd_build cmd))] 8) (\<lambda>(m, argv).
     bind_res (array_append_array m argv (cmd_args cmd) 8) (\<lambda>(m, argv).
     bind_res (case out of None \<Rightarrow> Inr (m, argv) | Some p \<Rightarrow> array_append_many m argv [p] 8) (\<lambda>(m, argv).
     bind_res (array_append_array m argv (cmd_files cmd) 8) (\<lambda>(m, argv).
     bind_res (array_append_array m argv (cmd_paths cmd) 8) (\<lambda>(m, argv).
     bind_res (array_append_array m argv (cmd_extra cmd) 8) (\<lambda>(m, argv).
     array_append_array m argv (cmd_libs cmd) 8))))))"

text \<open>The calls that fill a command in \<open>cb.c\<close>, in their order; a call that is left out appends nothing.\<close>

definition prepare_cmd :: "memory \<Rightarrow> string \<Rightarrow> string list \<Rightarrow> string list \<Rightarrow> string list \<Rightarrow> string list \<Rightarrow> (memory \<times> cmd_t) res" where
  "prepare_cmd m build_tool args ps files libs =
     bind_res (cmd_set_build_tool m empty_cmd (Some build_tool)) (\<lambda>(m, cmd, _).
     bind_res (cmd_append_args m cmd (map Literal args)) (\<lambda>(m, cmd).
     bind_res (cmd_append_paths m cmd ps) (\<lambda>(m, cmd).
     bind_res (cmd_append_files m cmd (map Literal files)) (\<lambda>(m, cmd).
     cmd_append_libs m cmd libs))))"

text \<open>What \<open>execvp\<close> reads: strings up to the first zero word. A mapping has fewer than \<open>TEMP_DEFAULT_SIZE\<close> words.\<close>

definition arg_text :: "memory \<Rightarrow> cell \<Rightarrow> string res" where
  "arg_text m c = (case c of Literal s \<Rightarrow> Inr s | Addr p \<Rightarrow> read_string m p | Byte _ \<Rightarrow> Inl UninitRead)"

fun read_argv :: "memory \<Rightarrow> ptr \<Rightarrow> nat \<Rightarrow> string list res" where
  "read_argv m p 0 = Inl OutOfBounds"
| "read_argv m p (Suc n) =
     bind_res (fetch m p) (\<lambda>c.
       if c = Byte nul \<or> c = Addr None then Inr []
       else bind_res (arg_text m c) (\<lambda>s. bind_res (read_argv m (shift p 8) n) (\<lambda>ss. Inr (s # ss))))"

definition command_line :: "memory \<Rightarrow> cmd_t \<Rightarrow> cell option \<Rightarrow> string list res" where
  "command_line m cmd out =
     bind_res (exec_argv m cmd out) (\<lambda>(m, argv). read_argv m (ar_data argv) TEMP_DEFAULT_SIZE)"

text \<open>\<open>run\<close> is how the command of a line ends: with status 0, or not; the parent's memory stays as it is.\<close>

definition build :: "(string list \<Rightarrow> bool) \<Rightarrow> memory \<Rightarrow> cmd_t \<Rightarrow> cell option \<Rightarrow> bool res" where
  "build run m cmd out = bind_res (command_line m cmd out) (\<lambda>line. Inr (run line))"

subsection \<open>Pointers to texts\<close>

definition names :: "memory \<Rightarrow> cell \<Rightarrow> string \<Rightarrow> bool" where
  "names m c s \<longleftrightarrow> (case c of
     Literal t \<Rightarrow> t = s
   | Addr (Some p) \<Rightarrow> nul \<notin> set s \<and> block p (length s + 1) \<subseteq> given m \<and> text_at m p s
   | _ \<Rightarrow> False)"

definition lists :: "memory \<Rightarrow> array_t \<Rightarrow> string list \<Rightarrow> bool" where
  "lists m a ss \<longleftrightarrow> (\<exists>cs. has m a 8 cs \<and> list_all2 (names m) cs ss)"

lemma text_keeps:
  assumes "text_at m p s" "keeps m {} m'" "block p (length s + 1) \<subseteq> given m"
  shows "text_at m' p s"
proof -
  have "cell_at m' (fst p, snd p + k) = cell_at m (fst p, snd p + k)" if "k \<le> length s" for k
  proof (rule keeps_cell [OF assms(2)])
    show "(fst p, snd p + k) \<in> given m" using assms(3) that by (auto simp: block_def)
  qed simp
  with text_at_cong [of s m' p m] assms(1) show ?thesis by simp
qed

lemma names_keeps: "names m c s \<Longrightarrow> keeps m {} m' \<Longrightarrow> names m' c s"
  using text_keeps [of m _ s m'] keeps_ok [of m "{}" m'] by (fastforce simp: names_def split: cell.splits option.splits)

lemma names_string: "holds m str s \<Longrightarrow> st_data str \<noteq> None \<Longrightarrow> names m (Addr (st_data str)) s"
  using block_mono [of "length s + 1" "st_capacity str"] by (fastforce simp: holds_def names_def split: option.splits)

lemma lists_empty [simp]: "lists m empty_array []"
  by (simp add: lists_def)

lemma lists_keeps: "lists m a ss \<Longrightarrow> keeps m {} m' \<Longrightarrow> lists m' a ss"
  unfolding lists_def using has_keeps names_keeps list_all2_mono by metis

lemma names_text:
  assumes "memory_ok m" "names m c s"
  shows "arg_text m c = Inr s \<and> c \<noteq> Byte nul \<and> c \<noteq> Addr None"
proof (cases c)
  case (Addr p)
  with assms(2) obtain r i where "p = Some (r, i)" "nul \<notin> set s" "block (r, i) (length s + 1) \<subseteq> given m" "text_at m (r, i) s"
    by (auto simp: names_def split: option.splits)
  with read_ok [OF assms(1)] Addr show ?thesis by (simp add: arg_text_def)
qed (use assms(2) in \<open>simp_all add: names_def arg_text_def\<close>)

subsection \<open>Arrays of pointers to texts\<close>

lemma add_text:
  assumes "memory_ok m" "lists m a ss" "ar_capacity a = ar_size a" "names m c s" "0 < stack_last m"
    and "used m + (length ss + 1) * 8 \<le> TEMP_DEFAULT_SIZE"
  shows "\<exists>m' a'. array_append_many m a [c] 8 = Inr (m', a') \<and> keeps m {} m' \<and> lists m' a' (ss @ [s]) \<and> tight m' a' 8 \<and>
    used m' \<le> used m + (length ss + 1) * 8"
proof -
  obtain cs where cs: "has m a 8 cs" "list_all2 (names m) cs ss" using assms(2) by (auto simp: lists_def)
  then have n: "length cs = length ss" by (simp add: list_all2_lengthD)
  have "room m ((length cs + length [c]) * 8)" using assms(5,6) n align_words [of "length ss + 1"] by (simp add: room_def)
  from append_values [OF assms(1) cs(1) assms(3) _ this] obtain m' a' where
    m': "array_append_many m a [c] 8 = Inr (m', a')" "keeps m {} m'" "has m' a' 8 (cs @ [c])" "tight m' a' 8"
      "used m' = used m + (length cs + 1) * 8" by auto
  have "list_all2 (names m) (cs @ [c]) (ss @ [s])" using cs(2) assms(4) by (simp add: list_all2_appendI)
  then have "list_all2 (names m') (cs @ [c]) (ss @ [s])" using names_keeps m'(2) list_all2_mono by metis
  with m' n show ?thesis by (intro exI [of _ m'] exI [of _ a']) (auto simp: lists_def)
qed

lemma add_texts:
  assumes "memory_ok m" "lists m a ss" "tight m a 8" "lists m src ts" "0 < stack_last m"
    and "used m + (length ss + length ts) * 8 \<le> TEMP_DEFAULT_SIZE"
  shows "\<exists>m' a'. array_append_array m a src 8 = Inr (m', a') \<and> keeps m {} m' \<and> lists m' a' (ss @ ts) \<and> tight m' a' 8 \<and>
    used m' \<le> used m + (length ss + length ts) * 8"
proof -
  obtain cs ds where c: "has m a 8 cs" "list_all2 (names m) cs ss" "has m src 8 ds" "list_all2 (names m) ds ts"
    using assms(2,4) by (auto simp: lists_def)
  then have n: "length cs = length ss" "length ds = length ts" by (simp_all add: list_all2_lengthD)
  show ?thesis
  proof (cases "ts = []")
    case True
    with c n have "ar_size src = 0" by (simp add: has_def)
    with True assms show ?thesis by (intro exI [of _ m] exI [of _ a]) (simp add: array_append_array_def keeps_refl)
  next
    case False
    then have "room m ((length cs + length ds) * 8)" using assms(5,6) n align_words [of "length ss + length ts"] by (simp add: room_def)
    from append_array [OF assms(1) c(1) assms(3) c(3) this] obtain m' a' where
      m': "array_append_array m a src 8 = Inr (m', a')" "keeps m {} m'" "has m' a' 8 (cs @ ds)" "tight m' a' 8"
        "used m' \<le> used m + (length cs + length ds) * 8" by blast
    have "list_all2 (names m) (cs @ ds) (ss @ ts)" using c(2,4) by (rule list_all2_appendI)
    then have "list_all2 (names m') (cs @ ds) (ss @ ts)" using names_keeps m'(2) list_all2_mono by metis
    with m' n show ?thesis by (intro exI [of _ m'] exI [of _ a']) (auto simp: lists_def)
  qed
qed

lemma read_argv_ok:
  assumes "memory_ok m" "list_all2 (names m) cs ss" "values_at m (r, i) 8 cs" "\<forall>k < length cs. (r, i + k * 8) \<in> given m"
    and "fetch m (Some (r, i + length cs * 8)) = Inr (Byte nul)" "length cs < n"
  shows "read_argv m (Some (r, i)) n = Inr ss"
  using assms(2-6)
proof (induction cs arbitrary: ss i n)
  case Nil
  then show ?case by (cases n) simp_all
next
  case (Cons c cs)
  obtain s ss' where ss: "ss = s # ss'" "names m c s" "list_all2 (names m) cs ss'" using Cons.prems(1) by (auto simp: list_all2_Cons1)
  obtain l where n: "n = Suc l" "length cs < l" using Cons.prems(5) by (cases n) auto
  have "(r, i) \<in> given m" using Cons.prems(3) by force
  then have f: "fetch m (Some (r, i)) = Inr c" using fetch_ok [OF assms(1)] Cons.prems(2) by (force simp: values_at_def)
  have "cell_at m (r, i + 8 + k * 8) = cs ! k" if "k < length cs" for k
    using Cons.prems(2) [unfolded values_at_def, rule_format, of "Suc k"] that by (simp add: add.assoc)
  then have "values_at m (r, i + 8) 8 cs" by (simp add: values_at_def)
  moreover have "\<forall>k < length cs. (r, i + 8 + k * 8) \<in> given m"
  proof (intro allI impI)
    fix k assume "k < length cs"
    with Cons.prems(3) have "(r, i + Suc k * 8) \<in> given m" by (simp del: mult_Suc)
    then show "(r, i + 8 + k * 8) \<in> given m" by (simp add: add.assoc)
  qed
  moreover have "fetch m (Some (r, i + 8 + length cs * 8)) = Inr (Byte nul)" using Cons.prems(4) by (simp add: add.assoc)
  ultimately have "read_argv m (Some (r, i + 8)) l = Inr ss'" using Cons.IH ss(3) n(2) by blast
  with f names_text [OF assms(1) ss(2)] n(1) ss(1) show ?case by simp
qed

subsection \<open>The command line\<close>

text \<open>The texts of a command, in the order the parts are joined.\<close>

record parts =
  tool :: string
  p_args :: "string list"
  p_out :: "string option"
  p_files :: "string list"
  p_paths :: "string list"
  p_extra :: "string list"
  p_libs :: "string list"

definition line_of :: "parts \<Rightarrow> string list" where
  "line_of c = tool c # p_args c @ (case p_out c of None \<Rightarrow> [] | Some s \<Rightarrow> [s]) @ p_files c @ p_paths c @ p_extra c @ p_libs c"

definition cmd_holds :: "memory \<Rightarrow> cmd_t \<Rightarrow> parts \<Rightarrow> bool" where
  "cmd_holds m cmd c \<longleftrightarrow> holds m (cmd_build cmd) (tool c) \<and> lists m (cmd_args cmd) (p_args c) \<and> lists m (cmd_files cmd) (p_files c) \<and>
     lists m (cmd_paths cmd) (p_paths c) \<and> lists m (cmd_extra cmd) (p_extra c) \<and> lists m (cmd_libs cmd) (p_libs c)"

lemma cmd_keeps: "cmd_holds m cmd c \<Longrightarrow> keeps m {} m' \<Longrightarrow> cmd_holds m' cmd c"
  using holds_keeps [of m "cmd_build cmd" "tool c" "{}" m'] lists_keeps by (auto simp: cmd_holds_def)

subsection \<open>Collecting the parts\<close>

definition full :: "array_t \<Rightarrow> bool" where
  "full a \<longleftrightarrow> ar_capacity a = ar_size a"

lemma append_data_ok:
  assumes "memory_ok m" "lists m a ss" "full a" "list_all2 (names m) cs ts" "0 < stack_last m"
    and "used m + length cs * ((length ss + length cs) * 8) \<le> TEMP_DEFAULT_SIZE"
  shows "\<exists>m' a'. cmd_append_data m a cs = Inr (m', a') \<and> keeps m {} m' \<and> lists m' a' (ss @ ts) \<and> full a' \<and>
    used m' \<le> used m + length cs * ((length ss + length cs) * 8)"
  using assms
proof (induction cs arbitrary: m a ss ts)
  case Nil
  then show ?case by (simp add: keeps_refl)
next
  case (Cons c cs)
  obtain t ts' where ts: "ts = t # ts'" "names m c t" "list_all2 (names m) cs ts'" using Cons.prems(4) by (auto simp: list_all2_Cons1)
  have fits: "used m + (length ss + 1) * 8 \<le> TEMP_DEFAULT_SIZE" using Cons.prems(6) by simp
  from add_text [OF Cons.prems(1,2) Cons.prems(3) [unfolded full_def] ts(2) Cons.prems(5) fits] obtain m1 a1 where
    s1: "array_append_many m a [c] 8 = Inr (m1, a1)" "keeps m {} m1" "lists m1 a1 (ss @ [t])" "tight m1 a1 8"
      "used m1 \<le> used m + (length ss + 1) * 8" by blast
  have ok: "memory_ok m1" "stack_last m1 = stack_last m" using keeps_ok [OF s1(2)] by auto
  have c: "list_all2 (names m1) cs ts'" using ts(3) names_keeps s1(2) list_all2_mono by metis
  have "full a1" using tight_full [OF s1(4)] by (simp add: full_def)
  moreover have "0 < stack_last m1" using Cons.prems(5) ok(2) by simp
  moreover have "used m1 + length cs * ((length (ss @ [t]) + length cs) * 8) \<le> TEMP_DEFAULT_SIZE" using s1(5) Cons.prems(6) by simp
  ultimately obtain m2 a2 where s2: "cmd_append_data m1 a1 cs = Inr (m2, a2)" "keeps m1 {} m2" "lists m2 a2 ((ss @ [t]) @ ts')" "full a2"
    "used m2 \<le> used m1 + length cs * ((length (ss @ [t]) + length cs) * 8)"
    using Cons.IH [OF ok(1) s1(3) _ c] by blast
  have "keeps m {} m2" using keeps_trans [OF s1(2) s2(2)] by simp
  with s1(1,5) s2 ts(1) show ?case by simp
qed

lemma append_prefix_ok:
  assumes "memory_ok m" "lists m a ss" "full a" "\<forall>s \<in> set ts. nul \<notin> set s \<and> length s \<le> b" "nul \<notin> set pre" "0 < stack_last m"
    and "used m + length ts * (2 * (length pre + b + 9) + (length ss + length ts) * 8) \<le> TEMP_DEFAULT_SIZE"
  shows "\<exists>m' a'. cmd_append_data_with_prefix m a pre ts = Inr (m', a') \<and> keeps m {} m' \<and> lists m' a' (ss @ map ((@) pre) ts) \<and> full a' \<and>
    used m' \<le> used m + length ts * (2 * (length pre + b + 9) + (length ss + length ts) * 8)"
  using assms
proof (induction ts arbitrary: m a ss)
  case Nil
  then show ?case by (simp add: keeps_refl)
next
  case (Cons t ts)
  let ?k = "2 * (length pre + b + 9)"
  have t: "nul \<notin> set t" "length t \<le> b" using Cons.prems(4) by auto
  have room: "used m + ?k + (length ss + 1) * 8 \<le> TEMP_DEFAULT_SIZE"
    "used m + ?k + (length ss + 1) * 8 + length ts * (?k + (length ss + 1 + length ts) * 8) \<le> TEMP_DEFAULT_SIZE"
    using Cons.prems(7) by (simp_all add: algebra_simps)
  have fits: "used m + length [pre, t] * (length ([] :: string) + length (concat [pre, t]) + 9) \<le> TEMP_DEFAULT_SIZE"
    using room(1) t(2) by simp
  have "\<forall>s \<in> set [pre, t]. nul \<notin> set s" using t(1) Cons.prems(5) by simp
  from append_many_ok [OF Cons.prems(1) holds_empty this Cons.prems(6) fits]
  obtain m1 str where s1: "string_append_many m empty_string [pre, t] = Inr (m1, str)" "keeps m {} m1" "holds m1 str (pre @ t)"
    "used m1 \<le> used m + length [pre, t] * (length ([] :: string) + length (concat [pre, t]) + 9)" "st_data str \<noteq> None"
    by (auto simp: owned_def empty_string_def)
  have ok1: "memory_ok m1" "stack_last m1 = stack_last m" using keeps_ok [OF s1(2)] by auto
  have u1: "used m1 \<le> used m + ?k" using s1(4) t(2) by simp
  then have fits1: "used m1 + (length ss + 1) * 8 \<le> TEMP_DEFAULT_SIZE" using room(1) by simp
  have pos: "0 < stack_last m1" using Cons.prems(6) ok1(2) by simp
  from add_text [OF ok1(1) lists_keeps [OF Cons.prems(2) s1(2)] Cons.prems(3) [unfolded full_def] names_string [OF s1(3,5)] pos fits1] obtain m2 a2 where
    s2: "array_append_many m1 a [Addr (st_data str)] 8 = Inr (m2, a2)" "keeps m1 {} m2" "lists m2 a2 (ss @ [pre @ t])" "tight m2 a2 8"
      "used m2 \<le> used m1 + (length ss + 1) * 8" by blast
  have ok2: "memory_ok m2" "0 < stack_last m2" using keeps_ok [OF s2(2)] pos by auto
  have "used m2 + length ts * (?k + (length (ss @ [pre @ t]) + length ts) * 8) \<le> TEMP_DEFAULT_SIZE"
    using s2(5) u1 room(2) by simp
  from Cons.IH [OF ok2(1) s2(3) _ _ Cons.prems(5) ok2(2) this] Cons.prems(4) tight_full [OF s2(4)] obtain m3 a3 where
    s3: "cmd_append_data_with_prefix m2 a2 pre ts = Inr (m3, a3)" "keeps m2 {} m3" "lists m3 a3 ((ss @ [pre @ t]) @ map ((@) pre) ts)" "full a3"
    "used m3 \<le> used m2 + length ts * (?k + (length (ss @ [pre @ t]) + length ts) * 8)"
    by (auto simp: full_def)
  have "keeps m {} m3" using keeps_trans [OF keeps_trans [OF s1(2) s2(2)] s3(2)] by simp
  moreover have "used m3 \<le> used m + length (t # ts) * (?k + (length ss + length (t # ts)) * 8)"
    using s3(5) s2(5) u1 by (simp add: algebra_simps)
  ultimately show ?case using s1(1) s2(1) s3(1,3,4) by simp
qed

text \<open>One step of the vector: \<open>n\<close> bounds the words of the whole vector, \<open>k\<close> the steps done.\<close>

definition vector :: "memory \<Rightarrow> nat \<Rightarrow> nat \<Rightarrow> memory \<Rightarrow> array_t \<Rightarrow> string list \<Rightarrow> bool" where
  "vector m0 n k m a ss \<longleftrightarrow> memory_ok m \<and> keeps m0 {} m \<and> lists m a ss \<and> tight m a 8 \<and> used m \<le> used m0 + k * (n * 8)"

lemma vector_text:
  assumes "vector m0 n k m a ss" "names m0 c s" "length ss + 1 \<le> n" "0 < stack_last m0" "used m0 + Suc k * (n * 8) \<le> TEMP_DEFAULT_SIZE"
  shows "\<exists>m' a'. array_append_many m a [c] 8 = Inr (m', a') \<and> vector m0 n (Suc k) m' a' (ss @ [s])"
proof -
  from assms(1) have v: "memory_ok m" "keeps m0 {} m" "lists m a ss" "tight m a 8" "used m \<le> used m0 + k * (n * 8)"
    by (simp_all add: vector_def)
  have le: "(length ss + 1) * 8 \<le> n * 8" using assms(3) by simp
  then have fits: "used m + (length ss + 1) * 8 \<le> used m0 + Suc k * (n * 8)" using v(5) by simp
  from add_text [OF v(1,3) tight_full [OF v(4)] names_keeps [OF assms(2) v(2)]] keeps_ok [OF v(2)] assms(4,5) fits obtain m' a' where
    m': "array_append_many m a [c] 8 = Inr (m', a')" "keeps m {} m'" "lists m' a' (ss @ [s])" "tight m' a' 8"
      "used m' \<le> used m + (length ss + 1) * 8" by auto
  have "keeps m0 {} m'" using keeps_trans [OF v(2) m'(2)] by simp
  with m' keeps_ok [OF m'(2)] fits show ?thesis by (intro exI [of _ m'] exI [of _ a']) (simp add: vector_def)
qed

lemma vector_texts:
  assumes "vector m0 n k m a ss" "lists m0 src ts" "length ss + length ts \<le> n" "0 < stack_last m0" "used m0 + Suc k * (n * 8) \<le> TEMP_DEFAULT_SIZE"
  shows "\<exists>m' a'. array_append_array m a src 8 = Inr (m', a') \<and> vector m0 n (Suc k) m' a' (ss @ ts)"
proof -
  from assms(1) have v: "memory_ok m" "keeps m0 {} m" "lists m a ss" "tight m a 8" "used m \<le> used m0 + k * (n * 8)"
    by (simp_all add: vector_def)
  have le: "(length ss + length ts) * 8 \<le> n * 8" using assms(3) by simp
  then have fits: "used m + (length ss + length ts) * 8 \<le> used m0 + Suc k * (n * 8)" using v(5) by simp
  from add_texts [OF v(1,3,4) lists_keeps [OF assms(2) v(2)]] keeps_ok [OF v(2)] assms(4,5) fits obtain m' a' where
    m': "array_append_array m a src 8 = Inr (m', a')" "keeps m {} m'" "lists m' a' (ss @ ts)" "tight m' a' 8"
      "used m' \<le> used m + (length ss + length ts) * 8" by auto
  have "keeps m0 {} m'" using keeps_trans [OF v(2) m'(2)] by simp
  with m' keeps_ok [OF m'(2)] fits show ?thesis by (intro exI [of _ m'] exI [of _ a']) (simp add: vector_def)
qed

lemma vector_read:
  assumes "vector m0 n k m a ss" "ss \<noteq> []" "0 < stack_last m0" "used m < TEMP_DEFAULT_SIZE"
  shows "read_argv m (ar_data a) TEMP_DEFAULT_SIZE = Inr ss"
proof -
  from assms(1) have v: "memory_ok m" "keeps m0 {} m" "lists m a ss" "tight m a 8" by (simp_all add: vector_def)
  from v(3) obtain cs where cs: "has m a 8 cs" "list_all2 (names m) cs ss" by (auto simp: lists_def)
  then have "cs \<noteq> []" using assms(2) by auto
  then obtain r i where p: "ar_data a = Some (r, i)" using cs(1) by (cases "ar_data a") (auto simp: has_def)
  with cs(1) have h: "ar_size a = length cs" "length cs \<le> ar_capacity a" "block (r, i) (ar_capacity a * 8) \<subseteq> given m" "values_at m (r, i) 8 cs"
    by (simp_all add: has_def)
  have "(r, i + k * 8) \<in> given m" if "k < length cs" for k
    using slot_in_block [of k "ar_capacity a" 8 0 r i] that h(2,3) by auto
  moreover have e: "arena_data (arena_of m (stack_last m - 1)) = Some r" "i + length cs * 8 = used m"
    using v(4) p h(1) by (simp_all add: tight_def)
  have "fetch m (Some (r, i + length cs * 8)) = Inr (Byte nul)"
    using zero_behind [OF v(1) _ e(1), of "i + length cs * 8"] keeps_ok [OF v(2)] assms(3,4) e(2) by simp
  moreover have "length cs < TEMP_DEFAULT_SIZE" using e(2) assms(4) by simp
  ultimately show ?thesis using read_argv_ok [OF v(1) cs(2) h(4)] p by simp
qed

text \<open>The vector has the collected parts in their order. No NULL is ever appended to the vector; it ends because its block is the last of the arena
  and the bytes behind it are still zero, which needs one more word of room than the vector.\<close>

lemma command_line_ends:
  assumes "memory_ok m" "0 < stack_last m" "cmd_holds m cmd c" "st_data (cmd_build cmd) \<noteq> None"
    and "case p_out c of None \<Rightarrow> out = None | Some s \<Rightarrow> \<exists>p. out = Some p \<and> names m p s"
    and "used m + 7 * (length (line_of c) * 8) < TEMP_DEFAULT_SIZE"
  shows "command_line m cmd out = Inr (line_of c)"
proof -
  let ?n = "length (line_of c)" and ?o = "case p_out c of None \<Rightarrow> [] | Some s \<Rightarrow> [s]"
  from assms(3) have h: "holds m (cmd_build cmd) (tool c)" "lists m (cmd_args cmd) (p_args c)" "lists m (cmd_files cmd) (p_files c)"
    "lists m (cmd_paths cmd) (p_paths c)" "lists m (cmd_extra cmd) (p_extra c)" "lists m (cmd_libs cmd) (p_libs c)" by (simp_all add: cmd_holds_def)
  have fits: "used m + Suc k * (?n * 8) \<le> TEMP_DEFAULT_SIZE" if "k < 7" for k
  proof -
    have "Suc k * (?n * 8) \<le> 7 * (?n * 8)" using that by (intro mult_le_mono1) simp
    with assms(6) show ?thesis by linarith
  qed
  have n: "length ([tool c] @ p_args c @ ?o @ p_files c @ p_paths c @ p_extra c @ p_libs c) = ?n" by (simp add: line_of_def)
  have v0: "vector m ?n 0 m empty_array []" using assms(1) by (simp add: vector_def keeps_refl)
  from vector_text [OF v0 names_string [OF h(1) assms(4)] _ assms(2) fits] n obtain m1 a1 where
    v1: "array_append_many m empty_array [Addr (st_data (cmd_build cmd))] 8 = Inr (m1, a1)" "vector m ?n 1 m1 a1 [tool c]" by auto
  from vector_texts [OF v1(2) h(2) _ assms(2) fits] n obtain m2 a2 where
    v2: "array_append_array m1 a1 (cmd_args cmd) 8 = Inr (m2, a2)" "vector m ?n 2 m2 a2 ([tool c] @ p_args c)" by (auto simp: numeral_2_eq_2)
  obtain m3 a3 where v3: "(case out of None \<Rightarrow> Inr (m2, a2) | Some p \<Rightarrow> array_append_many m2 a2 [p] 8) = Inr (m3, a3)"
    "vector m ?n 3 m3 a3 (([tool c] @ p_args c) @ ?o)"
  proof (cases "p_out c")
    case None
    have "vector m ?n 3 m2 a2 ([tool c] @ p_args c)" using v2(2) by (auto simp: vector_def)
    with None assms(5) that show thesis by simp
  next
    case (Some s)
    then obtain p where p: "out = Some p" "names m p s" using assms(5) by auto
    from vector_text [OF v2(2) p(2) _ assms(2) fits] n Some obtain m' a' where
      "array_append_many m2 a2 [p] 8 = Inr (m', a')" "vector m ?n 3 m' a' (([tool c] @ p_args c) @ [s])" by (auto simp: numeral_3_eq_3 numeral_2_eq_2)
    with Some p(1) that show thesis by simp
  qed
  from vector_texts [OF v3(2) h(3) _ assms(2) fits] n obtain m4 a4 where
    v4: "array_append_array m3 a3 (cmd_files cmd) 8 = Inr (m4, a4)" "vector m ?n 4 m4 a4 ((([tool c] @ p_args c) @ ?o) @ p_files c)" by auto
  from vector_texts [OF v4(2) h(4) _ assms(2) fits] n obtain m5 a5 where
    v5: "array_append_array m4 a4 (cmd_paths cmd) 8 = Inr (m5, a5)" "vector m ?n 5 m5 a5 (((([tool c] @ p_args c) @ ?o) @ p_files c) @ p_paths c)" by auto
  from vector_texts [OF v5(2) h(5) _ assms(2) fits] n obtain m6 a6 where
    v6: "array_append_array m5 a5 (cmd_extra cmd) 8 = Inr (m6, a6)"
      "vector m ?n 6 m6 a6 ((((([tool c] @ p_args c) @ ?o) @ p_files c) @ p_paths c) @ p_extra c)" by auto
  from vector_texts [OF v6(2) h(6) _ assms(2) fits] n obtain m7 a7 where
    v7: "array_append_array m6 a6 (cmd_libs cmd) 8 = Inr (m7, a7)"
      "vector m ?n 7 m7 a7 (((((([tool c] @ p_args c) @ ?o) @ p_files c) @ p_paths c) @ p_extra c) @ p_libs c)" by auto
  have "exec_argv m cmd out = Inr (m7, a7)"
    unfolding exec_argv_def v1(1) bind_res_simps prod.case v2(1) v3(1) v4(1) v5(1) v6(1) v7(1) ..
  moreover have "used m7 < TEMP_DEFAULT_SIZE" using v7(2) assms(6) by (simp add: vector_def)
  then have "read_argv m7 (ar_data a7) TEMP_DEFAULT_SIZE = Inr (line_of c)"
    using vector_read [OF v7(2) _ assms(2)] by (simp add: line_of_def)
  ultimately show ?thesis by (simp add: command_line_def)
qed

text \<open>A command as \<open>cb.c\<close> fills it: at most \<open>n\<close> parts of each kind, and at most \<open>n\<close> characters in a text that is copied.\<close>

lemma literals: "list_all2 (names m) (map Literal ss) ss"
  by (simp add: list_all2_map1 names_def list.rel_refl)

lemma collect_literals:
  assumes "memory_ok m" "0 < stack_last m" "length ss \<le> n" "used m + 8 * (n * n) \<le> TEMP_DEFAULT_SIZE"
  shows "\<exists>m' a'. cmd_append_data m empty_array (map Literal ss) = Inr (m', a') \<and> keeps m {} m' \<and> lists m' a' ss \<and>
    used m' \<le> used m + 8 * (n * n) \<and> memory_ok m' \<and> 0 < stack_last m'"
proof -
  have le: "length ss * (length ss * 8) \<le> 8 * (n * n)" using mult_le_mono [OF assms(3,3)] by simp
  with assms(4) have fits: "used m + length (map Literal ss) * ((length ([] :: string list) + length (map Literal ss)) * 8) \<le> TEMP_DEFAULT_SIZE" by simp
  from append_data_ok [OF assms(1) lists_empty _ literals assms(2) fits] obtain m' a' where
    "cmd_append_data m empty_array (map Literal ss) = Inr (m', a')" "keeps m {} m'" "lists m' a' ss"
      "used m' \<le> used m + length ss * (length ss * 8)" by (auto simp: full_def empty_array_def)
  with le keeps_ok [of m "{}" m'] assms(2) show ?thesis by (intro exI [of _ m'] exI [of _ a']) simp
qed

lemma collect_prefixed:
  assumes "memory_ok m" "0 < stack_last m" "length ss \<le> n" "used m + 10 * (n * n) + 22 * n \<le> TEMP_DEFAULT_SIZE"
    and "\<forall>s \<in> set ss. nul \<notin> set s \<and> length s \<le> n" "length pre = 2" "nul \<notin> set pre"
  shows "\<exists>m' a'. cmd_append_data_with_prefix m empty_array pre ss = Inr (m', a') \<and> keeps m {} m' \<and> lists m' a' (map ((@) pre) ss) \<and>
    used m' \<le> used m + 10 * (n * n) + 22 * n \<and> memory_ok m' \<and> 0 < stack_last m'"
proof -
  let ?k = "length ss * (2 * (length pre + n + 9) + (length ([] :: string list) + length ss) * 8)"
  have le: "?k \<le> 10 * (n * n) + 22 * n"
    using mult_le_mono [OF assms(3,3)] mult_le_mono1 [OF assms(3), of "2 * (2 + n + 9)"] assms(6) by (simp add: algebra_simps)
  with assms(4) have "used m + ?k \<le> TEMP_DEFAULT_SIZE" by linarith
  from append_prefix_ok [OF assms(1) lists_empty _ assms(5,7,2) this] obtain m' a' where
    "cmd_append_data_with_prefix m empty_array pre ss = Inr (m', a')" "keeps m {} m'" "lists m' a' (map ((@) pre) ss)" "used m' \<le> used m + ?k"
    by (auto simp: full_def empty_array_def)
  with le keeps_ok [of m "{}" m'] assms(2) show ?thesis by (intro exI [of _ m'] exI [of _ a']) simp
qed

lemma prepare_ok:
  assumes "memory_ok m" "0 < stack_last m" "0 < n" "used m + 500 * (n * n) \<le> TEMP_DEFAULT_SIZE"
    and "nul \<notin> set build_tool" "length build_tool \<le> n" "\<forall>s \<in> set (ps @ libs). nul \<notin> set s \<and> length s \<le> n"
    and "length args \<le> n" "length ps \<le> n" "length files \<le> n" "length libs \<le> n"
  shows "\<exists>m' cmd. prepare_cmd m build_tool args ps files libs = Inr (m', cmd) \<and> keeps m {} m' \<and> st_data (cmd_build cmd) \<noteq> None \<and>
    cmd_holds m' cmd \<lparr>tool = build_tool, p_args = args, p_out = out, p_files = files, p_paths = map ((@) ''-I'') ps, p_extra = [],
      p_libs = map ((@) ''-l'') libs\<rparr> \<and> used m' \<le> used m + 60 * (n * n) + 90 * n"
proof -
  define q where "q = n * n"
  have n: "n \<le> q" "1 \<le> q" using assms(3) by (simp_all add: q_def)
  have fit: "used m + 500 * q \<le> TEMP_DEFAULT_SIZE" using assms(4) by (simp add: q_def)
  have al: "align_to_word_size (length build_tool + 1) \<le> n + 16"
    using assms(6) align_le(3) [of "length build_tool + 1"] by linarith
  have "room m (length ([] :: string) + length build_tool + 1)" using assms(2) fit al n by (simp add: room_def)
  from append_ok [OF assms(1) holds_empty assms(5) this] al obtain m1 str where
    s1: "string_append m empty_string build_tool = Inr (m1, str)" "keeps m {} m1" "holds m1 str build_tool" "st_data str \<noteq> None"
      "used m1 \<le> used m + n + 16" by (auto simp: owned_def empty_string_def)
  have ok1: "memory_ok m1" "0 < stack_last m1" using keeps_ok [OF s1(2)] assms(2) by auto
  have f1: "used m1 + 8 * (n * n) \<le> TEMP_DEFAULT_SIZE" using s1(5) fit n unfolding q_def [symmetric] by linarith
  from collect_literals [OF ok1 assms(8) f1] obtain m2 a2 where
    s2: "cmd_append_data m1 empty_array (map Literal args) = Inr (m2, a2)" "keeps m1 {} m2" "lists m2 a2 args"
      "used m2 \<le> used m1 + 8 * q" "memory_ok m2" "0 < stack_last m2" unfolding q_def by blast
  have f2: "used m2 + 10 * (n * n) + 22 * n \<le> TEMP_DEFAULT_SIZE" using s1(5) s2(4) fit n unfolding q_def [symmetric] by linarith
  from collect_prefixed [OF s2(5,6) assms(9) f2, of "''-I''"] assms(7) obtain m3 a3 where
    s3: "cmd_append_data_with_prefix m2 empty_array ''-I'' ps = Inr (m3, a3)" "keeps m2 {} m3" "lists m3 a3 (map ((@) ''-I'') ps)"
      "used m3 \<le> used m2 + 10 * q + 22 * n" "memory_ok m3" "0 < stack_last m3" unfolding q_def by (auto simp: nul_def)
  have f3: "used m3 + 8 * (n * n) \<le> TEMP_DEFAULT_SIZE" using s1(5) s2(4) s3(4) fit n unfolding q_def [symmetric] by linarith
  from collect_literals [OF s3(5,6) assms(10) f3] obtain m4 a4 where
    s4: "cmd_append_data m3 empty_array (map Literal files) = Inr (m4, a4)" "keeps m3 {} m4" "lists m4 a4 files"
      "used m4 \<le> used m3 + 8 * q" "memory_ok m4" "0 < stack_last m4" unfolding q_def by blast
  have u4: "used m4 \<le> used m + 23 * n + 16 + 26 * q" using s1(5) s2(4) s3(4) s4(4) by linarith
  have f4: "used m4 + 10 * (n * n) + 22 * n \<le> TEMP_DEFAULT_SIZE" using u4 fit n unfolding q_def [symmetric] by linarith
  from collect_prefixed [OF s4(5,6) assms(11) f4, of "''-l''"] assms(7) obtain m5 a5 where
    s5: "cmd_append_data_with_prefix m4 empty_array ''-l'' libs = Inr (m5, a5)" "keeps m4 {} m5" "lists m5 a5 (map ((@) ''-l'') libs)"
      "used m5 \<le> used m4 + 10 * q + 22 * n" unfolding q_def by (auto simp: nul_def)
  have u5: "used m5 \<le> used m + 60 * (n * n) + 90 * n" using u4 s5(4) n unfolding q_def [symmetric] by linarith
  have k4: "keeps m4 {} m5" and k3: "keeps m3 {} m5" using keeps_trans [OF s4(2) s5(2)] s5(2) by simp_all
  have k2: "keeps m2 {} m5" using keeps_trans [OF s3(2) k3] by simp
  have k1: "keeps m1 {} m5" using keeps_trans [OF s2(2) k2] by simp
  have k0: "keeps m {} m5" using keeps_trans [OF s1(2) k1] by simp
  let ?cmd = "\<lparr>cmd_build = str, cmd_args = a2, cmd_paths = a3, cmd_files = a4, cmd_extra = empty_array, cmd_libs = a5\<rparr>"
  have "prepare_cmd m build_tool args ps files libs = Inr (m5, ?cmd)"
    using s1(1) s2(1) s3(1) s4(1) s5(1)
    by (simp add: prepare_cmd_def cmd_set_build_tool_def cmd_append_args_def cmd_append_paths_def cmd_append_files_def cmd_append_libs_def empty_cmd_def)
  moreover have "holds m5 str build_tool" using holds_keeps [OF s1(3) k1] by simp
  ultimately show ?thesis using k0 s1(4) u5 lists_keeps [OF s2(3) k2] lists_keeps [OF s3(3) k3] lists_keeps [OF s4(3) k4] s5(3)
    by (intro exI [of _ m5] exI [of _ ?cmd]) (simp add: cmd_holds_def)
qed

text \<open>Property C37. What \<open>build\<close> executes of a command that \<open>cb.c\<close> fills from its texts: the tool, the arguments, the output file, the files,
  the include paths with their prefix and the libraries with theirs, in this order and nothing behind them. Counting every
  array that grows and every text that is copied, at most \<open>500 * n * n\<close> bytes of the context are needed for \<open>n\<close> parts of each kind.\<close>

theorem prepared_command_line:
  assumes "memory_ok m" "0 < stack_last m" "0 < n" "used m + 500 * (n * n) \<le> TEMP_DEFAULT_SIZE"
    and "nul \<notin> set build_tool" "length build_tool \<le> n" "\<forall>s \<in> set (ps @ libs). nul \<notin> set s \<and> length s \<le> n"
    and "length args \<le> n" "length ps \<le> n" "length files \<le> n" "length libs \<le> n"
  shows "\<exists>m' cmd. prepare_cmd m build_tool args ps files libs = Inr (m', cmd) \<and> memory_ok m' \<and>
    command_line m' cmd (map_option Literal out) =
      Inr (build_tool # args @ (case out of None \<Rightarrow> [] | Some s \<Rightarrow> [s]) @ files @ map ((@) ''-I'') ps @ map ((@) ''-l'') libs)"
proof -
  let ?c = "\<lparr>tool = build_tool, p_args = args, p_out = out, p_files = files, p_paths = map ((@) ''-I'') ps, p_extra = [],
    p_libs = map ((@) ''-l'') libs\<rparr>"
  from prepare_ok [OF assms, of out] obtain m' cmd where
    s: "prepare_cmd m build_tool args ps files libs = Inr (m', cmd)" "keeps m {} m'" "st_data (cmd_build cmd) \<noteq> None" "cmd_holds m' cmd ?c"
      "used m' \<le> used m + 60 * (n * n) + 90 * n" by blast
  have ok: "memory_ok m'" "0 < stack_last m'" using keeps_ok [OF s(2)] assms(2) by auto
  have out: "case p_out ?c of None \<Rightarrow> map_option Literal out = None | Some s \<Rightarrow> \<exists>p. map_option Literal out = Some p \<and> names m' p s"
    by (simp add: names_def split: option.splits)
  have "n \<le> n * n" "1 \<le> n * n" using assms(3) by simp_all
  moreover have "length (line_of ?c) \<le> 4 * n + 2" using assms(8-11) by (simp add: line_of_def split: option.splits)
  ultimately have "used m' + 7 * (length (line_of ?c) * 8) < TEMP_DEFAULT_SIZE" using s(5) assms(4) by linarith
  from command_line_ends [OF ok s(4,3) out this] s(1) ok show ?thesis by (simp add: line_of_def)
qed

text \<open>The command of \<open>build_http_libs\<close> for one of its files.\<close>

theorem prepared_command_line_witness:
  "\<exists>m m' cmd. context_push no_memory ''build_http_libs'' = (m, 0) \<and>
    prepare_cmd m ''gcc'' [''-c'', ''-O2'', ''-Wall'', ''-o''] [''libs'', ''server''] [''http_libs/http_session.c''] [''uuid''] = Inr (m', cmd) \<and>
    command_line m' cmd (Some (Literal ''build/obj/http_session.o'')) =
      Inr [''gcc'', ''-c'', ''-O2'', ''-Wall'', ''-o'', ''build/obj/http_session.o'', ''http_libs/http_session.c'', ''-Ilibs'', ''-Iserver'', ''-luuid'']"
proof -
  have z: "stack_last no_memory = 0" by (simp add: no_memory_def)
  from context_push_ok [OF no_memory_ok, of "''build_http_libs''"] z obtain m where
    m: "context_push no_memory ''build_http_libs'' = (m, 0)" "memory_ok m" "stack_last m = 1" "arena_of m 0 = no_arena" by auto
  have u: "0 < stack_last m" "0 < (10::nat)" "used m + 500 * (10 * 10) \<le> TEMP_DEFAULT_SIZE" using m(3,4) by (simp_all add: used_def TEMP_DEFAULT_SIZE_def)
  from prepared_command_line [OF m(2) u, of "''gcc''" "[''libs'', ''server'']" "[''uuid'']" "[''-c'', ''-O2'', ''-Wall'', ''-o'']"
      "[''http_libs/http_session.c'']" "Some ''build/obj/http_session.o''"] m(1)
  show ?thesis by (auto simp: nul_def)
qed

end
