(* ===== verification/BuildFiles.thy ===== *)
theory BuildFiles
  imports Build "HOL-Library.AList"
begin

section \<open>Files and directories of the build tool (cb.h)\<close>

text \<open>
  What the build tool sees of the file system: a tree of files (content and time of the last change) and directories (entries
  in the order \<open>readdir\<close> gives them, after \<open>.\<close> and \<open>..\<close>), and its working directory. \<open>refuse\<close> are the paths that may not be created,
  written or deleted, \<open>hidden\<close> those that may not be opened for reading; the times of directories and the size \<open>ftell\<close>
  reports for one stay open. \<open>printed\<close> are the commands that were started. Strings hold their text here (\<open>BuildStrings\<close> is how),
  and a copied file fits into the arena.
\<close>

datatype node = File string int | Dir "(string \<times> node) list"

record files =
  tree :: node
  cwd :: "string list"
  now :: int
  refuse :: "string list \<Rightarrow> bool"
  hidden :: "string list \<Rightarrow> bool"
  dir_time :: "string list \<Rightarrow> int"
  dir_end :: nat
  printed :: "string list list"

fun split_slash :: "string \<Rightarrow> string list" where
  "split_slash [] = [[]]"
| "split_slash (c # cs) =
     (if c = CHR ''/'' then [] # split_slash cs
      else (case split_slash cs of [] \<Rightarrow> [[c]] | s # ss \<Rightarrow> (c # s) # ss))"

definition comps :: "string \<Rightarrow> string list" where
  "comps p = filter (\<lambda>s. s \<noteq> [] \<and> s \<noteq> ''.'') (split_slash p)"

definition resolve :: "files \<Rightarrow> string \<Rightarrow> string list option" where
  "resolve fs p = (if p = [] then None else Some ((if hd p = CHR ''/'' then [] else cwd fs) @ comps p))"

fun look :: "node \<Rightarrow> string list \<Rightarrow> node option" where
  "look n [] = Some n"
| "look (File _ _) (c # cs) = None"
| "look (Dir es) (c # cs) = (case map_of es c of None \<Rightarrow> None | Some n \<Rightarrow> look n cs)"

fun put :: "string list \<Rightarrow> node option \<Rightarrow> node \<Rightarrow> node" where
  "put [] opt n = (case opt of None \<Rightarrow> n | Some x \<Rightarrow> x)"
| "put (c # cs) opt (File s t) = File s t"
| "put [c] opt (Dir es) = Dir (case opt of None \<Rightarrow> AList.delete c es | Some x \<Rightarrow> AList.update c x es)"
| "put (c # d # cs) opt (Dir es) =
     Dir (case map_of es c of None \<Rightarrow> es | Some n \<Rightarrow> AList.update c (put (d # cs) opt n) es)"

definition at :: "files \<Rightarrow> string \<Rightarrow> node option" where
  "at fs p = Option.bind (resolve fs p) (look (tree fs))"

definition opendir :: "files \<Rightarrow> string \<Rightarrow> string list option" where
  "opendir fs p =
     (case resolve fs p of
        None \<Rightarrow> None
      | Some q \<Rightarrow> (case look (tree fs) q of
          Some (Dir es) \<Rightarrow> if hidden fs q then None else Some (''.'' # ''..'' # map fst es)
        | _ \<Rightarrow> None))"

text \<open>A name can be made where nothing is, in a directory, if it is allowed.\<close>

definition free_in_dir :: "files \<Rightarrow> string list \<Rightarrow> bool" where
  "free_in_dir fs q \<longleftrightarrow> q \<noteq> [] \<and> look (tree fs) q = None \<and> (\<exists>es. look (tree fs) (butlast q) = Some (Dir es)) \<and> \<not> refuse fs q"

definition mkdir :: "files \<Rightarrow> string \<Rightarrow> files option" where
  "mkdir fs p =
     (case resolve fs p of
        None \<Rightarrow> None
      | Some q \<Rightarrow> if free_in_dir fs q then Some (fs\<lparr>tree := put q (Some (Dir [])) (tree fs)\<rparr>) else None)"

definition fopen_write :: "files \<Rightarrow> string \<Rightarrow> files option" where
  "fopen_write fs p =
     (case resolve fs p of
        None \<Rightarrow> None
      | Some q \<Rightarrow>
          if free_in_dir fs q \<or> ((\<exists>s t. look (tree fs) q = Some (File s t)) \<and> \<not> refuse fs q)
          then Some (fs\<lparr>tree := put q (Some (File [] (now fs))) (tree fs)\<rparr>) else None)"

definition fopen_read :: "files \<Rightarrow> string \<Rightarrow> bool" where
  "fopen_read fs p = (case resolve fs p of None \<Rightarrow> False | Some q \<Rightarrow> look (tree fs) q \<noteq> None \<and> \<not> hidden fs q)"

definition stat_time :: "files \<Rightarrow> string \<Rightarrow> int option" where
  "stat_time fs p =
     (case resolve fs p of
        None \<Rightarrow> None
      | Some q \<Rightarrow> (case look (tree fs) q of
          None \<Rightarrow> None | Some (File _ t) \<Rightarrow> Some t | Some (Dir _) \<Rightarrow> Some (dir_time fs q)))"

definition set_file :: "files \<Rightarrow> string \<Rightarrow> string \<Rightarrow> int \<Rightarrow> files" where
  "set_file fs p s t = (case resolve fs p of None \<Rightarrow> fs | Some q \<Rightarrow> fs\<lparr>tree := put q (Some (File s t)) (tree fs)\<rparr>)"

subsection \<open>Names of files\<close>

definition is_file_type :: "string \<Rightarrow> string \<Rightarrow> nat \<Rightarrow> bool" where
  "is_file_type file suf suffix_len =
     (if length file < suffix_len then False else drop (length file - suffix_len) file = take suffix_len suf)"

definition is_c_file :: "string \<Rightarrow> bool" where
  "is_c_file file = (let len = length file in len > 2 \<and> file ! (len - 1) = CHR ''c'' \<and> file ! (len - 2) = CHR ''.'')"

definition is_dot :: "string \<Rightarrow> bool" where
  "is_dot d_name \<longleftrightarrow> d_name = ''.'' \<or> d_name = ''..''"

definition is_file_older :: "files \<Rightarrow> string \<Rightarrow> string \<Rightarrow> int" where
  "is_file_older fs file ref =
     (case stat_time fs file of
        None \<Rightarrow> -1
      | Some t1 \<Rightarrow> (case stat_time fs ref of None \<Rightarrow> -1 | Some t2 \<Rightarrow> if t1 > t2 then 1 else 0))"

definition files_append :: "files \<Rightarrow> string list \<Rightarrow> string \<Rightarrow> string option \<Rightarrow> bool \<Rightarrow> string list" where
  "files_append fs args path suf append_to_path =
     (let len = (case suf of None \<Rightarrow> 0 | Some s \<Rightarrow> length s) in
      case opendir fs path of
        None \<Rightarrow> args
      | Some ds \<Rightarrow> args @ map (\<lambda>file. if append_to_path then path @ ''/'' @ file else file)
          (filter (\<lambda>file. is_file_type file (case suf of None \<Rightarrow> [] | Some s \<Rightarrow> s) len) ds))"

subsection \<open>Directories\<close>

definition create_out_dir :: "files \<Rightarrow> string \<Rightarrow> files \<times> bool" where
  "create_out_dir fs p =
     (case opendir fs p of
        None \<Rightarrow> (case mkdir fs p of None \<Rightarrow> (fs, False) | Some fs \<Rightarrow> (fs, True))
      | Some _ \<Rightarrow> (fs, True))"

text \<open>The loop of \<open>create_dir_tree\<close>: what is read of the path, and the rest.\<close>

fun dir_tree_loop :: "files \<Rightarrow> string \<Rightarrow> string \<Rightarrow> files \<times> bool" where
  "dir_tree_loop fs dir [] = create_out_dir fs dir"
| "dir_tree_loop fs dir (c # cs) =
     (if c = CHR ''/'' then
        (case create_out_dir fs dir of (fs, ok) \<Rightarrow> if ok then dir_tree_loop fs (dir @ [c]) cs else (fs, False))
      else dir_tree_loop fs (dir @ [c]) cs)"

definition create_dir_tree :: "files \<Rightarrow> string \<Rightarrow> files \<times> string list option" where
  "create_dir_tree fs p = (case dir_tree_loop fs [] p of (fs, ok) \<Rightarrow> (fs, if ok then opendir fs p else None))"

text \<open>
  \<open>remove_dir\<close> with \<open>k\<close> open contexts: every level opens one more (see \<open>BuildMemory\<close>: the eleventh is lost). It follows the
  directory; what is left of a node and whether it is gone is the result. There are no links.
\<close>

fun remove_node :: "files \<Rightarrow> nat \<Rightarrow> string list \<Rightarrow> node \<Rightarrow> (node option \<times> bool) res"
  and remove_entries :: "files \<Rightarrow> nat \<Rightarrow> string list \<Rightarrow> (string \<times> node) list \<Rightarrow> ((string \<times> node) list \<times> bool) res"
  where
  "remove_node fs k q (File s t) = Inr (if refuse fs q then (Some (File s t), False) else (None, True))"
| "remove_node fs k q (Dir es) =
     (if hidden fs q then Inr (Some (Dir es), False)
      else if 10 \<le> k then Inl UninitRead
      else bind_res (remove_entries fs (Suc k) q es) (\<lambda>(es, ok).
        Inr (if \<not> ok then (Some (Dir es), False) else if refuse fs q then (Some (Dir es), False) else (None, True))))"
| "remove_entries fs k q [] = Inr ([], True)"
| "remove_entries fs k q ((d_name, n) # es) =
     bind_res (remove_node fs k (q @ [d_name]) n) (\<lambda>(r, ok).
       case r of
         Some n \<Rightarrow> Inr ((d_name, n) # es, False)
       | None \<Rightarrow> remove_entries fs k q es)"

definition remove_dir :: "files \<Rightarrow> nat \<Rightarrow> string \<Rightarrow> (files \<times> bool) res" where
  "remove_dir fs k folder =
     (case opendir fs folder of
        None \<Rightarrow> Inr (fs, False)
      | Some _ \<Rightarrow>
          let q = the (resolve fs folder) in
          bind_res (remove_node fs k q (the (look (tree fs) q))) (\<lambda>(r, ok). Inr (fs\<lparr>tree := put q r (tree fs)\<rparr>, ok)))"

subsection \<open>Copies\<close>

definition content_at :: "files \<Rightarrow> string \<Rightarrow> string" where
  "content_at fs p = (case at fs p of Some (File s _) \<Rightarrow> s | _ \<Rightarrow> [])"

definition file_size :: "files \<Rightarrow> string \<Rightarrow> nat" where
  "file_size fs p = (case at fs p of Some (File s _) \<Rightarrow> length s | _ \<Rightarrow> dir_end fs)"

text \<open>The size is taken before the destination is opened, the content after. The time is set on the source.\<close>

definition copy_file :: "files \<Rightarrow> string \<Rightarrow> string \<Rightarrow> bool \<Rightarrow> files \<times> bool" where
  "copy_file fs src_path dst_path keep_timestamp =
     (case stat_time fs src_path of
        None \<Rightarrow> (fs, False)
      | Some t \<Rightarrow>
          if \<not> fopen_read fs src_path then (fs, False)
          else let n = file_size fs src_path in
            case fopen_write fs dst_path of
              None \<Rightarrow> (fs, False)
            | Some fs \<Rightarrow>
                let bytes = take n (content_at fs src_path);
                    fs = (if length bytes = n then set_file fs dst_path bytes (now fs) else fs);
                    fs = (case at fs src_path of
                            Some (File s _) \<Rightarrow> if keep_timestamp \<and> \<not> refuse fs (the (resolve fs src_path)) then set_file fs src_path s t else fs
                          | _ \<Rightarrow> fs)
                in (fs, length bytes \<noteq> n))"

text \<open>
  The last loop of \<open>fetch_local_files\<close>: the names that are left in the two strings belong to the state. The result lists the
  copies that are announced.
\<close>

definition in_dir :: "string \<Rightarrow> string \<Rightarrow> string" where
  "in_dir dir f = dir @ ''/'' @ f"

fun fetch_loop :: "string \<Rightarrow> string \<Rightarrow> string list \<Rightarrow> files \<Rightarrow> string \<Rightarrow> string \<Rightarrow> string list \<Rightarrow> files \<times> (string \<times> string) list" where
  "fetch_loop src dst dst_files fs src_file dst_file [] = (fs, [])"
| "fetch_loop src dst dst_files fs src_file dst_file (f # todo) =
     (let found = f \<in> set dst_files;
          src_file = (if found then in_dir src f else src_file);
          dst_file = (if found then in_dir dst f else dst_file)
      in if found \<and> is_file_older fs src_file dst_file \<noteq> 1 then fetch_loop src dst dst_files fs src_file dst_file todo
         else let src_file = (if src_file = [] then in_dir src f else src_file);
                  dst_file = (if dst_file = [] then in_dir dst f else dst_file)
           in case fetch_loop src dst dst_files (fst (copy_file fs src_file dst_file True)) [] [] todo of
                (fs, copies) \<Rightarrow> (fs, (src_file, dst_file) # copies))"

definition fetch_local_files :: "files \<Rightarrow> string \<Rightarrow> string \<Rightarrow> string list option \<Rightarrow> files \<times> (string \<times> string) list \<times> bool" where
  "fetch_local_files fs src dst wanted =
     (case opendir fs src of
        None \<Rightarrow> (fs, [], False)
      | Some src_entries \<Rightarrow>
          (case create_dir_tree fs dst of
             (fs, None) \<Rightarrow> (fs, [], False)
           | (fs, Some dst_entries) \<Rightarrow>
               let ds = filter (\<lambda>f. \<not> is_dot f) src_entries;
                   files_to_check = (case wanted of
                     None \<Rightarrow> ds | Some ws \<Rightarrow> concat (map (\<lambda>e. filter ((=) e) ws) ds));
                   dst_files = filter (\<lambda>f. \<not> is_dot f) dst_entries
               in case fetch_loop src dst dst_files fs [] [] files_to_check of (fs, copies) \<Rightarrow> (fs, copies, True)))"

subsection \<open>Paths in a tree\<close>

lemma resolve_tree [simp]: "resolve (fs\<lparr>tree := t\<rparr>) p = resolve fs p"
  by (simp add: resolve_def)

lemma look_append: "look n (p @ q) = Option.bind (look n p) (\<lambda>n. look n q)"
  by (induction n p rule: look.induct) (auto split: option.splits)

lemma look_prefix: "prefix p q \<Longrightarrow> look n q \<noteq> None \<Longrightarrow> look n p \<noteq> None"
  by (cases "look n p") (auto simp: prefix_def look_append)

lemma look_below_file: "look n p = Some (File s t) \<Longrightarrow> strict_prefix p q \<Longrightarrow> look n q = None"
proof -
  assume "look n p = Some (File s t)" "strict_prefix p q"
  then obtain c cs where "q = p @ c # cs" by (metis strict_prefixE')
  with \<open>look n p = Some (File s t)\<close> show ?thesis by (simp add: look_append)
qed

lemma parent_dir:
  assumes "look t q = Some n" "q \<noteq> []"
  shows "\<exists>es. look t (butlast q) = Some (Dir es)"
proof -
  have e: "look t (butlast q @ [last q]) = Some n" using assms by simp
  then obtain d where d: "look t (butlast q) = Some d" by (cases "look t (butlast q)") (simp_all add: look_append)
  with e show ?thesis unfolding look_append by (cases d) auto
qed

lemma look_put_cons:
  "look (put (c # cs) opt (Dir es)) (d # ds) =
     (if d \<noteq> c then look (Dir es) (d # ds)
      else if cs = [] then Option.bind opt (\<lambda>n. look n ds)
      else Option.bind (map_of es c) (\<lambda>n. look (put cs opt n) ds))"
  by (cases cs) (auto simp: update_conv delete_conv split: option.splits)

lemma put_dir: "\<exists>es'. put (c # cs) opt (Dir es) = Dir es'"
  by (cases cs) simp_all

lemma look_put_same:
  "q \<noteq> [] \<Longrightarrow> look n (butlast q) = Some (Dir es) \<Longrightarrow> look (put q opt n) q = opt"
proof (induction q arbitrary: n)
  case (Cons c cs)
  from Cons.prems(2) obtain ds where n: "n = Dir ds" by (cases n) (auto split: if_splits)
  show ?case
  proof (cases "cs = []")
    case True
    then show ?thesis by (cases opt) (simp_all add: n update_conv delete_conv)
  next
    case False
    with Cons.prems(2) obtain n' where "map_of ds c = Some n'" "look n' (butlast cs) = Some (Dir es)"
      by (auto simp: n split: option.splits)
    with Cons.IH False show ?thesis by (simp add: n look_put_cons)
  qed
qed simp

lemma look_put_other:
  "\<not> prefix q p \<Longrightarrow> \<not> prefix p q \<Longrightarrow> look (put q opt n) p = look n p"
proof (induction q arbitrary: n p)
  case (Cons c cs)
  then obtain d ds where p: "p = d # ds" by (cases p) auto
  show ?case
  proof (cases n)
    case (Dir es)
    have "look (put cs opt m) ds = look m ds" if "d = c" for m
      using Cons.IH [of ds m] Cons.prems that by (simp add: p)
    with Cons.prems show ?thesis by (auto simp: Dir p look_put_cons split: option.splits)
  qed simp
qed simp

text \<open>A directory above the place stays one.\<close>

lemma look_put_above:
  "strict_prefix p q \<Longrightarrow> look n p = Some (Dir es) \<Longrightarrow> \<exists>es'. look (put q opt n) p = Some (Dir es')"
proof (induction q arbitrary: n p)
  case (Cons c cs)
  show ?case
  proof (cases p)
    case Nil
    with Cons.prems put_dir show ?thesis by auto
  next
    case (Cons d ds)
    with Cons.prems have c: "d = c" "strict_prefix ds cs" by auto
    from Cons.prems(2) Cons obtain es1 where n: "n = Dir es1" by (cases n) auto
    with Cons.prems(2) Cons c(1) obtain n' where "map_of es1 c = Some n'" "look n' ds = Some (Dir es)" by (auto split: option.splits)
    with Cons.IH [OF c(2)] c Cons show ?thesis by (auto simp: n look_put_cons)
  qed
qed simp

subsection \<open>Removing a directory\<close>

text \<open>The levels of directories of a node.\<close>

fun height :: "node \<Rightarrow> nat" and heights :: "(string \<times> node) list \<Rightarrow> nat" where
  "height (File s t) = 0"
| "height (Dir es) = Suc (heights es)"
| "heights [] = 0"
| "heights ((d_name, n) # es) = max (height n) (heights es)"

lemma remove_result:
  "remove_node fs k q n = Inr (r, ok) \<Longrightarrow> ok \<longleftrightarrow> r = None"
  "remove_entries fs k q es = Inr (es', ok) \<Longrightarrow> ok \<longrightarrow> es' = []"
  by (induction fs k q n and fs k q es arbitrary: r ok and es' ok rule: remove_node_remove_entries.induct)
    (auto simp: bind_res_Inr split: if_splits option.splits)

lemma remove_ends:
  "k + height n \<le> 10 \<Longrightarrow> \<exists>r ok. remove_node fs k q n = Inr (r, ok)"
  "k + heights es \<le> 10 \<Longrightarrow> \<exists>es' ok. remove_entries fs k q es = Inr (es', ok)"
proof (induction fs k q n and fs k q es rule: remove_node_remove_entries.induct)
  case (4 fs k q d_name n es)
  then have le: "k + height n \<le> 10" "k + heights es \<le> 10" by auto
  with 4(1) obtain r ok where "remove_node fs k (q @ [d_name]) n = Inr (r, ok)" by blast
  with 4(2) le show ?case by (cases r) auto
qed auto

text \<open>Where everything may be removed, everything is, unless the directories are too deep.\<close>

lemma remove_all:
  "\<forall>p. prefix q p \<longrightarrow> \<not> refuse fs p \<and> \<not> hidden fs p \<Longrightarrow>
     remove_node fs k q n = (if height n = 0 \<or> k + height n \<le> 10 then Inr (None, True) else Inl UninitRead)"
  "\<forall>p. prefix q p \<longrightarrow> \<not> refuse fs p \<and> \<not> hidden fs p \<Longrightarrow>
     remove_entries fs k q es = (if heights es = 0 \<or> k + heights es \<le> 10 then Inr ([], True) else Inl UninitRead)"
proof (induction fs k q n and fs k q es rule: remove_node_remove_entries.induct)
  case (4 fs k q d_name n es)
  then have "\<forall>p. prefix (q @ [d_name]) p \<longrightarrow> \<not> refuse fs p \<and> \<not> hidden fs p" using append_prefixD by blast
  with 4 show ?case by (auto simp: max_def)
qed auto

text \<open>Property C38. \<open>remove_dir\<close> returns, if the directories under the folder and the open contexts are at most ten, and reports success exactly when
  the folder is gone. Nothing outside of the folder changes, and where nothing is protected it succeeds.\<close>

theorem remove_dir_gone:
  assumes "opendir fs folder = Some ds" "resolve fs folder = Some q" "q \<noteq> []" "look (tree fs) q = Some n" "k + height n \<le> 10"
  shows "\<exists>fs' ok. remove_dir fs k folder = Inr (fs', ok) \<and> (ok \<longleftrightarrow> at fs' folder = None) \<and>
    (\<forall>p. \<not> prefix q p \<and> \<not> prefix p q \<longrightarrow> look (tree fs') p = look (tree fs) p) \<and>
    ((\<forall>p. prefix q p \<longrightarrow> \<not> refuse fs p \<and> \<not> hidden fs p) \<longrightarrow> ok)"
proof -
  obtain r ok where r: "remove_node fs k q n = Inr (r, ok)" using remove_ends(1) [OF assms(5)] by blast
  let ?fs = "fs\<lparr>tree := put q r (tree fs)\<rparr>"
  have same: "look (put q r (tree fs)) q = r" using look_put_same [OF assms(3)] parent_dir [OF assms(4,3)] by blast
  have "remove_dir fs k folder = Inr (?fs, ok)" using assms(1,2,4) r by (simp add: remove_dir_def Let_def)
  moreover have "at ?fs folder = r" using assms(2) same by (simp add: at_def)
  then have "ok \<longleftrightarrow> at ?fs folder = None" using remove_result(1) [OF r] by simp
  moreover have "ok" if "\<forall>p. prefix q p \<longrightarrow> \<not> refuse fs p \<and> \<not> hidden fs p"
    using remove_all(1) [OF that, of k n] r assms(5) by (simp split: if_splits)
  ultimately show ?thesis using look_put_other [of q _ r "tree fs"] by (intro exI [of _ ?fs] exI [of _ ok]) auto
qed

text \<open>Where nothing is protected, depth is the only limit.\<close>

lemma remove_dir_depth:
  assumes "opendir fs folder = Some ds" "resolve fs folder = Some q" "look (tree fs) q = Some n"
    and "\<forall>p. prefix q p \<longrightarrow> \<not> refuse fs p \<and> \<not> hidden fs p"
  shows "remove_dir fs k folder = Inl UninitRead \<longleftrightarrow> 10 < k + height n"
proof -
  obtain es where "n = Dir es" using assms(1-3) by (cases n) (auto simp: opendir_def)
  then show ?thesis using assms(1-3) remove_all(1) [OF assms(4), of k n] by (auto simp: remove_dir_def Let_def)
qed

subsection \<open>Making directories\<close>

lemma file_not_above:
  assumes "look t p = Some (File s u)" "look t (butlast q) = Some (Dir es)" "q \<noteq> []" "p \<noteq> q"
  shows "\<not> prefix p q"
proof
  assume "prefix p q"
  with assms(3,4) have "prefix p (butlast q)" by (metis append_butlast_last_id prefix_snoc)
  with look_below_file [OF assms(1), of "butlast q"] assms(1,2) show False
    by (cases "p = butlast q") (auto simp: strict_prefix_def)
qed

text \<open>What making the directories of the path \<open>q\<close> does to a tree: files and directories stay, new things are on the path.\<close>

definition grown :: "string list \<Rightarrow> node \<Rightarrow> node \<Rightarrow> bool" where
  "grown q t t' \<longleftrightarrow> (\<forall>p s u. look t p = Some (File s u) \<longrightarrow> look t' p = Some (File s u)) \<and>
     (\<forall>p es. look t p = Some (Dir es) \<longrightarrow> (\<exists>es'. look t' p = Some (Dir es'))) \<and>
     (\<forall>p. look t p = None \<and> \<not> prefix p q \<longrightarrow> look t' p = None)"

lemma grown_refl: "grown q t t"
  by (simp add: grown_def)

lemma grown_path_trans:
  assumes "grown p t u" "grown q u v" "prefix p q"
  shows "grown q t v"
  using assms(1,2) prefix_order.trans [OF _ assms(3)] unfolding grown_def by meson

lemma grown_new_dir:
  assumes "look t q = None" "q \<noteq> []" "look t (butlast q) = Some (Dir es)"
  shows "grown q t (put q (Some (Dir [])) t) \<and> look (put q (Some (Dir [])) t) q = Some (Dir [])"
proof -
  let ?t = "put q (Some (Dir [])) t"
  have at: "look ?t q = Some (Dir [])" using look_put_same [OF assms(2,3)] .
  have ext: "look t p = None" if "prefix q p" for p using look_prefix [OF that, of t] assms(1) by (cases "look t p") simp_all
  have same: "look ?t p = Some (File s u)" if "look t p = Some (File s u)" for p s u
  proof (rule look_put_other [THEN trans, OF _ _ that])
    show "\<not> prefix q p" using ext that by auto
    show "\<not> prefix p q" using file_not_above [OF that assms(3,2)] that assms(1) by (cases "p = q") auto
  qed
  have dir: "\<exists>es'. look ?t p = Some (Dir es')" if "look t p = Some (Dir es)" for p es
    using look_put_above [of p q t] look_put_other [of q p "Some (Dir [])" t] ext [of p] that assms(1)
    by (cases "prefix p q") (auto simp: strict_prefix_def)
  have none: "look ?t p = None" if "look t p = None" "\<not> prefix p q" for p
  proof (cases "prefix q p")
    case True
    with that(2) obtain r where "p = q @ r" "r \<noteq> []" by (auto simp: prefix_def)
    then show ?thesis by (cases r) (simp_all add: look_append at)
  qed (use look_put_other [of q p] that in simp)
  show ?thesis using at same dir none unfolding grown_def by blast
qed

text \<open>A place where a directory is, or can be made.\<close>

definition may_make :: "files \<Rightarrow> string list \<Rightarrow> bool" where
  "may_make fs q \<longleftrightarrow> \<not> hidden fs q \<and> \<not> refuse fs q \<and> (\<forall>s t. look (tree fs) q \<noteq> Some (File s t))"

lemma out_dir_ok:
  assumes "resolve fs p = Some q" "q \<noteq> []" "look (tree fs) (butlast q) = Some (Dir es)" "may_make fs q"
  shows "\<exists>t. create_out_dir fs p = (fs\<lparr>tree := t\<rparr>, True) \<and> grown q (tree fs) t \<and> (\<exists>ds. look t q = Some (Dir ds))"
proof (cases "look (tree fs) q")
  case None
  have "create_out_dir fs p = (fs\<lparr>tree := put q (Some (Dir [])) (tree fs)\<rparr>, True)"
    using assms None by (simp add: create_out_dir_def opendir_def mkdir_def free_in_dir_def may_make_def)
  with grown_new_dir [OF None assms(2,3)] show ?thesis by blast
next
  case (Some n)
  with assms(4) obtain ds where "n = Dir ds" by (cases n) (auto simp: may_make_def)
  with Some assms(1,4) show ?thesis
    by (intro exI [of _ "tree fs"]) (simp add: create_out_dir_def opendir_def may_make_def grown_refl)
qed

subsection \<open>Paths of plain names\<close>

definition plain :: "string \<Rightarrow> bool" where
  "plain c \<longleftrightarrow> c \<noteq> [] \<and> c \<noteq> ''.'' \<and> CHR ''/'' \<notin> set c"

fun join :: "string list \<Rightarrow> string" where
  "join [] = []"
| "join [c] = c"
| "join (c # d # cs) = c @ ''/'' @ join (d # cs)"

definition leading :: "string list \<Rightarrow> string" where
  "leading ds = concat (map (\<lambda>c. c @ ''/'') ds)"

lemma split_name: "CHR ''/'' \<notin> set c \<Longrightarrow> split_slash c = [c] \<and> split_slash (c @ CHR ''/'' # r) = c # split_slash r"
  by (induction c) auto

lemma comps_leading: "\<forall>c \<in> set ds. plain c \<Longrightarrow> plain c \<Longrightarrow> comps (leading ds @ c) = ds @ [c]"
proof (induction ds)
  case (Cons d ds)
  then have "split_slash (leading (d # ds) @ c) = d # split_slash (leading ds @ c)"
    using split_name [of d "leading ds @ c"] by (simp add: leading_def plain_def)
  with Cons show ?case by (simp add: comps_def plain_def)
qed (use split_name in \<open>auto simp: comps_def plain_def leading_def\<close>)

lemma resolve_leading:
  assumes "\<forall>c \<in> set ds. plain c" "plain c"
  shows "resolve fs (leading ds @ c) = Some (cwd fs @ ds @ [c])"
proof -
  have "leading ds @ c \<noteq> [] \<and> hd (leading ds @ c) \<noteq> CHR ''/''"
    using assms by (cases ds) (auto simp: leading_def plain_def hd_append in_set_conv_nth hd_conv_nth)
  with comps_leading [OF assms] show ?thesis by (simp add: resolve_def)
qed

lemma join_leading: "cs \<noteq> [] \<Longrightarrow> join cs = leading (butlast cs) @ last cs"
  by (induction cs rule: join.induct) (auto simp: leading_def)

lemma resolve_join: "cs \<noteq> [] \<Longrightarrow> \<forall>c \<in> set cs. plain c \<Longrightarrow> resolve fs (join cs) = Some (cwd fs @ cs)"
  using resolve_leading [of "butlast cs" "last cs" fs] by (simp add: join_leading in_set_butlastD)

lemma loop_name: "CHR ''/'' \<notin> set c \<Longrightarrow> dir_tree_loop fs dir (c @ r) = dir_tree_loop fs (dir @ c) r"
  by (induction c arbitrary: dir) auto

lemma dir_tree_ok:
  assumes "\<forall>c \<in> set (ds @ cs). plain c" "cs \<noteq> []" "look (tree fs) (cwd fs @ ds) = Some (Dir es)"
    and "\<forall>k \<le> length cs. may_make fs (cwd fs @ ds @ take k cs)"
  shows "\<exists>t. dir_tree_loop fs (leading ds) (join cs) = (fs\<lparr>tree := t\<rparr>, True) \<and> grown (cwd fs @ ds @ cs) (tree fs) t \<and>
    (\<exists>es'. look t (cwd fs @ ds @ cs) = Some (Dir es'))"
  using assms
proof (induction cs arbitrary: fs ds es rule: join.induct)
  case (2 c)
  have r: "resolve fs (leading ds @ c) = Some (cwd fs @ ds @ [c])" using resolve_leading "2.prems"(1) by simp
  have "may_make fs (cwd fs @ ds @ [c])" using "2.prems"(4) [rule_format, of 1] by simp
  with out_dir_ok [OF r] "2.prems"(3) have "\<exists>t. create_out_dir fs (leading ds @ c) = (fs\<lparr>tree := t\<rparr>, True) \<and>
    grown (cwd fs @ ds @ [c]) (tree fs) t \<and> (\<exists>es'. look t (cwd fs @ ds @ [c]) = Some (Dir es'))" by (simp add: butlast_append)
  with loop_name [of c fs "leading ds" "[]"] "2.prems"(1) show ?case by (simp add: plain_def)
next
  case (3 c d cs)
  have r: "resolve fs (leading ds @ c) = Some (cwd fs @ ds @ [c])" using resolve_leading "3.prems"(1) by simp
  have "may_make fs (cwd fs @ ds @ [c])" using "3.prems"(4) [rule_format, of 1] by simp
  with out_dir_ok [OF r] "3.prems"(3) obtain t where t: "create_out_dir fs (leading ds @ c) = (fs\<lparr>tree := t\<rparr>, True)"
    "grown (cwd fs @ ds @ [c]) (tree fs) t" "\<exists>es'. look t (cwd fs @ ds @ [c]) = Some (Dir es')" by (auto simp: butlast_append)
  let ?fs = "fs\<lparr>tree := t\<rparr>"
  have "dir_tree_loop fs (leading ds) (join (c # d # cs)) = dir_tree_loop ?fs (leading (ds @ [c])) (join (d # cs))"
    using loop_name [of c fs "leading ds"] "3.prems"(1) t(1) by (simp add: plain_def leading_def)
  moreover obtain es' where "look (tree ?fs) (cwd ?fs @ ds @ [c]) = Some (Dir es')" using t(3) by auto
  moreover have "may_make ?fs (cwd ?fs @ (ds @ [c]) @ take k (d # cs))" if "k \<le> length (d # cs)" for k
  proof -
    have m: "may_make fs (cwd fs @ ds @ c # take k (d # cs))" using "3.prems"(4) [rule_format, of "Suc k"] that by simp
    have "look t (cwd fs @ ds @ c # take k (d # cs)) \<noteq> Some (File s u)" for s u
    proof (cases "look (tree fs) (cwd fs @ ds @ c # take k (d # cs))")
      case None
      then show ?thesis using t(2,3) by (cases k) (auto simp: grown_def)
    next
      case (Some n)
      with m t(2) show ?thesis by (cases n) (auto simp: grown_def may_make_def)
    qed
    with m show ?thesis by (simp add: may_make_def)
  qed
  ultimately obtain u where u: "dir_tree_loop ?fs (leading (ds @ [c])) (join (d # cs)) = (?fs\<lparr>tree := u\<rparr>, True)"
    "grown (cwd ?fs @ (ds @ [c]) @ d # cs) (tree ?fs) u" "\<exists>es'. look u (cwd ?fs @ (ds @ [c]) @ d # cs) = Some (Dir es')"
    using "3.IH" [of "ds @ [c]" ?fs] "3.prems"(1) by fastforce
  have "grown (cwd fs @ ds @ c # d # cs) (tree fs) u" using grown_path_trans [OF t(2)] u(2) by simp
  with u \<open>dir_tree_loop fs (leading ds) (join (c # d # cs)) = dir_tree_loop ?fs (leading (ds @ [c])) (join (d # cs))\<close>
  show ?case by (intro exI [of _ u]) simp
qed simp

text \<open>\<open>create_dir_tree\<close> makes every missing directory of a relative path, one level after the other, keeps all files, creates nothing else
  and opens the last one. An absolute path always fails: its first part is the empty name.\<close>

theorem create_dir_tree_ok:
  assumes "\<forall>c \<in> set cs. plain c" "cs \<noteq> []" "look (tree fs) (cwd fs) = Some (Dir es)" "\<forall>k \<le> length cs. may_make fs (cwd fs @ take k cs)"
  shows "(\<exists>t ds. create_dir_tree fs (join cs) = (fs\<lparr>tree := t\<rparr>, Some ds) \<and> grown (cwd fs @ cs) (tree fs) t \<and>
      (\<forall>k \<le> length cs. \<exists>es. look t (cwd fs @ take k cs) = Some (Dir es))) \<and>
    create_dir_tree fs (CHR ''/'' # join cs) = (fs, None)"
proof -
  from dir_tree_ok [of "[]" cs fs es] assms obtain t es' where t: "dir_tree_loop fs [] (join cs) = (fs\<lparr>tree := t\<rparr>, True)"
    "grown (cwd fs @ cs) (tree fs) t" "look t (cwd fs @ cs) = Some (Dir es')" by (auto simp: leading_def)
  have "\<exists>es. look t (cwd fs @ take k cs) = Some (Dir es)" if "k \<le> length cs" for k
  proof (cases "look t (cwd fs @ take k cs)")
    case None
    with look_prefix [of "cwd fs @ take k cs" "cwd fs @ cs" t] t(3) show ?thesis by (simp add: take_is_prefix)
  next
    case (Some n)
    show ?thesis
    proof (cases n)
      case (File s u)
      with Some look_below_file [of t "cwd fs @ take k cs" s u "cwd fs @ cs"] t(3) have "cwd fs @ take k cs = cwd fs @ cs"
        by (auto simp: strict_prefix_def take_is_prefix)
      with Some File t(3) show ?thesis by simp
    qed (use Some in simp)
  qed
  moreover have "\<not> hidden fs (cwd fs @ cs)" using assms(4) [rule_format, of "length cs"] by (simp add: may_make_def)
  then have "create_dir_tree fs (join cs) = (fs\<lparr>tree := t\<rparr>, Some (''.'' # ''..'' # map fst es'))"
    using t(1,3) resolve_join [OF assms(2,1)] by (simp add: create_dir_tree_def opendir_def)
  moreover have "create_dir_tree fs (CHR ''/'' # join cs) = (fs, None)"
    by (simp add: create_dir_tree_def create_out_dir_def opendir_def mkdir_def resolve_def)
  ultimately show ?thesis using t(2) by blast
qed

subsection \<open>Copying\<close>

lemma put_id: "look n p = Some x \<Longrightarrow> put p (Some x) n = n"
proof (induction n p rule: look.induct)
  case (3 es c cs)
  then obtain n where n: "map_of es c = Some n" "look n cs = Some x" by (auto split: option.splits)
  with 3 show ?case by (cases cs) (auto simp: update_triv)
qed simp_all

text \<open>A place a file can be written to.\<close>

definition writable :: "files \<Rightarrow> string list \<Rightarrow> bool" where
  "writable fs q \<longleftrightarrow> free_in_dir fs q \<or> ((\<exists>s t. look (tree fs) q = Some (File s t)) \<and> \<not> refuse fs q)"

lemma writable_apart:
  assumes "writable fs q" "look (tree fs) p = Some (File s t)" "p \<noteq> q"
  shows "\<not> prefix q p" "\<not> prefix p q" "q \<noteq> []" "\<exists>es. look (tree fs) (butlast q) = Some (Dir es)"
proof -
  show q: "\<not> prefix q p"
  proof
    assume "prefix q p"
    with assms(3) have "strict_prefix q p" by (auto simp: strict_prefix_def)
    with assms(1,2) look_below_file [of "tree fs" q _ _ p] look_prefix [of q p "tree fs"] show False
      by (auto simp: writable_def free_in_dir_def strict_prefix_def)
  qed
  then show e: "q \<noteq> []" by auto
  show d: "\<exists>es. look (tree fs) (butlast q) = Some (Dir es)"
    using assms(1) parent_dir [OF _ e] by (auto simp: writable_def free_in_dir_def)
  show "\<not> prefix p q" using file_not_above [OF assms(2) _ e assms(3)] d by blast
qed

lemma copy_file_ok:
  assumes "resolve fs src = Some p" "resolve fs dst = Some q" "look (tree fs) p = Some (File s t)" "\<not> hidden fs p" "p \<noteq> q" "writable fs q"
  shows "copy_file fs src dst keep = (fs\<lparr>tree := put q (Some (File s (now fs))) (put q (Some (File [] (now fs))) (tree fs))\<rparr>, False)"
proof -
  let ?t = "put q (Some (File [] (now fs))) (tree fs)"
  let ?u = "put q (Some (File s (now fs))) ?t"
  note apart = writable_apart [OF assms(6,3,5)]
  have p: "look ?t p = Some (File s t)" "look ?u p = Some (File s t)"
    using look_put_other [OF apart(1,2)] assms(3) by simp_all
  have "fopen_write fs dst = Some (fs\<lparr>tree := ?t\<rparr>)" using assms(2,6) by (simp add: fopen_write_def writable_def)
  moreover have "stat_time fs src = Some t" "fopen_read fs src" "file_size fs src = length s"
    using assms(1,3,4) by (simp_all add: stat_time_def fopen_read_def file_size_def at_def)
  ultimately show ?thesis
    using assms(1,2) p put_id [OF p(2)] by (simp add: copy_file_def Let_def content_at_def at_def set_file_def)
qed

text \<open>The tree after a copy.\<close>

lemma copied_tree:
  assumes "writable fs q" "q \<noteq> []" "u = put q (Some y) (put q (Some x) (tree fs))"
  shows "look u q = Some y" "\<not> prefix q r \<Longrightarrow> \<not> prefix r q \<Longrightarrow> look u r = look (tree fs) r"
    "strict_prefix r q \<Longrightarrow> look (tree fs) r = Some (Dir es) \<Longrightarrow> \<exists>es. look u r = Some (Dir es)"
proof -
  obtain ds where d: "look (tree fs) (butlast q) = Some (Dir ds)"
    using assms(1) parent_dir [OF _ assms(2)] by (auto simp: writable_def free_in_dir_def)
  have up: "\<exists>es. look (put q (Some x) (tree fs)) r = Some (Dir es)" if "strict_prefix r q" "look (tree fs) r = Some (Dir es)" for r es
    using look_put_above that by blast
  have "strict_prefix (butlast q) q" using assms(2) strict_prefixI' [of q "butlast q" "last q" "[]"] by simp
  with up d obtain es' where "look (put q (Some x) (tree fs)) (butlast q) = Some (Dir es')" by blast
  then show "look u q = Some y" using look_put_same [OF assms(2)] assms(3) by blast
  show "\<not> prefix q r \<Longrightarrow> \<not> prefix r q \<Longrightarrow> look u r = look (tree fs) r" using look_put_other assms(3) by simp
  show "strict_prefix r q \<Longrightarrow> look (tree fs) r = Some (Dir es) \<Longrightarrow> \<exists>es. look u r = Some (Dir es)"
    using up look_put_above assms(3) by blast
qed

subsection \<open>Fetching the files of a directory\<close>

lemma split_append: "split_slash (p @ CHR ''/'' # r) = split_slash p @ split_slash r"
proof (induction p)
  case (Cons c cs)
  have "split_slash cs \<noteq> []" by (induction cs) (auto split: list.splits)
  with Cons show ?case by (cases "split_slash cs") auto
qed simp

lemma resolve_in_dir:
  assumes "resolve fs p = Some q" "plain f"
  shows "resolve fs (in_dir p f) = Some (q @ [f])"
proof -
  have "comps (in_dir p f) = comps p @ [f]"
    using assms(2) split_name [of f] by (simp add: comps_def in_dir_def split_append plain_def)
  moreover have "p \<noteq> []" using assms(1) by (auto simp: resolve_def)
  ultimately show ?thesis using assms(1) by (auto simp: resolve_def in_dir_def)
qed

text \<open>New files of a directory \<open>p\<close> that can be copied to \<open>q\<close>.\<close>

definition fetchable :: "files \<Rightarrow> string list \<Rightarrow> string list \<Rightarrow> string \<Rightarrow> bool" where
  "fetchable fs p q f \<longleftrightarrow> plain f \<and> (\<exists>s u. look (tree fs) (p @ [f]) = Some (File s u)) \<and> \<not> hidden fs (p @ [f]) \<and> free_in_dir fs (q @ [f])"

lemma fetch_loop_new:
  assumes "resolve fs src = Some p" "resolve fs dst = Some q" "p \<noteq> q" "distinct todo" "\<forall>f \<in> set todo. fetchable fs p q f \<and> f \<notin> set dst_files"
  shows "\<exists>t. fetch_loop src dst dst_files fs [] [] todo = (fs\<lparr>tree := t\<rparr>, map (\<lambda>f. (in_dir src f, in_dir dst f)) todo) \<and>
    (\<forall>f \<in> set todo. \<forall>s u. look (tree fs) (p @ [f]) = Some (File s u) \<longrightarrow> look t (q @ [f]) = Some (File s (now fs))) \<and>
    (\<forall>r. (\<forall>f \<in> set todo. \<not> prefix (q @ [f]) r \<and> \<not> prefix r (q @ [f])) \<longrightarrow> look t r = look (tree fs) r)"
  using assms
proof (induction todo arbitrary: fs)
  case Nil
  then show ?case by (intro exI [of _ "tree fs"]) simp
next
  case (Cons f todo)
  from Cons.prems(5) obtain s u where f: "plain f" "look (tree fs) (p @ [f]) = Some (File s u)" "\<not> hidden fs (p @ [f])"
    "free_in_dir fs (q @ [f])" "f \<notin> set dst_files" by (auto simp: fetchable_def)
  have w: "writable fs (q @ [f])" using f(4) by (simp add: writable_def)
  define t where "t = put (q @ [f]) (Some (File s (now fs))) (put (q @ [f]) (Some (File [] (now fs))) (tree fs))"
  note copied = copied_tree [OF w _ t_def]
  have c: "copy_file fs (in_dir src f) (in_dir dst f) True = (fs\<lparr>tree := t\<rparr>, False)"
    unfolding t_def
    by (rule copy_file_ok [OF resolve_in_dir [OF Cons.prems(1) f(1)] resolve_in_dir [OF Cons.prems(2) f(1)] f(2,3) _ w]) (use Cons.prems(3) in simp)
  let ?fs = "fs\<lparr>tree := t\<rparr>"
  have src: "look t (p @ [g]) = look (tree fs) (p @ [g])" if "g \<in> set todo" for g
  proof -
    have "fetchable fs p q g" using Cons.prems(5) that by simp
    then obtain s' u' where "look (tree fs) (p @ [g]) = Some (File s' u')" unfolding fetchable_def by blast
    from writable_apart(1,2) [OF w this] Cons.prems(3) copied(2) show ?thesis by simp
  qed
  have "fetchable ?fs p q g \<and> g \<notin> set dst_files" if "g \<in> set todo" for g
  proof -
    have g: "fetchable fs p q g" "g \<notin> set dst_files" "g \<noteq> f" using Cons.prems(4,5) that by auto
    then have "look t (q @ [g]) = None" using copied(2) [of "q @ [g]"] by (auto simp: fetchable_def free_in_dir_def)
    moreover obtain es where "look (tree fs) q = Some (Dir es)" using g(1) by (auto simp: fetchable_def free_in_dir_def)
    from copied(3) [OF _ _ this] have "\<exists>es. look t q = Some (Dir es)" by (simp add: strict_prefix_def)
    ultimately show ?thesis using g src [OF that] by (simp add: fetchable_def free_in_dir_def)
  qed
  with Cons.IH [of ?fs] Cons.prems(1-4) obtain v where
    v: "fetch_loop src dst dst_files ?fs [] [] todo = (?fs\<lparr>tree := v\<rparr>, map (\<lambda>f. (in_dir src f, in_dir dst f)) todo)"
      "\<forall>f \<in> set todo. \<forall>s u. look t (p @ [f]) = Some (File s u) \<longrightarrow> look v (q @ [f]) = Some (File s (now fs))"
      "\<forall>r. (\<forall>f \<in> set todo. \<not> prefix (q @ [f]) r \<and> \<not> prefix r (q @ [f])) \<longrightarrow> look v r = look t r" by auto
  have "\<forall>g \<in> set todo. \<not> prefix (q @ [g]) (q @ [f]) \<and> \<not> prefix (q @ [f]) (q @ [g])"
    using Cons.prems(4) by (auto simp del: prefix_snoc simp: prefix_def)
  then have "look v (q @ [f]) = Some (File s (now fs))" using v(3) copied(1) by simp
  moreover have "in_dir src f \<noteq> []" "in_dir dst f \<noteq> []" by (simp_all add: in_dir_def)
  ultimately show ?case using v f(2,5) src c copied(2) by (intro exI [of _ v]) (auto simp: Let_def)
qed

text \<open>Property C39. Fetching a directory of files into one that has none of their names, and may still have to be made: every file is announced and
  copied once, in the order of the directory; afterwards each has its content and the present time in the destination, and
  the source is as before.\<close>

theorem fetch_into_new:
  assumes "resolve fs src = Some p" "look (tree fs) p = Some (Dir es)" "\<not> hidden fs p" "distinct (map fst es)"
    and "\<forall>(f, n) \<in> set es. plain f \<and> f \<noteq> ''..'' \<and> \<not> hidden fs (p @ [f]) \<and> (\<exists>s u. n = File s u)"
    and "\<forall>c \<in> set cs. plain c" "cs \<noteq> []" "look (tree fs) (cwd fs) = Some (Dir ds)" "\<forall>k \<le> length cs. may_make fs (cwd fs @ take k cs)"
    and "p \<noteq> cwd fs @ cs" "\<forall>f \<in> fst ` set es. look (tree fs) (cwd fs @ cs @ [f]) = None \<and> \<not> refuse fs (cwd fs @ cs @ [f])"
  shows "\<exists>t. fetch_local_files fs src (join cs) None = (fs\<lparr>tree := t\<rparr>, map (\<lambda>(f, _). (in_dir src f, in_dir (join cs) f)) es, True) \<and>
    (\<forall>f s u. map_of es f = Some (File s u) \<longrightarrow> look t (cwd fs @ cs @ [f]) = Some (File s (now fs)) \<and> look t (p @ [f]) = Some (File s u))"
proof -
  let ?q = "cwd fs @ cs"
  from create_dir_tree_ok [OF assms(6-9)] obtain t0 es0 where
    t0: "create_dir_tree fs (join cs) = (fs\<lparr>tree := t0\<rparr>, Some es0)" "grown ?q (tree fs) t0" "\<forall>k \<le> length cs. \<exists>es. look t0 (cwd fs @ take k cs) = Some (Dir es)"
    by blast
  obtain es1 where q: "look t0 ?q = Some (Dir es1)" using t0(3) [rule_format, of "length cs"] by auto
  let ?fs = "fs\<lparr>tree := t0\<rparr>"
  have r: "resolve ?fs src = Some p" "resolve ?fs (join cs) = Some ?q" using assms(1) resolve_join [OF assms(7,6)] by simp_all
  have es0: "es0 = ''.'' # ''..'' # map fst es1"
    using t0(1) r(2) q by (auto simp: create_dir_tree_def opendir_def split: prod.splits if_splits)
  have fl: "look (tree fs) (p @ [f]) = Some (File s u)" if "map_of es f = Some (File s u)" for f s u
    using assms(2) that by (simp add: look_append)
  have todo: "fetchable ?fs p ?q f \<and> f \<notin> set (filter (\<lambda>f. \<not> is_dot f) es0)" if "f \<in> set (map fst es)" for f
  proof -
    from that obtain n where n: "(f, n) \<in> set es" by auto
    then obtain s u where f: "plain f" "\<not> hidden fs (p @ [f])" "map_of es f = Some (File s u)" "look (tree fs) (p @ [f]) = Some (File s u)"
      using assms(4,5) fl by (fastforce simp: map_of_eq_Some_iff)
    have none: "look t0 (?q @ [f]) = None" using t0(2) assms(11) that by (auto simp: grown_def)
    then have "f \<notin> fst ` set es1" using q look_append [of t0 ?q "[f]"] by (simp add: map_of_eq_None_iff split: option.splits)
    moreover have "look t0 (p @ [f]) = Some (File s u)" using f(4) t0(2) by (simp add: grown_def)
    ultimately show ?thesis using f none q assms(11) that by (auto simp: fetchable_def free_in_dir_def es0 is_dot_def butlast_append)
  qed
  have ns: "filter (\<lambda>f. \<not> is_dot f) (''.'' # ''..'' # map fst es) = map fst es"
    using assms(5) by (auto simp: is_dot_def plain_def filter_id_conv)
  from fetch_loop_new [OF r assms(10,4) ballI [OF todo]] obtain t where
    t: "fetch_loop src (join cs) (filter (\<lambda>f. \<not> is_dot f) es0) ?fs [] [] (map fst es) =
        (?fs\<lparr>tree := t\<rparr>, map (\<lambda>f. (in_dir src f, in_dir (join cs) f)) (map fst es))"
      "\<forall>f \<in> set (map fst es). \<forall>s u. look t0 (p @ [f]) = Some (File s u) \<longrightarrow> look t (?q @ [f]) = Some (File s (now fs))"
      "\<forall>r. (\<forall>f \<in> set (map fst es). \<not> prefix (?q @ [f]) r \<and> \<not> prefix r (?q @ [f])) \<longrightarrow> look t r = look t0 r" by auto
  have "look t (?q @ [f]) = Some (File s (now fs)) \<and> look t (p @ [f]) = Some (File s u)" if "map_of es f = Some (File s u)" for f s u
  proof -
    have src: "look t0 (p @ [f]) = Some (File s u)" using fl [OF that] t0(2) by (simp add: grown_def)
    have "\<not> prefix (?q @ [g]) (p @ [f]) \<and> \<not> prefix (p @ [f]) (?q @ [g])" if "g \<in> set (map fst es)" for g
      using writable_apart(1,2) [of ?fs "?q @ [g]" "p @ [f]" s u] todo [OF that] src assms(10) by (simp add: fetchable_def writable_def)
    with t(3) src have "look t (p @ [f]) = Some (File s u)" by simp
    moreover have "f \<in> set (map fst es)" using map_of_SomeD [OF that] by force
    ultimately show ?thesis using t(2) src by blast
  qed
  moreover have "fetch_local_files fs src (join cs) None = (?fs\<lparr>tree := t\<rparr>, map (\<lambda>f. (in_dir src f, in_dir (join cs) f)) (map fst es), True)"
    using assms(1-3) t0(1) t(1) ns by (simp add: fetch_local_files_def opendir_def Let_def)
  ultimately show ?thesis by (intro exI [of _ t]) (simp add: comp_def split_def)
qed

text \<open>Only files of the list, or what the two strings hold, are copied.\<close>

lemma fetch_loop_copies:
  "src_file = [] \<longleftrightarrow> dst_file = [] \<Longrightarrow>
   set (snd (fetch_loop src dst dst_files fs src_file dst_file todo)) \<subseteq>
     insert ([], []) (insert (src_file, dst_file) ((\<lambda>f. (in_dir src f, in_dir dst f)) ` set todo))"
proof (induction todo arbitrary: fs src_file dst_file)
  case (Cons f todo)
  let ?img = "(\<lambda>f. (in_dir src f, in_dir dst f)) ` set todo"
  let ?a = "if f \<in> set dst_files then in_dir src f else src_file" and ?b = "if f \<in> set dst_files then in_dir dst f else dst_file"
  have ne: "in_dir d f \<noteq> []" for d by (simp add: in_dir_def)
  have skip: "set (snd (fetch_loop src dst dst_files fs ?a ?b todo)) \<subseteq> insert ([], []) (insert (?a, ?b) ?img)"
    by (rule Cons.IH) (use Cons.prems ne in simp)
  have new: "set (snd (fetch_loop src dst dst_files gs [] [] todo)) \<subseteq> insert ([], []) ?img" for gs
    using Cons.IH [of "[]" "[]" gs] by simp
  let ?c = "if ?a = [] then in_dir src f else ?a" and ?d = "if ?b = [] then in_dir dst f else ?b"
  let ?gs = "fst (copy_file fs ?c ?d True)"
  have sub: "insert (?a, ?b) ?img \<subseteq> insert (src_file, dst_file) ((\<lambda>f. (in_dir src f, in_dir dst f)) ` set (f # todo))"
    "insert (?c, ?d) ?img \<subseteq> insert (src_file, dst_file) ((\<lambda>f. (in_dir src f, in_dir dst f)) ` set (f # todo))"
    using Cons.prems by auto
  show ?case
  proof (cases "f \<in> set dst_files \<and> is_file_older fs ?a ?b \<noteq> 1")
    case True
    have "snd (fetch_loop src dst dst_files fs src_file dst_file (f # todo)) = snd (fetch_loop src dst dst_files fs ?a ?b todo)"
      unfolding fetch_loop.simps Let_def if_P [OF True] ..
    with skip sub(1) show ?thesis by (simp only:) blast
  next
    case False
    have "snd (fetch_loop src dst dst_files fs src_file dst_file (f # todo)) = (?c, ?d) # snd (fetch_loop src dst dst_files ?gs [] [] todo)"
      unfolding fetch_loop.simps Let_def if_not_P [OF False] split_def snd_conv ..
    then have "set (snd (fetch_loop src dst dst_files fs src_file dst_file (f # todo))) \<subseteq> insert (?c, ?d) (insert ([], []) ?img)"
      using new [of ?gs] by (simp only: list.set) (rule insert_mono)
    with sub(2) show ?thesis by blast
  qed
qed simp

text \<open>A file that the destination lacks is lost when the file before it was up to date: the two names are still in the strings, so
  the file before it is copied again, over the newer or equal copy, and the missing file not at all.\<close>

theorem fetch_skips_missing:
  assumes "f \<in> set dst_files" "is_file_older fs (in_dir src f) (in_dir dst f) \<noteq> 1" "g \<notin> set dst_files" "g \<notin> set todo" "f \<noteq> g"
  shows "\<exists>fs' copies. fetch_loop src dst dst_files fs [] [] (f # g # todo) = (fs', (in_dir src f, in_dir dst f) # copies) \<and>
    (in_dir src g, in_dir dst g) \<notin> set copies"
proof -
  let ?r = "fetch_loop src dst dst_files (fst (copy_file fs (in_dir src f) (in_dir dst f) True)) [] [] todo"
  have "in_dir src f \<noteq> []" "in_dir dst f \<noteq> []" by (simp_all add: in_dir_def)
  then have "fetch_loop src dst dst_files fs [] [] (f # g # todo) = (fst ?r, (in_dir src f, in_dir dst f) # snd ?r)"
    using assms by (simp add: Let_def split: prod.splits)
  moreover have "(in_dir src g, in_dir dst g) \<notin> set (snd ?r)"
    using fetch_loop_copies [of "[]" "[]" src dst dst_files _ todo] assms(4) by (fastforce simp: in_dir_def)
  ultimately show ?thesis by blast
qed

subsection \<open>Runs on a small tree\<close>

definition sample_tree :: node where
  "sample_tree = Dir [(''tk'', Dir [(''a.c'', File ''A'' 1), (''b.c'', File ''B'' 2)]), (''libs'', Dir [(''a.c'', File ''A'' 5)]),
     (''build'', Dir [(''obj'', Dir [(''x.o'', File ''X'' 3)])])]"

definition sample_files :: files where
  "sample_files = \<lparr>tree = sample_tree, cwd = [], now = 9, refuse = (\<lambda>_. False), hidden = (\<lambda>_. False), dir_time = (\<lambda>_. 0), dir_end = 0, printed = []\<rparr>"

lemmas sample = sample_files_def sample_tree_def opendir_def resolve_def comps_def at_def in_dir_def

theorem remove_dir_gone_witness:
  "\<exists>fs'. remove_dir sample_files 0 ''build'' = Inr (fs', True) \<and> at fs' ''build'' = None"
  using remove_dir_gone [of sample_files "''build''" "[''.'', ''..'', ''obj'']" "[''build'']" "Dir [(''obj'', Dir [(''x.o'', File ''X'' 3)])]" 0]
  by (auto simp: sample)

theorem create_dir_tree_ok_witness:
  "\<exists>t ds. create_dir_tree sample_files ''build/bin'' = (sample_files\<lparr>tree := t\<rparr>, Some ds) \<and> grown [''build'', ''bin''] (tree sample_files) t"
  using create_dir_tree_ok [of "[''build'', ''bin'']" sample_files]
  by (auto simp: sample plain_def may_make_def le_Suc_eq)

theorem fetch_into_new_witness:
  "\<exists>t. fetch_local_files sample_files ''tk'' ''libs/new'' None =
     (sample_files\<lparr>tree := t\<rparr>, [(''tk/a.c'', ''libs/new/a.c''), (''tk/b.c'', ''libs/new/b.c'')], True) \<and>
     look t [''libs'', ''new'', ''b.c''] = Some (File ''B'' 9)"
  using fetch_into_new [of sample_files "''tk''" "[''tk'']" "[(''a.c'', File ''A'' 1), (''b.c'', File ''B'' 2)]" "[''libs'', ''new'']"]
  by (auto simp: sample plain_def may_make_def le_Suc_eq)

theorem fetch_skips_missing_witness:
  "\<exists>fs' copies. fetch_loop ''tk'' ''libs'' [''a.c''] sample_files [] [] [''a.c'', ''b.c''] = (fs', (''tk/a.c'', ''libs/a.c'') # copies) \<and>
     (''tk/b.c'', ''libs/b.c'') \<notin> set copies"
  using fetch_skips_missing [of "''a.c''" "[''a.c'']" sample_files "''tk''" "''libs''" "''b.c''" "[]"]
  by (simp add: sample is_file_older_def stat_time_def)

end
