(* ===== verification/BuildMain.thy ===== *)
theory BuildMain
  imports BuildFiles
begin

section \<open>The build script (cb.c)\<close>

text \<open>
  The script runs the compiler and the archiver on the directories of the repository. What a command does to the files is the
  parameter \<open>run\<close>: the new tree and whether it ended with status 0. \<open>execvp\<close> finds its program. Commands are \<open>parts\<close>;
  \<open>prepared_command_line\<close> in \<open>Build\<close> is how the arrays of a \<open>cmd_t\<close> become such a line.
\<close>

type_synonym runner = "string list \<Rightarrow> node \<Rightarrow> node \<times> bool"

definition run_line :: "runner \<Rightarrow> files \<Rightarrow> string list \<Rightarrow> files \<times> bool" where
  "run_line run fs line = (case run line (tree fs) of (t, ok) \<Rightarrow> (fs\<lparr>tree := t, printed := printed fs @ [line]\<rparr>, ok))"

definition filled_cmd :: "string \<Rightarrow> string list \<Rightarrow> string list \<Rightarrow> string list \<Rightarrow> string list \<Rightarrow> parts" where
  "filled_cmd build_tool args ps fls libs =
     \<lparr>tool = build_tool, p_args = args, p_out = None, p_files = fls, p_paths = map ((@) ''-I'') ps, p_extra = [], p_libs = map ((@) ''-l'') libs\<rparr>"

definition run_cmd :: "runner \<Rightarrow> files \<Rightarrow> parts \<Rightarrow> string option \<Rightarrow> files \<times> bool" where
  "run_cmd run fs cmd out = run_line run fs (line_of (cmd\<lparr>p_out := out\<rparr>))"

subsection \<open>One object file for every C file of a directory\<close>

definition object_name :: "string \<Rightarrow> string \<Rightarrow> string" where
  "object_name out_path file = (in_dir out_path file)[length (in_dir out_path file) - 1 := CHR ''o'']"

fun build_files_loop :: "runner \<Rightarrow> parts \<Rightarrow> string \<Rightarrow> string \<Rightarrow> files \<Rightarrow> bool \<Rightarrow> string list \<Rightarrow> files \<times> bool" where
  "build_files_loop run cmd p out_path fs ret [] = (fs, ret)"
| "build_files_loop run cmd p out_path fs ret (file # ds) =
     (if is_c_file file
      then (case run_cmd run fs (cmd\<lparr>p_files := [in_dir p file]\<rparr>) (Some (object_name out_path file)) of
              (fs, ret) \<Rightarrow> build_files_loop run cmd p out_path fs ret ds)
      else build_files_loop run cmd p out_path fs ret ds)"

definition build_dir_files :: "runner \<Rightarrow> files \<Rightarrow> parts \<Rightarrow> string \<Rightarrow> string \<Rightarrow> files \<times> bool" where
  "build_dir_files run fs cmd p out_path =
     (let fs = fst (create_out_dir fs out_path) in
      case opendir fs p of None \<Rightarrow> (fs, True) | Some ds \<Rightarrow> build_files_loop run cmd p out_path fs True ds)"

subsection \<open>The steps of the script\<close>

definition setup_build :: "files \<Rightarrow> files" where
  "setup_build fs =
     (let fs = fst (create_out_dir fs ''build''); fs = fst (create_out_dir fs ''build/obj'');
          fs = fst (create_out_dir fs ''build/libs'') in fst (create_out_dir fs ''build/bin''))"

definition clean_build :: "files \<Rightarrow> files res" where
  "clean_build fs = bind_res (remove_dir fs 0 ''build'') (\<lambda>(fs, _). Inr fs)"

definition sync_repo :: "files \<Rightarrow> string option \<Rightarrow> files res" where
  "sync_repo fs toolkit =
     (case toolkit of
        None \<Rightarrow> Inl NullDeref
      | Some t \<Rightarrow> Inr (fst (fetch_local_files fs (in_dir t ''async'') ''libs'' None)))"

definition init_repo :: "files \<Rightarrow> string option \<Rightarrow> files res" where
  "init_repo fs toolkit =
     (case toolkit of
        None \<Rightarrow> Inl NullDeref
      | Some t \<Rightarrow> let fs = fst (create_dir_tree fs ''libs'') in
          Inr (fst (fetch_local_files fs (in_dir t ''async'') ''libs'' None)))"

definition async_objects :: "string list" where
  "async_objects = [''build/obj/libs/async.o'', ''build/obj/libs/queue.o'', ''build/obj/libs/threadpool.o'']"

definition async_archive :: "string list" where
  "async_archive = line_of (filled_cmd ''ar'' [''rcs'', ''build/libs/async.a''] [] async_objects [])"

definition async_shared :: "string list" where
  "async_shared = line_of (filled_cmd ''gcc'' [''-shared'', ''-fPIC'', ''-o'', ''build/libs/async.so''] [] async_objects [])"

text \<open>The commands for the C files of the four directories, and the others.\<close>

definition libs_cmd :: parts where
  "libs_cmd = filled_cmd ''gcc'' [''-c'', ''-fPIC'', ''-O2'', ''-Wall'', ''-o''] [''libs''] [] [''pthread'']"

definition http_libs_cmd :: parts where
  "http_libs_cmd = filled_cmd ''gcc'' [''-c'', ''-O2'', ''-Wall'', ''-o''] [''libs'', ''server''] [] [''uuid'']"

definition server_cmd :: parts where
  "server_cmd = filled_cmd ''gcc'' [''-c'', ''-O2'', ''-Wall'', ''-o''] [''libs''] [] [''ssl'']"

definition backend_cmd :: parts where
  "backend_cmd = filled_cmd ''gcc'' [''-c'', ''-O2'', ''-Wall'', ''-o''] [] [] []"

text \<open>The two commands of \<open>build_async\<close> run at once; \<open>swap\<close> is the order in which they take effect.\<close>

definition build_async_lib :: "runner \<Rightarrow> bool \<Rightarrow> files \<Rightarrow> files" where
  "build_async_lib run swap fs =
     (let fs = fst (build_dir_files run fs libs_cmd ''libs'' ''build/obj/libs'');
          fs = fst (run_line run fs (if swap then async_shared else async_archive))
      in fst (run_line run fs (if swap then async_archive else async_shared)))"

definition build_http_libs :: "runner \<Rightarrow> files \<Rightarrow> files" where
  "build_http_libs run fs =
     fst (build_dir_files run fs http_libs_cmd ''http_libs'' ''build/obj'')"

definition server_archive :: "string list" where
  "server_archive = line_of (filled_cmd ''ar'' [''rcs'', ''build/libs/server.a''] [] [''build/obj/server/server.o'', ''build/obj/server/http.o''] [])"

definition build_server :: "runner \<Rightarrow> files \<Rightarrow> files res" where
  "build_server run fs =
     (let fs = fst (build_dir_files run fs server_cmd ''server'' ''build/obj/server'');
          fs = fst (run_line run fs server_archive)
      in bind_res (remove_dir fs 1 ''build/obj/server'') (\<lambda>(fs, _). Inr fs))"

definition app_cmd :: parts where
  "app_cmd = filled_cmd ''gcc'' [''-c'', ''-O2'', ''-Wall'', ''-o''] [''libs'', ''server'', ''http_libs''] [''app/app.c''] []"

definition link_cmd :: "string list \<Rightarrow> parts" where
  "link_cmd objs = filled_cmd ''gcc'' [''-o''] [] (objs @ [''build/libs/async.a'', ''build/libs/server.a'']) [''pthread'', ''ssl'', ''uuid'']"

definition build_app :: "runner \<Rightarrow> files \<Rightarrow> files" where
  "build_app run fs =
     (let fs = fst (build_dir_files run fs backend_cmd ''app/backend'' ''build/obj'');
          fs = fst (run_cmd run fs app_cmd (Some ''build/obj/main.o''))
      in fst (run_cmd run fs (link_cmd (files_append fs [] ''build/obj/'' (Some ''.o'') True)) (Some ''build/bin/app'')))"

definition build_all :: "runner \<Rightarrow> bool \<Rightarrow> files \<Rightarrow> files res" where
  "build_all run swap fs =
     (let fs = build_async_lib run swap (setup_build fs) in
      bind_res (build_server run fs) (\<lambda>fs. Inr (build_app run (build_http_libs run fs))))"

subsection \<open>Options and the main program\<close>

datatype opt = Opt_clean | Opt_skip | Opt_toolkit string | Opt_init | Opt_sync | Opt_run string | Opt_unknown

record settings =
  o_clean :: bool
  o_skip :: bool
  o_run :: bool
  o_init :: bool
  o_sync :: bool
  o_toolkit :: "string option"
  o_exec :: "string option"

definition no_settings :: settings where
  "no_settings = \<lparr>o_clean = False, o_skip = False, o_run = False, o_init = False, o_sync = False, o_toolkit = None, o_exec = None\<rparr>"

text \<open>The loop over \<open>getopt_long\<close>: the first unknown option ends it, and the build goes on.\<close>

fun parse_opts :: "settings \<Rightarrow> opt list \<Rightarrow> settings" where
  "parse_opts s [] = s"
| "parse_opts s (x # xs) =
     (case x of
        Opt_clean \<Rightarrow> parse_opts (s\<lparr>o_clean := True\<rparr>) xs
      | Opt_skip \<Rightarrow> parse_opts (s\<lparr>o_skip := True\<rparr>) xs
      | Opt_init \<Rightarrow> parse_opts (s\<lparr>o_init := True\<rparr>) xs
      | Opt_sync \<Rightarrow> parse_opts (s\<lparr>o_sync := True\<rparr>) xs
      | Opt_run e \<Rightarrow> parse_opts (s\<lparr>o_run := True, o_exec := Some e\<rparr>) xs
      | Opt_toolkit t \<Rightarrow> parse_opts (s\<lparr>o_toolkit := Some t\<rparr>) xs
      | Opt_unknown \<Rightarrow> s)"

datatype outcome = Exits int | Executes "string list"

definition rebuild_c_builder :: "runner \<Rightarrow> files \<Rightarrow> string list \<Rightarrow> files \<times> outcome option" where
  "rebuild_c_builder run fs argv =
     (if is_file_older fs ''cb.h'' (hd argv) \<noteq> 1 \<and> is_file_older fs ''cb.c'' (hd argv) \<noteq> 1 then (fs, None)
      else (case run_cmd run fs (filled_cmd ''gcc'' [''-O3'', ''-Wall'', ''-o''] [] [''cb.c''] []) (Some ''cb'') of
              (fs, ok) \<Rightarrow> (fs, Some (if ok then Executes argv else Exits 1))))"

definition run_exec :: "string \<Rightarrow> string list \<Rightarrow> outcome" where
  "run_exec exec argv = Executes (exec # argv)"

text \<open>\<open>opts\<close> is what \<open>getopt_long\<close> makes of the arguments, \<open>rest\<close> the arguments it leaves.\<close>

definition cb_main :: "runner \<Rightarrow> bool \<Rightarrow> files \<Rightarrow> string list \<Rightarrow> opt list \<Rightarrow> string list \<Rightarrow> (files \<times> outcome) res" where
  "cb_main run swap fs argv opts rest =
     (case rebuild_c_builder run fs argv of
        (fs, Some r) \<Rightarrow> Inr (fs, r)
      | (fs, None) \<Rightarrow>
          let s = parse_opts no_settings opts in
          bind_res (if o_clean s then clean_build fs else Inr fs) (\<lambda>fs.
          bind_res (if o_init s then init_repo fs (o_toolkit s) else Inr fs) (\<lambda>fs.
          bind_res (if o_sync s then sync_repo fs (o_toolkit s) else Inr fs) (\<lambda>fs.
            if o_skip s then Inr (fs, Exits 0)
            else bind_res (build_all run swap fs) (\<lambda>fs.
              Inr (fs, if o_run s then run_exec (the (o_exec s)) rest else Exits 0))))))"

subsection \<open>The commands for a directory\<close>

definition object_lines :: "parts \<Rightarrow> string \<Rightarrow> string \<Rightarrow> string list \<Rightarrow> string list list" where
  "object_lines cmd p out_path ds =
     map (\<lambda>f. line_of (cmd\<lparr>p_files := [in_dir p f], p_out := Some (object_name out_path f)\<rparr>)) (filter is_c_file ds)"

lemma run_line_simps [simp]:
  "printed (fst (run_line run fs line)) = printed fs @ [line]" "tree (fst (run_line run fs line)) = fst (run line (tree fs))"
  "cwd (fst (run_line run fs line)) = cwd fs" "hidden (fst (run_line run fs line)) = hidden fs" "snd (run_line run fs line) = snd (run line (tree fs))"
  by (simp_all add: run_line_def split: prod.split)

lemma loop_run:
  "build_files_loop run cmd p out fs ret (f # ds) =
     (if is_c_file f
      then let line = line_of (cmd\<lparr>p_files := [in_dir p f], p_out := Some (object_name out f)\<rparr>)
           in build_files_loop run cmd p out (fst (run_line run fs line)) (snd (run_line run fs line)) ds
      else build_files_loop run cmd p out fs ret ds)"
  by (simp add: run_cmd_def Let_def split_def del: run_line_simps)

declare build_files_loop.simps(2) [simp del]

lemma loop_append:
  "build_files_loop run cmd p out fs ret (ds @ es) =
     (let r = build_files_loop run cmd p out fs ret ds in build_files_loop run cmd p out (fst r) (snd r) es)"
  by (induction ds arbitrary: fs ret) (simp_all add: loop_run Let_def)

lemma loop_printed: "printed (fst (build_files_loop run cmd p out fs ret ds)) = printed fs @ object_lines cmd p out ds"
  by (induction ds arbitrary: fs ret) (simp_all add: loop_run Let_def object_lines_def)

lemma loop_skips: "\<forall>f \<in> set ds. \<not> is_c_file f \<Longrightarrow> build_files_loop run cmd p out fs ret ds = (fs, ret)"
  by (induction ds) (simp_all add: loop_run)

lemma out_dir_printed [simp]: "printed (fst (create_out_dir fs p)) = printed fs"
  by (auto simp: create_out_dir_def mkdir_def split: option.splits)

text \<open>\<open>build_dir_files\<close> starts one command for each C file of the directory, in its order, that makes the object file of the same name;
  no failure stops it. What it returns is how the last of them ended: an earlier failure is forgotten.\<close>

theorem build_dir_files_lines:
  assumes "opendir (fst (create_out_dir fs out)) p = Some (ds @ f # es)" "is_c_file f" "\<forall>g \<in> set es. \<not> is_c_file g"
  shows "printed (fst (build_dir_files run fs cmd p out)) = printed fs @ object_lines cmd p out (ds @ [f]) \<and>
    snd (build_dir_files run fs cmd p out) =
      snd (run (line_of (cmd\<lparr>p_files := [in_dir p f], p_out := Some (object_name out f)\<rparr>))
        (tree (fst (build_files_loop run cmd p out (fst (create_out_dir fs out)) True ds))))"
proof -
  let ?fs = "fst (create_out_dir fs out)" and ?l = "line_of (cmd\<lparr>p_files := [in_dir p f], p_out := Some (object_name out f)\<rparr>)"
  let ?r = "build_files_loop run cmd p out ?fs True ds"
  have "build_dir_files run fs cmd p out = build_files_loop run cmd p out ?fs True (ds @ f # es)"
    using assms(1) by (simp add: build_dir_files_def Let_def)
  also have "\<dots> = (fst (run_line run (fst ?r) ?l), snd (run_line run (fst ?r) ?l))"
    by (simp add: loop_append loop_run Let_def assms(2) loop_skips [OF assms(3)])
  finally show ?thesis using assms(2) loop_printed [of run cmd p out ?fs True ds] by (simp add: object_lines_def)
qed

lemma dir_printed:
  "opendir (fst (create_out_dir fs out)) p = Some ds \<Longrightarrow>
     printed (fst (build_dir_files run fs cmd p out)) = printed fs @ object_lines cmd p out ds"
  by (simp add: build_dir_files_def Let_def loop_printed)

subsection \<open>What the build leaves alone\<close>

definition src_dirs :: "string list list" where
  "src_dirs = [[''libs''], [''server''], [''http_libs''], [''app'', ''backend'']]"

definition server_objs :: "string list" where
  "server_objs = [''build'', ''obj'', ''server'']"

definition listing :: "node \<Rightarrow> string list \<Rightarrow> string list option" where
  "listing t q = (case look t q of Some (Dir es) \<Rightarrow> Some (map fst es) | _ \<Rightarrow> None)"

definition depth_at :: "node \<Rightarrow> string list \<Rightarrow> nat" where
  "depth_at t q = (case look t q of None \<Rightarrow> 0 | Some n \<Rightarrow> height n)"

text \<open>Compilers neither add to nor take from the source directories, and make no directories for the objects of the server.\<close>

definition compilers :: "runner \<Rightarrow> string list \<Rightarrow> bool" where
  "compilers run c \<longleftrightarrow> (\<forall>line t. (\<forall>d \<in> set src_dirs. listing (fst (run line t)) (c @ d) = listing t (c @ d)) \<and>
     depth_at (fst (run line t)) (c @ server_objs) \<le> depth_at t (c @ server_objs))"

definition steady :: "files \<Rightarrow> files \<Rightarrow> bool" where
  "steady fs fs' \<longleftrightarrow> cwd fs' = cwd fs \<and> hidden fs' = hidden fs \<and>
     (\<forall>d \<in> set src_dirs. listing (tree fs') (cwd fs @ d) = listing (tree fs) (cwd fs @ d)) \<and>
     depth_at (tree fs') (cwd fs @ server_objs) \<le> max 1 (depth_at (tree fs) (cwd fs @ server_objs))"

lemma steady_refl [simp]: "steady fs fs"
  by (simp add: steady_def)

lemma steady_trans: "steady a b \<Longrightarrow> steady b c \<Longrightarrow> steady a c"
  by (fastforce simp: steady_def)

lemma steady_run: "compilers run (cwd fs) \<Longrightarrow> steady fs (fst (run_line run fs line))"
  by (simp add: steady_def compilers_def le_max_iff_disj)

lemma steady_opendir:
  assumes "steady fs fs'" "resolve fs p = Some (cwd fs @ d)" "d \<in> set src_dirs"
  shows "opendir fs' p = opendir fs p"
proof -
  have "cwd fs' = cwd fs" using assms(1) by (simp add: steady_def)
  then have "resolve fs' p = Some (cwd fs @ d)" using assms(2) by (simp only: resolve_def)
  moreover have "listing (tree fs') (cwd fs @ d) = listing (tree fs) (cwd fs @ d)" "hidden fs' = hidden fs"
    using assms(1,3) by (simp_all add: steady_def)
  ultimately show ?thesis using assms(2) by (auto simp: opendir_def listing_def split: option.splits node.splits)
qed

lemma src_apart: "d \<in> set src_dirs \<Longrightarrow> \<not> prefix (c @ ''build'' # r) (c @ d) \<and> \<not> prefix (c @ d) (c @ ''build'' # r)"
  by (auto simp: src_dirs_def)

text \<open>The directories that are made lie in \<open>build\<close>, and not below those of the objects of the server.\<close>

lemma steady_out_dir:
  assumes "resolve fs p = Some (cwd fs @ ''build'' # r)" "\<not> strict_prefix server_objs (''build'' # r)"
  shows "steady fs (fst (create_out_dir fs p))"
proof (cases "fst (create_out_dir fs p) = fs")
  case False
  let ?q = "cwd fs @ ''build'' # r" and ?s = "cwd fs @ server_objs"
  let ?t = "put ?q (Some (Dir [])) (tree fs)"
  from False assms(1) have e: "fst (create_out_dir fs p) = fs\<lparr>tree := ?t\<rparr>" "free_in_dir fs ?q"
    by (auto simp: create_out_dir_def mkdir_def split: option.splits if_splits)
  then have at: "look ?t ?q = Some (Dir [])" using look_put_same [of ?q "tree fs"] by (auto simp: free_in_dir_def)
  have src: "listing ?t (cwd fs @ d) = listing (tree fs) (cwd fs @ d)" if "d \<in> set src_dirs" for d
    using look_put_other [of ?q "cwd fs @ d"] src_apart [OF that] by (simp add: listing_def)
  have "depth_at ?t ?s \<le> max 1 (depth_at (tree fs) ?s)"
  proof (cases "prefix ?q ?s")
    case True
    then obtain x where x: "?s = ?q @ x" by (auto simp: prefix_def)
    have "look ?t ?s = Option.bind (look ?t ?q) (\<lambda>n. look n x)" unfolding x by (rule look_append)
    then have "look ?t ?s = look (Dir []) x" unfolding at by simp
    then show ?thesis by (cases x) (simp_all add: depth_at_def)
  next
    case False
    have "\<not> prefix ?s ?q" using assms(2) False by (auto simp: strict_prefix_def)
    then show ?thesis using look_put_other [OF False] by (simp add: depth_at_def)
  qed
  with src show ?thesis by (simp add: e(1) steady_def)
qed simp

lemma steady_loop: "compilers run (cwd fs) \<Longrightarrow> steady fs (fst (build_files_loop run cmd p out fs ret ds))"
proof (induction ds arbitrary: fs ret)
  case (Cons f ds)
  have "steady fs (fst (build_files_loop run cmd p out (fst (run_line run fs line)) ret ds))" for line ret
    by (rule steady_trans [OF steady_run Cons.IH]) (use Cons.prems in simp_all)
  with Cons show ?case by (simp add: loop_run Let_def del: run_line_simps(5))
qed simp

lemma resolve_cwd: "cwd fs' = cwd fs \<Longrightarrow> resolve fs' p = resolve fs p"
  by (simp only: resolve_def)

text \<open>A step of the script for one source directory.\<close>

lemma dir_step:
  assumes "steady fs0 fs" "compilers run (cwd fs0)" "opendir fs0 p = Some ds" "resolve fs0 p = Some (cwd fs0 @ d)" "d \<in> set src_dirs"
    and "resolve fs0 out = Some (cwd fs0 @ ''build'' # r)" "\<not> strict_prefix server_objs (''build'' # r)"
  shows "steady fs0 (fst (build_dir_files run fs cmd p out)) \<and>
    printed (fst (build_dir_files run fs cmd p out)) = printed fs @ object_lines cmd p out ds"
proof -
  let ?fs = "fst (create_out_dir fs out)"
  have c: "cwd fs = cwd fs0" using assms(1) by (simp add: steady_def)
  then have "resolve fs out = Some (cwd fs @ ''build'' # r)" using assms(6) resolve_cwd by metis
  from steady_trans [OF assms(1) steady_out_dir [OF this assms(7)]] have s: "steady fs0 ?fs" .
  from steady_opendir [OF s assms(4,5)] have o: "opendir ?fs p = Some ds" using assms(3) by simp
  have "cwd ?fs = cwd fs0" using s by (simp add: steady_def)
  then have "steady fs0 (fst (build_files_loop run cmd p out ?fs True ds))"
    using steady_trans [OF s steady_loop] assms(2) by simp
  with dir_printed [OF o] o show ?thesis by (simp add: build_dir_files_def Let_def)
qed

lemma remove_height:
  "remove_node fs k q n = Inr (r, ok) \<Longrightarrow> r = Some n' \<longrightarrow> height n' \<le> height n"
  "remove_entries fs k q es = Inr (es', ok) \<Longrightarrow> heights es' \<le> heights es"
proof (induction fs k q n and fs k q es arbitrary: r ok n' and es' ok rule: remove_node_remove_entries.induct)
  case (4 fs k q d_name n es)
  from 4(3) obtain r ok' where r: "remove_node fs k (q @ [d_name]) n = Inr (r, ok')"
    "(case r of Some n \<Rightarrow> Inr ((d_name, n) # es, False) | None \<Rightarrow> remove_entries fs k q es) = Inr (es', ok)"
    by (auto simp: bind_res_Inr)
  show ?case
  proof (cases r)
    case None
    with r have "remove_entries fs k q es = Inr (es', ok)" by simp
    from 4(2) [OF None this] show ?thesis by (simp add: le_max_iff_disj)
  next
    case (Some m)
    with r have "es' = (d_name, m) # es" by simp
    moreover have "height m \<le> height n" using 4(1) [OF r(1)] Some by blast
    ultimately show ?thesis by (auto simp: max_def)
  qed
qed (auto simp: bind_res_Inr split: if_splits)

lemma steady_remove:
  assumes "resolve fs p = Some (cwd fs @ server_objs)" "k + max 1 (depth_at (tree fs) (cwd fs @ server_objs)) \<le> 10"
  shows "\<exists>fs' ok. remove_dir fs k p = Inr (fs', ok) \<and> steady fs fs' \<and> printed fs' = printed fs"
proof (cases "opendir fs p")
  case None
  then show ?thesis by (intro exI [of _ fs] exI [of _ False]) (simp add: remove_dir_def)
next
  case (Some ds)
  let ?q = "cwd fs @ server_objs"
  obtain n where n: "look (tree fs) ?q = Some n" using Some assms(1) by (auto simp: opendir_def split: option.splits)
  then have "k + height n \<le> 10" using assms(2) by (simp add: depth_at_def)
  from remove_ends(1) [OF this] obtain r ok where r: "remove_node fs k ?q n = Inr (r, ok)" by blast
  let ?t = "put ?q r (tree fs)"
  have ne: "?q \<noteq> []" by (simp add: server_objs_def)
  have "look ?t ?q = r" using look_put_same [OF ne] parent_dir [OF n ne] by blast
  then have "depth_at ?t ?q \<le> max 1 (depth_at (tree fs) ?q)"
    using remove_height(1) [OF r] n by (auto simp: depth_at_def le_max_iff_disj split: option.splits)
  moreover have "listing ?t (cwd fs @ d) = listing (tree fs) (cwd fs @ d)" if "d \<in> set src_dirs" for d
    using look_put_other [of ?q "cwd fs @ d"] src_apart [OF that, of "cwd fs" "[''obj'', ''server'']"]
    by (simp add: listing_def server_objs_def)
  ultimately have "steady fs (fs\<lparr>tree := ?t\<rparr>)" by (simp add: steady_def)
  moreover have "remove_dir fs k p = Inr (fs\<lparr>tree := ?t\<rparr>, ok)" using Some assms(1) n r by (simp add: remove_dir_def Let_def)
  ultimately show ?thesis by simp
qed

lemma resolve_script:
  "resolve fs ''build'' = Some (cwd fs @ [''build''])" "resolve fs ''build/obj'' = Some (cwd fs @ [''build'', ''obj''])"
  "resolve fs ''build/libs'' = Some (cwd fs @ [''build'', ''libs''])" "resolve fs ''build/bin'' = Some (cwd fs @ [''build'', ''bin''])"
  "resolve fs ''build/obj/libs'' = Some (cwd fs @ [''build'', ''obj'', ''libs''])"
  "resolve fs ''build/obj/server'' = Some (cwd fs @ server_objs)" "resolve fs ''libs'' = Some (cwd fs @ [''libs''])"
  "resolve fs ''server'' = Some (cwd fs @ [''server''])" "resolve fs ''http_libs'' = Some (cwd fs @ [''http_libs''])"
  "resolve fs ''app/backend'' = Some (cwd fs @ [''app'', ''backend''])"
  by (simp_all add: resolve_def comps_def server_objs_def)

lemma steady_setup: "steady fs (setup_build fs) \<and> printed (setup_build fs) = printed fs"
proof -
  have step: "steady fs (fst (create_out_dir gs p))" if "steady fs gs" "resolve gs p = Some (cwd gs @ ''build'' # r)" "length r \<le> 1" for gs p r
  proof -
    have "\<not> strict_prefix server_objs (''build'' # r)" using that(3) prefix_length_less [of server_objs "''build'' # r"] by (auto simp: server_objs_def)
    from steady_trans [OF that(1) steady_out_dir [OF that(2) this]] show ?thesis .
  qed
  have d: "steady fs (fst (create_out_dir fs ''build''))" (is "steady fs ?a") by (rule step [OF steady_refl, where r = "[]"]) (simp_all add: resolve_script)
  have d: "steady fs (fst (create_out_dir ?a ''build/obj''))" (is "steady fs ?b") by (rule step [OF d, where r = "[''obj'']"]) (simp_all add: resolve_script)
  have d: "steady fs (fst (create_out_dir ?b ''build/libs''))" (is "steady fs ?c") by (rule step [OF d, where r = "[''libs'']"]) (simp_all add: resolve_script)
  have d: "steady fs (fst (create_out_dir ?c ''build/bin''))" by (rule step [OF d, where r = "[''bin'']"]) (simp_all add: resolve_script)
  then show ?thesis by (simp add: setup_build_def Let_def)
qed

lemma async_step:
  assumes "compilers run (cwd fs)" "opendir fs ''libs'' = Some ds"
  shows "steady fs (build_async_lib run swap (setup_build fs)) \<and> printed (build_async_lib run swap (setup_build fs)) =
    printed fs @ object_lines libs_cmd ''libs'' ''build/obj/libs'' ds @ (if swap then [async_shared, async_archive] else [async_archive, async_shared])"
proof -
  let ?a = "fst (build_dir_files run (setup_build fs) libs_cmd ''libs'' ''build/obj/libs'')"
  have "\<not> strict_prefix server_objs (''build'' # [''obj'', ''libs''])" "[''libs''] \<in> set src_dirs" by (simp_all add: server_objs_def src_dirs_def)
  from dir_step [OF _ assms(1,2) _ this(2) _ this(1)] steady_setup have a: "steady fs ?a"
    "printed ?a = printed fs @ object_lines libs_cmd ''libs'' ''build/obj/libs'' ds" by (simp_all add: resolve_script)
  have r: "steady fs (fst (run_line run gs line))" if "steady fs gs" for gs line
    using steady_trans [OF that steady_run] assms(1) that by (simp add: steady_def)
  show ?thesis using r [OF r [OF a(1)]] a(2) by (simp add: build_async_lib_def Let_def)
qed

lemma server_step:
  assumes "steady fs gs" "compilers run (cwd fs)" "opendir fs ''server'' = Some ds" "depth_at (tree fs) (cwd fs @ server_objs) \<le> 9"
  shows "\<exists>fs'. build_server run gs = Inr fs' \<and> steady fs fs' \<and>
    printed fs' = printed gs @ object_lines server_cmd ''server'' ''build/obj/server'' ds @ [server_archive]"
proof -
  let ?a = "fst (build_dir_files run gs server_cmd ''server'' ''build/obj/server'')"
  let ?b = "fst (run_line run ?a server_archive)"
  have "\<not> strict_prefix server_objs (''build'' # [''obj'', ''server''])" "[''server''] \<in> set src_dirs" by (simp_all add: server_objs_def src_dirs_def)
  from dir_step [OF assms(1-3) _ this(2) _ this(1)] have a: "steady fs ?a"
    "printed ?a = printed gs @ object_lines server_cmd ''server'' ''build/obj/server'' ds" by (simp_all add: resolve_script server_objs_def)
  then have b: "steady fs ?b" using steady_trans [OF a(1) steady_run] assms(2) by (simp add: steady_def)
  then have "depth_at (tree ?b) (cwd ?b @ server_objs) \<le> max 1 (depth_at (tree fs) (cwd fs @ server_objs))"
    unfolding steady_def by metis
  also have "\<dots> \<le> 9" using assms(4) by simp
  finally have "1 + max 1 (depth_at (tree ?b) (cwd ?b @ server_objs)) \<le> 10" by simp
  from steady_remove [OF resolve_script(6) this] obtain fs' ok where
    c: "remove_dir ?b 1 ''build/obj/server'' = Inr (fs', ok)" "steady ?b fs'" "printed fs' = printed ?b" by blast
  then show ?thesis using steady_trans [OF b c(2)] a(2) by (intro exI [of _ fs']) (simp add: build_server_def Let_def)
qed

lemma http_libs_step:
  assumes "steady fs gs" "compilers run (cwd fs)" "opendir fs ''http_libs'' = Some ds"
  shows "steady fs (build_http_libs run gs) \<and> printed (build_http_libs run gs) = printed gs @ object_lines http_libs_cmd ''http_libs'' ''build/obj'' ds"
proof -
  have "\<not> strict_prefix server_objs (''build'' # [''obj''])" "[''http_libs''] \<in> set src_dirs" by (simp_all add: server_objs_def src_dirs_def)
  from dir_step [OF assms _ this(2) _ this(1)] show ?thesis by (simp add: resolve_script build_http_libs_def)
qed

definition object_path :: "string \<Rightarrow> bool" where
  "object_path p \<longleftrightarrow> (\<exists>f. p = ''build/obj//'' @ f @ ''.o'')"

lemma o_files: "is_file_type f ''.o'' 2 \<Longrightarrow> \<exists>g. f = g @ ''.o''"
  by (metis append_take_drop_id is_file_type_def length_Cons list.size(3) numeral_2_eq_2 order_refl take_all)

lemma app_step:
  assumes "steady fs gs" "compilers run (cwd fs)" "opendir fs ''app/backend'' = Some ds"
  shows "\<exists>objs. printed (build_app run gs) = printed gs @ object_lines backend_cmd ''app/backend'' ''build/obj'' ds @
      [line_of (app_cmd\<lparr>p_out := Some ''build/obj/main.o''\<rparr>), line_of (link_cmd objs\<lparr>p_out := Some ''build/bin/app''\<rparr>)] \<and> (\<forall>p \<in> set objs. object_path p)"
proof -
  let ?a = "fst (build_dir_files run gs backend_cmd ''app/backend'' ''build/obj'')"
  let ?o = "files_append (fst (run_cmd run ?a app_cmd (Some ''build/obj/main.o''))) [] ''build/obj/'' (Some ''.o'') True"
  have "\<not> strict_prefix server_objs (''build'' # [''obj''])" "[''app'', ''backend''] \<in> set src_dirs" by (simp_all add: server_objs_def src_dirs_def)
  from dir_step [OF assms _ this(2) _ this(1)] have "printed ?a = printed gs @ object_lines backend_cmd ''app/backend'' ''build/obj'' ds"
    by (simp add: resolve_script)
  moreover have "object_path p" if "p \<in> set ?o" for p
  proof -
    from that obtain f where "is_file_type f ''.o'' 2" "p = ''build/obj/'' @ ''/'' @ f"
      by (auto simp: files_append_def numeral_2_eq_2 split: option.splits)
    with o_files [of f] show ?thesis by (auto simp: object_path_def)
  qed
  ultimately show ?thesis by (intro exI [of _ ?o]) (simp add: build_app_def Let_def run_cmd_def)
qed

text \<open>Property C40. The whole build, for compilers that leave the sources as they are: whatever the commands return, it starts one command for every C
  file of the four source directories, the three archives after their objects, and the link of the objects in \<open>build/obj\<close>
  with the two static archives last.\<close>

theorem build_all_lines:
  assumes "compilers run (cwd fs)" "depth_at (tree fs) (cwd fs @ server_objs) \<le> 9" "opendir fs ''libs'' = Some ds"
    and "opendir fs ''server'' = Some es" "opendir fs ''http_libs'' = Some hs" "opendir fs ''app/backend'' = Some bs"
  shows "\<exists>fs' objs. build_all run swap fs = Inr fs' \<and> (\<forall>p \<in> set objs. object_path p) \<and> printed fs' = printed fs @
    object_lines libs_cmd ''libs'' ''build/obj/libs'' ds @ (if swap then [async_shared, async_archive] else [async_archive, async_shared]) @
    object_lines server_cmd ''server'' ''build/obj/server'' es @ [server_archive] @
    object_lines http_libs_cmd ''http_libs'' ''build/obj'' hs @
    object_lines backend_cmd ''app/backend'' ''build/obj'' bs @
    [line_of (app_cmd\<lparr>p_out := Some ''build/obj/main.o''\<rparr>), line_of (link_cmd objs\<lparr>p_out := Some ''build/bin/app''\<rparr>)]"
proof -
  from async_step [OF assms(1,3)] have a: "steady fs (build_async_lib run swap (setup_build fs))" by blast
  from server_step [OF a assms(1,4,2)] obtain b where b: "build_server run (build_async_lib run swap (setup_build fs)) = Inr b" "steady fs b"
    "printed b = printed (build_async_lib run swap (setup_build fs)) @ object_lines server_cmd ''server'' ''build/obj/server'' es @ [server_archive]" by blast
  from http_libs_step [OF b(2) assms(1,5)] have c: "steady fs (build_http_libs run b)"
    "printed (build_http_libs run b) = printed b @ object_lines http_libs_cmd ''http_libs'' ''build/obj'' hs" by auto
  from app_step [OF c(1) assms(1,6)] obtain objs where d: "\<forall>p \<in> set objs. object_path p"
    "printed (build_app run (build_http_libs run b)) = printed (build_http_libs run b) @ object_lines backend_cmd ''app/backend'' ''build/obj'' bs @
      [line_of (app_cmd\<lparr>p_out := Some ''build/obj/main.o''\<rparr>), line_of (link_cmd objs\<lparr>p_out := Some ''build/bin/app''\<rparr>)]" by blast
  show ?thesis using b(1,3) c(2) d async_step [OF assms(1,3), of swap]
    by (intro exI [of _ "build_app run (build_http_libs run b)"] exI [of _ objs]) (simp add: build_all_def Let_def)
qed

lemma parse_unknown: "parse_opts s (xs @ Opt_unknown # ys) = parse_opts s xs"
  by (induction xs arbitrary: s) (simp_all split: opt.split)

text \<open>An option that is not known, or lacks its argument, does not stop the tool: it works as if the rest of the options, a \<open>--skip\<close> too,
  were not there.\<close>

theorem unknown_option_builds: "cb_main run swap fs argv (xs @ Opt_unknown # ys) rest = cb_main run swap fs argv xs rest"
  unfolding cb_main_def parse_unknown ..

subsection \<open>The build of this repository\<close>

definition repo_tree :: node where
  "repo_tree = Dir [(''libs'', Dir (map (\<lambda>f. (f, File [] 1)) [''queue.h'', ''lock.h'', ''queue.c'', ''async.h'', ''async.c'', ''threadpool.h'', ''threadpool.c''])),
     (''server'', Dir (map (\<lambda>f. (f, File [] 1)) [''http.h'', ''server.c'', ''http.c''])),
     (''http_libs'', Dir (map (\<lambda>f. (f, File [] 1)) [''http_session.c'', ''http_session.h''])),
     (''app'', Dir [(''app.c'', File [] 1), (''backend'', Dir (map (\<lambda>f. (f, File [] 1))
        [''csv.c'', ''coin.c'', ''csv.h'', ''portfolio.h'', ''coin.h'', ''portfolio.c'']))])]"

definition repo_files :: files where
  "repo_files = sample_files\<lparr>tree := repo_tree\<rparr>"

lemmas repo = repo_files_def repo_tree_def sample_files_def opendir_def resolve_def comps_def

theorem build_dir_files_lines_witness:
  "printed (fst (build_dir_files (\<lambda>line t. (t, True)) repo_files server_cmd ''server'' ''build'')) =
     [[''gcc'', ''-c'', ''-O2'', ''-Wall'', ''-o'', ''build/server.o'', ''server/server.c'', ''-Ilibs'', ''-lssl''],
      [''gcc'', ''-c'', ''-O2'', ''-Wall'', ''-o'', ''build/http.o'', ''server/http.c'', ''-Ilibs'', ''-lssl'']]"
  using build_dir_files_lines [of repo_files "''build''" "''server''" "[''.'', ''..'', ''http.h'', ''server.c'']" "''http.c''" "[]" "\<lambda>line t. (t, True)" server_cmd]
  by (simp add: repo create_out_dir_def mkdir_def free_in_dir_def is_c_file_def object_lines_def object_name_def in_dir_def line_of_def
      server_cmd_def filled_cmd_def)

theorem build_all_lines_witness:
  "\<exists>fs' rest. build_all (\<lambda>line t. (t, True)) False repo_files = Inr fs' \<and> printed fs' = rest @
     [[''gcc'', ''-c'', ''-O2'', ''-Wall'', ''-o'', ''build/obj/csv.o'', ''app/backend/csv.c''],
      [''gcc'', ''-c'', ''-O2'', ''-Wall'', ''-o'', ''build/obj/coin.o'', ''app/backend/coin.c''],
      [''gcc'', ''-c'', ''-O2'', ''-Wall'', ''-o'', ''build/obj/portfolio.o'', ''app/backend/portfolio.c''],
      [''gcc'', ''-c'', ''-O2'', ''-Wall'', ''-o'', ''build/obj/main.o'', ''app/app.c'', ''-Ilibs'', ''-Iserver'', ''-Ihttp_libs'']] @
     [last (printed fs')]"
proof -
  have c: "compilers (\<lambda>line t. (t, True)) (cwd repo_files)" by (simp add: compilers_def)
  have d: "depth_at (tree repo_files) (cwd repo_files @ server_objs) \<le> 9" by (simp add: depth_at_def server_objs_def repo)
  from build_all_lines [OF c d, of "[''.'', ''..'', ''queue.h'', ''lock.h'', ''queue.c'', ''async.h'', ''async.c'', ''threadpool.h'', ''threadpool.c'']" "[''.'', ''..'', ''http.h'', ''server.c'', ''http.c'']"
      "[''.'', ''..'', ''http_session.c'', ''http_session.h'']" "[''.'', ''..'', ''csv.c'', ''coin.c'', ''csv.h'', ''portfolio.h'', ''coin.h'', ''portfolio.c'']" False]
  obtain fs' objs where b: "build_all (\<lambda>line t. (t, True)) False repo_files = Inr fs'"
    "\<exists>pre. printed fs' = pre @ object_lines backend_cmd ''app/backend'' ''build/obj'' [''.'', ''..'', ''csv.c'', ''coin.c'', ''csv.h'', ''portfolio.h'', ''coin.h'', ''portfolio.c''] @
      [line_of (app_cmd\<lparr>p_out := Some ''build/obj/main.o''\<rparr>), line_of (link_cmd objs\<lparr>p_out := Some ''build/bin/app''\<rparr>)]"
    by (auto simp: repo)
  then show ?thesis
    by (auto simp: object_lines_def is_c_file_def object_name_def in_dir_def line_of_def backend_cmd_def app_cmd_def filled_cmd_def)
qed

end
