(* ===== verification/Spec2Isabelle.thy ===== *)
theory Spec2Isabelle
  imports QueueThreads Lock PoolClose ServerMain Wire BuildMain
begin

text \<open>
  This development models the https server of the repository (\<open>server/\<close>), the libraries it runs on (\<open>libs/\<close>,
  \<open>http_libs/\<close>), the portfolio application on top of it (\<open>app/\<close>) and the tool that builds them (\<open>cb.c\<close>, \<open>cb.h\<close>), and
  proves what makes them correct, and where they are not.

  \<^bold>\<open>How the program works.\<close>  \<open>main\<close> (\<open>server/server.c\<close>) reads its options, creates the server, lets the application
  register its routes and start its sessions, and starts the listener. The listener (\<open>http_server_worker\<close>) polls a
  table of connections; a packet of a connection without a running task starts a task (\<open>libs/async.c\<close>) on the pool of
  threads (\<open>libs/threadpool.c\<close>), one of a busy connection goes into the queue of the connection (\<open>libs/queue.c\<close>). The
  task (\<open>http_process_request\<close>) puts the packets of a request together, parses the request line, finds the node of
  the url in the tree of paths, calls the handler, and writes the reply. The handlers (\<open>app/app.c\<close>) find the session
  of the cookie (\<open>http_libs/http_session.c\<close>) and work on the user's directory of transaction files
  (\<open>app/backend/\<close>). A second service on the pool (\<open>session_task\<close>) closes expired sessions and saves new users.
  The build tool is a program of its own: it fetches the libraries, collects the commands in arrays that live in arenas,
  and runs the compiler on the directories of the repository.

  \<^bold>\<open>Theories.\<close>  Functions, records and constants have the names of the source.
  \<^item> \<open>Prelude\<close>: faults (\<open>'a res\<close>: \<open>Inl\<close> is undefined behaviour or a call that never returns), counting threads, lists.
    \<open>Fifo\<close>: the contract of a bounded queue as a locale, with the lemmas of its clients.
  \<^item> \<open>Queue\<close>, \<open>QueueThreads\<close> (\<open>libs/queue.c\<close>): the ring buffer implements the contract (the interpretation \<open>ring\<close>),
    and the interleavings of pushing, popping and destroying threads at the granularity of mutex operations keep
    its order, lose no wakeup, and can free the queue under a thread. \<open>Lock\<close> (\<open>libs/lock.h\<close>): the deadline of a timed wait.
  \<^item> \<open>ThreadPool\<close>, \<open>Services\<close>, \<open>PoolClose\<close> (\<open>libs/threadpool.c\<close>): workers and clients as step relations over the queues; every
    submitted work is started once and in order, the pool does not get stuck, what happens when some of the work keeps its thread,
    and what the threads read while the pool is closed and freed.
  \<^item> \<open>Async\<close>, \<open>AsyncEngine\<close> (\<open>libs/async.c\<close>): a task as a generator, the interleavings of the worker with a client that
    awaits or detaches it, the pool of stacks, and the life of the engine.
  \<^item> \<open>CString\<close>, \<open>Memory\<close>: the C string functions the program calls, and blocks of memory with their bounds.
  \<^item> \<open>Response\<close>, \<open>PathTree\<close>, \<open>Request\<close>, \<open>Worker\<close> (\<open>server/http.c\<close>): building and sending a reply; registering and
    resolving paths; receiving, parsing and dispatching a request; the table of connections, the rounds of the
    listener, starting and stopping.
  \<^item> \<open>Session\<close>, \<open>SessionTask\<close> (\<open>http_libs/http_session.c\<close>): users, sessions, cookies and reference counts with their
    invariant; the turns of the session task, its stop, and what a restart finds in the files.
  \<^item> \<open>Csv\<close>, \<open>Coin\<close>, \<open>Portfolio\<close> (\<open>app/backend/\<close>): the transaction file implements a list of rows; the summary of a
    coin and adding a transaction; a directory of files implements a map from tickers to transactions.
  \<^item> \<open>App\<close> (\<open>app/app.c\<close>), \<open>Replies\<close>, \<open>Wire\<close>: the ten handlers and the start; every reply they build can be sent;
    the path from the bytes of a request to the handler and back, with the state of the application passed along.
  \<^item> \<open>ServerMain\<close> (\<open>server/server.c\<close>): the options, the start of all parts, and the shutdown.
  \<^item> \<open>BuildMemory\<close>, \<open>BuildStrings\<close>, \<open>Build\<close> (\<open>cb.h\<close>, \<open>build\<close> and what it uses): the stack of contexts with their arenas, strings and arrays in
    them, the parts of a command, and the vector that is executed. \<open>BuildFiles\<close> (\<open>cb.h\<close>, the rest): a tree of files, making and removing
    directories, copying and fetching. \<open>BuildMain\<close> (\<open>cb.c\<close>): the commands of the whole build, and the options.

  \<^bold>\<open>What the properties show.\<close>  For each data structure an invariant or a refinement of an abstract one (queue to list,
  file to rows, directory to map, packets to the header they carry); for each handler what it answers on every branch; for the threads safety
  and progress over all interleavings; for the whole, that a request reaches its handler with the strings it carries,
  that a guest learns nothing, that registered users come in, that users survive a restart, and that the shutdown frees the
  tree once. Where the code fails, the failing run is a theorem: a full queue that tests as empty, a listener that waits
  with the lock its partner needs, a connection closed under its task, a task freed under its worker, a lock never
  released, two services that take all threads, users lost at a stop. For the build tool: a context gives back exactly its
  own memory, the executed vector is the collected command, a removed directory is gone and nothing else, fetched files
  arrive, the build starts every command in its order; and the eleventh context, absolute paths and missing files that fail.

  \<^bold>\<open>Bounds and fuel.\<close>  Loops are structural recursion or functions with a measure, except: \<open>http_process_request\<close> has
  fuel for its rounds (each but the first takes a packet, so the number of packets plus one is enough), \<open>write_users\<close>
  takes at most \<open>qsize\<close> turns because the queue holds no more, \<open>for_slots\<close> counts the slots of the table, and \<open>each_line\<close> the entries of the file;
  \<open>read_argv\<close> has as much fuel as an arena has bytes, and a vector has fewer words. Removing a directory returns within ten open contexts.
  Sizes are natural numbers; where the code can wrap or cut (\<open>size_t\<close> of a negative number, \<open>last - 1\<close>, \<open>strtoul\<close>, the
  16 bits of the port, numbers below \<open>2 ^ 31\<close>) the wrap is written out or the bound is a hypothesis.

  \<^bold>\<open>Parameters.\<close>  What the program gets from outside is an argument: the bytes \<open>realloc\<close> leaves (\<open>junk\<close>), fresh uuids,
  received packets and the results of \<open>poll\<close>, \<open>accept\<close> and TLS, floating point (\<open>flops\<close>), the operations of the file
  system (\<open>os\<close>), what \<open>getopt_long\<close> reports, the socket, the number of processors, what a compiler does to the files (\<open>run\<close>). Allocation and \<open>mmap\<close> succeed.
  A path of the file system is a name: two names of one file are two paths.

  \<^bold>\<open>Not modelled.\<close>  The wrappers of pthread and atomic operations have no definitions of their own: their meaning is in the step relations.
  Contexts of tasks (\<open>swapcontext\<close>) are the suspensions that are left, and suspending tasks are not interleaved with
  clients. A turn of the listener that waits is not resumed. Printing is left out. TLS, the pages and scripts of \<open>app/view\<close>
  (no C) are not modelled. Of the build tool: processes (the two commands of \<open>build_async\<close> take effect in either order, and
  \<open>execvp\<close> finds its program), a copied file that does not fit into the arena, links and \<open>..\<close>, and the functions of \<open>cb.h\<close> that nothing calls
  (\<open>string_create\<close>, \<open>string_cmp\<close>, \<open>string_cpy\<close>, \<open>string_cat\<close>, \<open>arena_reset\<close>, \<open>build_dir\<close>, \<open>build_scan_append_dir\<close>, \<open>delete_file\<close>). What
  \<open>BuildFiles\<close> and \<open>BuildMain\<close> do with strings and arrays they do with their texts.
\<close>

end
